(* ===== verification/Relay_Prelude.thy ===== *)
theory Relay_Prelude
  imports Complex_Main "HOL-Library.Signed_Division"
begin

text \<open>
  Prelude of the relay's library: what every component uses of Go and of its surroundings.

  \<^item> 64-bit integers as \<^typ>\<open>int\<close> with the wrap-around written out (\<open>wrap64\<close>),
    \<open>time.Duration\<close> as such an integer of nanoseconds, \<open>time.Time\<close> as a pair of a wall
    and a monotonic reading (\<open>gotime\<close>), with \<open>Add\<close>, \<open>Sub\<close>, \<open>Before\<close> and \<open>Unix\<close>.
  \<^item> The surroundings of the process as a record of oracles (\<open>world\<close>): the clock, the
    outcome of every call into the SQL driver, the entropy source, and the log written so
    far. Every theorem that quantifies over a \<open>world\<close> speaks of every clock, of every
    pattern of driver failures and of every random key.
  \<^item> Generic lemmas on lists, and a locale of transition systems with their
    reachable states, interpreted by the components that run concurrently.
\<close>

named_theorems world_simps \<open>the effect of the oracle calls on the record of oracles\<close>

type_synonym bytes = string

section \<open>Machine integers and durations\<close>

definition min_int64 :: int where "min_int64 = - (2 ^ 63)"
definition max_int64 :: int where "max_int64 = 2 ^ 63 - 1"

text \<open>The value an int64 holds after an operation whose exact result is \<open>n\<close>.\<close>

definition wrap64 :: "int \<Rightarrow> int" where
  "wrap64 n = (n + 2 ^ 63) mod 2 ^ 64 - 2 ^ 63"

definition in_int64 :: "int \<Rightarrow> bool" where
  "in_int64 n \<longleftrightarrow> min_int64 \<le> n \<and> n \<le> max_int64"

lemmas int64_defs = wrap64_def in_int64_def min_int64_def max_int64_def

lemma wrap64_in_range [simp]: "in_int64 (wrap64 n)"
proof -
  have "0 \<le> (n + 2 ^ 63) mod 2 ^ 64" "(n + 2 ^ 63) mod 2 ^ 64 < (2 ^ 64 :: int)"
    by simp_all
  then show ?thesis by (simp add: int64_defs)
qed

lemma wrap64_id: "in_int64 n \<Longrightarrow> wrap64 n = n"
  by (simp add: int64_defs)

abbreviation second_ns :: int where "second_ns \<equiv> 1000000000"
abbreviation minute_ns :: int where "minute_ns \<equiv> 60000000000"
abbreviation hour_ns :: int where "hour_ns \<equiv> 3600000000000"

section \<open>Time\<close>

text \<open>
  A \<open>time.Time\<close> from \<open>time.Now\<close> carries a wall reading and a monotonic one, here both in
  nanoseconds. \<open>Sub\<close>, \<open>Since\<close> and \<open>Before\<close> compare the monotonic readings, \<open>Unix\<close> reads
  the wall, \<open>Add\<close> moves both. The two readings are unbounded integers: Go's own fields only
  run out some 292 years after the epoch or after the process started.
\<close>

record gotime =
  t_wall :: int
  t_mono :: int

definition time_add :: "gotime \<Rightarrow> int \<Rightarrow> gotime" where
  "time_add t d = \<lparr>t_wall = t_wall t + d, t_mono = t_mono t + d\<rparr>"

definition time_sub :: "gotime \<Rightarrow> gotime \<Rightarrow> int" where
  "time_sub t u = max min_int64 (min max_int64 (t_mono t - t_mono u))"

definition time_before :: "gotime \<Rightarrow> gotime \<Rightarrow> bool" where
  "time_before t u \<longleftrightarrow> t_mono t < t_mono u"

definition time_unix :: "gotime \<Rightarrow> int" where
  "time_unix t = t_wall t div second_ns"

lemma time_add_sel [simp]:
  "t_wall (time_add t d) = t_wall t + d" "t_mono (time_add t d) = t_mono t + d"
  by (simp_all add: time_add_def)

lemma time_sub_le: "t_mono u \<le> t_mono t \<Longrightarrow> time_sub t u \<le> t_mono t - t_mono u"
  by (simp add: time_sub_def min_int64_def)

lemma time_sub_nonneg: "t_mono u \<le> t_mono t \<Longrightarrow> 0 \<le> time_sub t u"
  by (simp add: time_sub_def min_int64_def max_int64_def)

lemma time_unix_mono: "t_wall t \<le> t_wall u \<Longrightarrow> time_unix t \<le> time_unix u"
  by (simp add: time_unix_def zdiv_mono1)

section \<open>The world around the process\<close>

text \<open>
  The outcome of one call into the SQL driver: it succeeds, or it reports an error. An
  error carries whether the statement took effect all the same, as a commit interrupted
  after its point of no return may; inside a transaction that is rolled back the flag has
  no effect.
\<close>

datatype db_out = DbOk | DbErr (took_effect: bool)

text \<open>
  The lines the relay logs, one constructor per \<open>log.Printf\<close>, with the values each prints.
  The text of a driver's error is not represented.
\<close>

datatype log_line =
    LogVerifyKey
  | LogBindToken
  | LogSend (log_key: int) (log_n: nat) (log_delivered: nat) (log_unregistered: nat)
      (log_forbidden: nat) (log_not_attempted: nat) (log_error: nat)
  | LogIssueKey
  | LogIssued (log_label: bytes)
  | LogListKeys
  | LogRevokeKey
  | LogPruneTokens
  | LogNotConfigured (log_platform: bytes) (log_for_request: bool)
  | LogRecovered
  | LogFcmUnset
  | LogFcmProject (log_project: bytes)
  | LogApnsIncomplete
  | LogApnsBundle (log_bundle: bytes) (log_production: bool)
  | LogAdminDisabled
  | LogListening (log_addr: bytes)
  | LogListen
  | LogShuttingDown

record world =
  w_clock :: "nat \<Rightarrow> gotime"
  w_cpos :: nat
  w_db :: "nat \<Rightarrow> db_out"
  w_dpos :: nat
  w_entropy :: "nat \<Rightarrow> (nat \<Rightarrow> char) option"
  w_rpos :: nat
  w_log :: "log_line list"

text \<open>\<open>time.Now()\<close>: the next reading of the clock.\<close>

definition time_now :: "world \<Rightarrow> gotime \<times> world" where
  "time_now w = (w_clock w (w_cpos w), w\<lparr>w_cpos := Suc (w_cpos w)\<rparr>)"

text \<open>One call into the SQL driver.\<close>

definition db_call :: "world \<Rightarrow> db_out \<times> world" where
  "db_call w = (w_db w (w_dpos w), w\<lparr>w_dpos := Suc (w_dpos w)\<rparr>)"

text \<open>\<open>rand.Read\<close> into a slice of \<open>n\<close> bytes: it fills the slice or fails.\<close>

definition rand_read :: "nat \<Rightarrow> world \<Rightarrow> bytes option \<times> world" where
  "rand_read n w =
     (map_option (\<lambda>f. map f [0..<n]) (w_entropy w (w_rpos w)), w\<lparr>w_rpos := Suc (w_rpos w)\<rparr>)"

definition log_print :: "log_line \<Rightarrow> world \<Rightarrow> world" where
  "log_print l w = w\<lparr>w_log := w_log w @ [l]\<rparr>"

lemmas world_defs = time_now_def db_call_def rand_read_def log_print_def

lemma rand_read_length: "rand_read n w = (Some raw, w') \<Longrightarrow> length raw = n"
  by (auto simp: rand_read_def)

text \<open>
  What Go documents of \<open>time.Now\<close>: the monotonic readings of one process never decrease.
\<close>

definition clock_mono :: "world \<Rightarrow> bool" where
  "clock_mono w \<longleftrightarrow> (\<forall>i j. i \<le> j \<longrightarrow> t_mono (w_clock w i) \<le> t_mono (w_clock w j))"

text \<open>
  A later world: the same clock, not read backwards, and a log that has only grown, by
  lines of the set \<open>L\<close>.
\<close>

definition later :: "log_line set \<Rightarrow> world \<Rightarrow> world \<Rightarrow> bool" where
  "later L w w' \<longleftrightarrow> w_clock w' = w_clock w \<and> w_cpos w \<le> w_cpos w' \<and>
     (\<exists>ls. w_log w' = w_log w @ ls \<and> set ls \<subseteq> L)"

lemma later_refl [intro, simp]: "later L w w"
  by (simp add: later_def)

lemma later_trans [trans]: "later L u v \<Longrightarrow> later L v w \<Longrightarrow> later L u w"
  by (auto simp: later_def)

lemma later_mono: "later L w w' \<Longrightarrow> L \<subseteq> M \<Longrightarrow> later M w w'"
  by (auto simp: later_def)

lemma later_clock: "later L w w' \<Longrightarrow> clock_mono w \<Longrightarrow> clock_mono w'"
  by (simp add: later_def clock_mono_def)

lemma later_reading:
  "later L w w' \<Longrightarrow> clock_mono w \<Longrightarrow> t_mono (w_clock w (w_cpos w)) \<le> t_mono (w_clock w' (w_cpos w'))"
  by (simp add: later_def clock_mono_def)

section \<open>Lists\<close>

lemma distinct_map_filter [simp]: "distinct (map f xs) \<Longrightarrow> distinct (map f (filter P xs))"
  by (induction xs) auto

lemma find_map_keeps:
  assumes "\<And>x. P (f x) = P x"
  shows "find P (map f xs) = map_option f (find P xs)"
  by (induction xs) (auto simp: assms)

lemma find_append: "find P (xs @ ys) = (case find P xs of None \<Rightarrow> find P ys | Some x \<Rightarrow> Some x)"
  by (induction xs) auto

lemma find_filter_kept: "find P xs = Some x \<Longrightarrow> Q x \<Longrightarrow> find P (filter Q xs) = Some x"
  by (induction xs) (auto split: if_splits)

lemma find_SomeD: "find P xs = Some x \<Longrightarrow> x \<in> set xs \<and> P x"
  by (auto simp: find_Some_iff)

lemma find_None_all: "find P xs = None \<longleftrightarrow> (\<forall>x \<in> set xs. \<not> P x)"
  by (auto simp: find_None_iff)

lemma sorted_wrt_filter_map: "sorted_wrt R (map f xs) \<Longrightarrow> sorted_wrt R (map f (filter P xs))"
  by (induction xs) auto

section \<open>Transition systems\<close>

text \<open>
  Components whose operations interleave are transition systems. An invariant that holds
  at the start and that every step keeps holds in every reachable state; a relation that
  is reflexive, transitive and holds across every step holds across every run.
\<close>

locale step_system =
  fixes start :: "'s \<Rightarrow> bool"
    and step :: "'s \<Rightarrow> 's \<Rightarrow> bool"
begin

inductive reach :: "'s \<Rightarrow> bool" where
  reach_start: "start s \<Longrightarrow> reach s"
| reach_step: "reach s \<Longrightarrow> step s t \<Longrightarrow> reach t"

lemma reach_invariant:
  assumes "reach s"
    and "\<And>s. start s \<Longrightarrow> I s"
    and "\<And>s t. reach s \<Longrightarrow> I s \<Longrightarrow> step s t \<Longrightarrow> I t"
  shows "I s"
  using assms(1) by (induction rule: reach.induct) (auto intro: assms(2,3))

lemma reach_steps: "reach s \<Longrightarrow> step\<^sup>*\<^sup>* s t \<Longrightarrow> reach t"
  by (rotate_tac 1, induction rule: rtranclp_induct) (auto intro: reach_step)

lemma steps_relation:
  assumes "step\<^sup>*\<^sup>* s t" and "reach s"
    and "\<And>s. R s s"
    and "\<And>s t u. R s t \<Longrightarrow> R t u \<Longrightarrow> R s u"
    and "\<And>s t. reach s \<Longrightarrow> step s t \<Longrightarrow> R s t"
  shows "R s t"
  using assms(1)
proof (induction rule: rtranclp_induct)
  case base
  show ?case by (rule assms(3))
next
  case (step t u)
  have "R t u" using assms(2) step.hyps by (meson assms(5) reach_steps)
  with step.IH show ?case by (rule assms(4))
qed

end

text \<open>
  A concrete system implements an abstract one: across every step from a state that satisfies
  the invariant, the abstraction makes a run of the abstract system. So it does across runs, and
  what every abstract step keeps, the concrete system keeps of its abstraction.
\<close>

locale simulation =
  fixes astep :: "'a \<Rightarrow> 'a \<Rightarrow> bool"
    and cstep :: "'c \<Rightarrow> 'c \<Rightarrow> bool"
    and abstr :: "'c \<Rightarrow> 'a"
    and inv :: "'c \<Rightarrow> bool"
  assumes inv_step: "inv c \<Longrightarrow> cstep c c' \<Longrightarrow> inv c'"
    and sim_step: "inv c \<Longrightarrow> cstep c c' \<Longrightarrow> astep\<^sup>*\<^sup>* (abstr c) (abstr c')"
begin

lemma sim_run: "cstep\<^sup>*\<^sup>* c c' \<Longrightarrow> inv c \<Longrightarrow> inv c' \<and> astep\<^sup>*\<^sup>* (abstr c) (abstr c')"
proof (induction rule: rtranclp_induct)
  case (step y z)
  then have "inv y" "astep\<^sup>*\<^sup>* (abstr c) (abstr y)" by simp_all
  then show ?case using inv_step[OF _ step.hyps(2)] sim_step[OF _ step.hyps(2)] by (auto intro: rtranclp_trans)
qed simp

lemma abstract_invariant:
  assumes "cstep\<^sup>*\<^sup>* c c'" and "inv c" and "J (abstr c)" and "\<And>a a'. J a \<Longrightarrow> astep a a' \<Longrightarrow> J a'"
  shows "J (abstr c')"
proof -
  have "astep\<^sup>*\<^sup>* (abstr c) (abstr c')" using sim_run assms(1,2) by blast
  then show ?thesis by (induction rule: rtranclp_induct) (auto intro: assms(3,4))
qed

end

end
