(* ===== verification/Go_Strings.thy ===== *)
theory Go_Strings
  imports Relay_Prelude
begin

text \<open>
  The functions of Go's \<open>strings\<close>, \<open>strconv\<close>, \<open>net\<close>, \<open>encoding/hex\<close> and
  \<open>encoding/base64\<close> packages that the relay calls, on byte strings: a Go string is a
  sequence of bytes, here a \<^typ>\<open>string\<close> whose characters are bytes, so \<open>length\<close> is Go's
  \<open>len\<close>.
\<close>

section \<open>Decimal integers: \<open>strconv.FormatInt\<close>, \<open>ParseInt\<close> and \<open>Atoi\<close>\<close>

abbreviation byte_of :: "char \<Rightarrow> nat" where "byte_of \<equiv> of_char"

definition is_digit :: "char \<Rightarrow> bool" where
  "is_digit c \<longleftrightarrow> 48 \<le> byte_of c \<and> byte_of c \<le> 57"

definition digit_char :: "nat \<Rightarrow> char" where
  "digit_char d = char_of (48 + d)"

fun nat_digits :: "nat \<Rightarrow> string" where
  "nat_digits n = (if n < 10 then [digit_char n] else nat_digits (n div 10) @ [digit_char (n mod 10)])"

declare nat_digits.simps [simp del]

definition FormatInt :: "int \<Rightarrow> string" where
  "FormatInt n = (if n < 0 then CHR ''-'' # nat_digits (nat (- n)) else nat_digits (nat n))"

definition digits_value :: "string \<Rightarrow> nat" where
  "digits_value s = foldl (\<lambda>v c. 10 * v + (byte_of c - 48)) 0 s"

text \<open>\<open>ParseUint(s, 10, 64)\<close> without its range check.\<close>

definition parse_nat :: "string \<Rightarrow> nat option" where
  "parse_nat s = (if s \<noteq> [] \<and> list_all is_digit s then Some (digits_value s) else None)"

text \<open>
  \<open>ParseInt(s, 10, 64)\<close>, which \<open>Atoi\<close> agrees with where \<open>int\<close> has 64 bits: an optional
  sign, then digits only, then the range check. A syntax or range error is \<open>None\<close>.
\<close>

definition ParseInt :: "string \<Rightarrow> int option" where
  "ParseInt s = (case s of
      [] \<Rightarrow> None
    | c # r \<Rightarrow>
        (case parse_nat (if c = CHR ''+'' \<or> c = CHR ''-'' then r else s) of
           None \<Rightarrow> None
         | Some u \<Rightarrow>
             if c \<noteq> CHR ''-'' \<and> 2 ^ 63 \<le> u then None
             else if c = CHR ''-'' \<and> 2 ^ 63 < u then None
             else Some (if c = CHR ''-'' then - int u else int u)))"

abbreviation Atoi :: "string \<Rightarrow> int option" where "Atoi \<equiv> ParseInt"

lemma digit_char [simp]: "d < 10 \<Longrightarrow> byte_of (digit_char d) = 48 + d"
  by (simp add: digit_char_def)

lemma is_digit_digit_char [simp]: "d < 10 \<Longrightarrow> is_digit (digit_char d)"
  by (simp add: is_digit_def)

lemma nat_digits_digits: "list_all is_digit (nat_digits n)"
proof (induction n rule: nat_digits.induct)
  case (1 n)
  then show ?case by (cases "n < 10") (simp_all add: nat_digits.simps[of n])
qed

lemma nat_digits_nonempty [simp]: "nat_digits n \<noteq> []"
  by (subst nat_digits.simps) simp

lemma digits_value_snoc: "digits_value (s @ [c]) = 10 * digits_value s + (byte_of c - 48)"
  by (simp add: digits_value_def)

lemma digits_value_nat_digits [simp]: "digits_value (nat_digits n) = n"
proof (induction n rule: nat_digits.induct)
  case (1 n)
  show ?case
  proof (cases "n < 10")
    case True
    then show ?thesis by (simp add: nat_digits.simps[of n] digits_value_def)
  next
    case False
    then show ?thesis using 1 by (simp add: nat_digits.simps[of n] digits_value_snoc)
  qed
qed

lemma parse_nat_digits [simp]: "parse_nat (nat_digits n) = Some n"
  by (simp add: parse_nat_def nat_digits_digits)

lemma nat_digits_not_sign:
  assumes "nat_digits n = c # r"
  shows "c \<noteq> CHR ''+''" and "c \<noteq> CHR ''-''"
  using nat_digits_digits[of n] assms by (auto simp: is_digit_def)

lemma ParseInt_FormatInt:
  assumes "in_int64 n"
  shows "ParseInt (FormatInt n) = Some n"
proof (cases "n < 0")
  case True
  then show ?thesis using assms by (simp add: ParseInt_def FormatInt_def int64_defs)
next
  case False
  obtain c r where cr: "nat_digits (nat n) = c # r"
    by (cases "nat_digits (nat n)") auto
  then have "parse_nat (c # r) = Some (nat n)" by (metis parse_nat_digits)
  moreover have "\<not> 2 ^ 63 \<le> nat n" using assms False by (simp add: int64_defs)
  ultimately show ?thesis
    using False cr nat_digits_not_sign[OF cr] by (simp add: ParseInt_def FormatInt_def)
qed

lemma ParseInt_range: "ParseInt s = Some n \<Longrightarrow> in_int64 n"
  by (auto simp: ParseInt_def int64_defs split: list.splits option.splits if_splits)

definition decimal_value :: "string \<Rightarrow> int" where
  "decimal_value s = (if hd s = CHR ''-'' then - int (digits_value (tl s)) else int (digits_value s))"

lemma decimal_value_FormatInt: "decimal_value (FormatInt n) = n"
proof (cases "n < 0")
  case False
  have "hd (nat_digits (nat n)) \<noteq> CHR ''-''"
    using nat_digits_not_sign(2)[of "nat n"] by (cases "nat_digits (nat n)") auto
  with False show ?thesis by (simp add: decimal_value_def FormatInt_def)
qed (simp add: decimal_value_def FormatInt_def)

lemma FormatInt_inj: "FormatInt m = FormatInt n \<Longrightarrow> m = n"
  by (metis decimal_value_FormatInt)

section \<open>\<open>strconv.ParseBool\<close>\<close>

definition ParseBool :: "string \<Rightarrow> bool option" where
  "ParseBool s =
     (if s \<in> {''1'', ''t'', ''T'', ''TRUE'', ''true'', ''True''} then Some True
      else if s \<in> {''0'', ''f'', ''F'', ''FALSE'', ''false'', ''False''} then Some False
      else None)"

section \<open>\<open>strings.TrimSpace\<close>, \<open>EqualFold\<close>, \<open>Split\<close>\<close>

text \<open>
  The UTF-8 encodings of the code points of \<open>unicode.IsSpace\<close>. \<open>TrimSpace\<close> removes them
  from the left and then from the right. A suffix that is one of these encodings is what
  \<open>DecodeLastRune\<close> decodes, since none of them is the tail of a longer encoding.
\<close>

definition spaces :: "nat list list" where
  "spaces = [[9], [10], [11], [12], [13], [32], [194, 133], [194, 160], [225, 154, 128],
     [226, 128, 128], [226, 128, 129], [226, 128, 130], [226, 128, 131], [226, 128, 132],
     [226, 128, 133], [226, 128, 134], [226, 128, 135], [226, 128, 136], [226, 128, 137],
     [226, 128, 138], [226, 128, 168], [226, 128, 169], [226, 128, 175], [226, 129, 159],
     [227, 128, 128]]"

definition starts_with :: "nat list \<Rightarrow> string \<Rightarrow> bool" where
  "starts_with p s \<longleftrightarrow> map byte_of (take (length p) s) = p"

definition space_at :: "nat list list \<Rightarrow> string \<Rightarrow> nat" where
  "space_at ps s = (case find (\<lambda>p. starts_with p s) ps of None \<Rightarrow> 0 | Some p \<Rightarrow> length p)"

lemma starts_with_length: "starts_with p s \<Longrightarrow> length p \<le> length s"
  unfolding starts_with_def by (metis length_map length_take min.cobounded1)

lemma space_at_le: "space_at ps s \<le> length s"
  by (auto simp: space_at_def find_Some_iff starts_with_length split: option.split)

function trim_left :: "nat list list \<Rightarrow> string \<Rightarrow> string" where
  "trim_left ps s = (if space_at ps s = 0 then s else trim_left ps (drop (space_at ps s) s))"
  by pat_completeness auto
termination
proof (relation "measure (\<lambda>(ps, s). length s)")
  fix ps :: "nat list list" and s :: string
  assume "space_at ps s \<noteq> 0"
  then show "((ps, drop (space_at ps s) s), ps, s) \<in> measure (\<lambda>(ps, s). length s)"
    using space_at_le[of ps s] by simp
qed simp

declare trim_left.simps [simp del]

definition TrimSpace :: "string \<Rightarrow> string" where
  "TrimSpace s = rev (trim_left (map rev spaces) (rev (trim_left spaces s)))"

lemma trim_left_length: "length (trim_left ps s) \<le> length s"
proof (induction ps s rule: trim_left.induct)
  case (1 ps s)
  then show ?case by (cases "space_at ps s = 0") (auto simp: trim_left.simps[of ps s])
qed

lemma TrimSpace_length: "length (TrimSpace s) \<le> length s"
  using trim_left_length[of "map rev spaces" "rev (trim_left spaces s)"] trim_left_length[of spaces s]
  by (simp add: TrimSpace_def)

lemma trim_left_done: "space_at ps (trim_left ps s) = 0"
proof (induction ps s rule: trim_left.induct)
  case (1 ps s)
  then show ?case by (cases "space_at ps s = 0") (auto simp: trim_left.simps[of ps s])
qed

lemma trim_left_id: "space_at ps s = 0 \<Longrightarrow> trim_left ps s = s"
  by (simp add: trim_left.simps)

text \<open>A text of visible ASCII bytes has nothing to trim.\<close>

definition visible :: "char \<Rightarrow> bool" where
  "visible c \<longleftrightarrow> 33 \<le> byte_of c \<and> byte_of c \<le> 127"

lemma TrimSpace_visible:
  assumes "list_all visible s"
  shows "TrimSpace s = s"
proof -
  have z: "space_at ps t = 0" if "list_all visible t" "\<forall>p \<in> set ps. p \<noteq> [] \<and> (hd p < 33 \<or> 127 < hd p)" for ps t
  proof -
    have "\<not> starts_with p t" if p: "p \<in> set ps" for p
    proof (cases t)
      case Nil
      then show ?thesis using p \<open>\<forall>p \<in> set ps. _\<close> by (auto simp: starts_with_def)
    next
      case (Cons c cs)
      obtain q qs where "p = q # qs" "q < 33 \<or> 127 < q" using p \<open>\<forall>p \<in> set ps. _\<close> by (metis list.collapse)
      then show ?thesis using \<open>list_all visible t\<close> Cons by (auto simp: starts_with_def visible_def)
    qed
    then have "find (\<lambda>p. starts_with p t) ps = None" by (auto simp: find_None_iff)
    then show ?thesis by (simp add: space_at_def)
  qed
  have "space_at spaces s = 0" by (rule z[OF assms]) (simp add: spaces_def)
  moreover have "space_at (map rev spaces) (rev s) = 0" by (rule z) (use assms in \<open>simp_all add: spaces_def\<close>)
  ultimately show ?thesis by (simp add: TrimSpace_def trim_left_id)
qed

text \<open>
  \<open>EqualFold\<close> against a text of ASCII letters other than \<open>k\<close> and \<open>s\<close>, the only ones with
  a non-ASCII fold: equality up to ASCII case.
\<close>

definition to_lower :: "char \<Rightarrow> char" where
  "to_lower c = (if 65 \<le> byte_of c \<and> byte_of c \<le> 90 then char_of (byte_of c + 32 :: nat) else c)"

definition EqualFold :: "string \<Rightarrow> string \<Rightarrow> bool" where
  "EqualFold s t \<longleftrightarrow> map to_lower s = map to_lower t"

text \<open>\<open>strings.Split(s, sep)\<close> for a separator of one byte.\<close>

fun Split :: "string \<Rightarrow> char \<Rightarrow> string list" where
  "Split [] c = [[]]"
| "Split (x # xs) c =
     (if x = c then [] # Split xs c
      else (case Split xs c of [] \<Rightarrow> [[x]] | p # ps \<Rightarrow> (x # p) # ps))"

lemma Split_nonempty [simp]: "Split s c \<noteq> []"
  by (cases s) (auto split: list.split)

lemma Split_no_sep: "c \<notin> set s \<Longrightarrow> Split s c = [s]"
  by (induction s) auto

lemma Split_append: "Split (s @ c # t) c = Split s c @ Split t c"
  by (induction s) (auto split: list.splits)

section \<open>\<open>net.SplitHostPort\<close>\<close>

fun IndexByte :: "string \<Rightarrow> char \<Rightarrow> nat option" where
  "IndexByte [] c = None"
| "IndexByte (x # xs) c = (if x = c then Some 0 else map_option Suc (IndexByte xs c))"

definition LastIndexByte :: "string \<Rightarrow> char \<Rightarrow> nat option" where
  "LastIndexByte s c = map_option (\<lambda>i. length s - 1 - i) (IndexByte (rev s) c)"

text \<open>The host, or \<open>None\<close> where the function returns an error. \<open>i\<close> is the last colon.\<close>

definition SplitHostPort :: "string \<Rightarrow> (string \<times> string) option" where
  "SplitHostPort s =
     (case LastIndexByte s CHR '':'' of
        None \<Rightarrow> None
      | Some i \<Rightarrow>
          if s ! 0 = CHR ''['' then
            (case IndexByte s CHR '']'' of
               None \<Rightarrow> None
             | Some e \<Rightarrow>
                 if e + 1 = length s then None
                 else if e + 1 \<noteq> i then None
                 else if IndexByte (drop 1 s) CHR ''['' \<noteq> None then None
                 else if IndexByte (drop (e + 1) s) CHR '']'' \<noteq> None then None
                 else Some (drop 1 (take e s), drop (i + 1) s))
          else if IndexByte (take i s) CHR '':'' \<noteq> None then None
          else if IndexByte s CHR ''['' \<noteq> None then None
          else if IndexByte s CHR '']'' \<noteq> None then None
          else Some (take i s, drop (i + 1) s))"

lemma IndexByte_None [simp]: "IndexByte s c = None \<longleftrightarrow> c \<notin> set s"
  by (induction s) auto

lemma IndexByte_first: "c \<notin> set s \<Longrightarrow> IndexByte (s @ c # t) c = Some (length s)"
  by (induction s) auto

lemma LastIndexByte_last: "c \<notin> set t \<Longrightarrow> LastIndexByte (s @ c # t) c = Some (length s)"
  by (simp add: LastIndexByte_def IndexByte_first)

text \<open>An address written as the net package writes a TCP peer's: \<open>host:port\<close>, \<open>[host]:port\<close>.\<close>

lemma SplitHostPort_plain:
  assumes "set host \<inter> {CHR '':'', CHR ''['', CHR '']''} = {}"
    and "set port \<inter> {CHR '':'', CHR ''['', CHR '']''} = {}"
  shows "SplitHostPort (host @ '':'' @ port) = Some (host, port)"
proof -
  have i: "LastIndexByte (host @ '':'' @ port) CHR '':'' = Some (length host)"
    using assms(2) LastIndexByte_last[of "CHR '':''" port host] by simp
  have "(host @ '':'' @ port) ! 0 \<noteq> CHR ''[''"
    using assms(1) by (cases host) auto
  then show ?thesis
    using assms i by (auto simp: SplitHostPort_def)
qed

lemma SplitHostPort_bracketed:
  assumes "set host \<inter> {CHR ''['', CHR '']''} = {}"
    and "set port \<inter> {CHR '':'', CHR ''['', CHR '']''} = {}"
  shows "SplitHostPort (''['' @ host @ '']:'' @ port) = Some (host, port)"
proof -
  let ?s = "''['' @ host @ '']:'' @ port"
  have i: "LastIndexByte ?s CHR '':'' = Some (length host + 2)"
    using assms(2) LastIndexByte_last[of "CHR '':''" port "''['' @ host @ '']''"] by simp
  have e: "IndexByte ?s CHR '']'' = Some (length host + 1)"
    using assms(1) IndexByte_first[of "CHR '']''" "''['' @ host" "'':'' @ port"] by simp
  show ?thesis
    using assms i e by (auto simp: SplitHostPort_def)
qed

section \<open>\<open>encoding/hex\<close> and \<open>base64.RawURLEncoding\<close>\<close>

definition hex_digits :: string where "hex_digits = ''0123456789abcdef''"

definition hex_encode :: "bytes \<Rightarrow> string" where
  "hex_encode s = concat (map (\<lambda>c. [hex_digits ! (byte_of c div 16), hex_digits ! (byte_of c mod 16)]) s)"

definition url_alphabet :: string where
  "url_alphabet = ''ABCDEFGHIJKLMNOPQRSTUVWXYZabcdefghijklmnopqrstuvwxyz0123456789-_''"

fun sextets :: "nat list \<Rightarrow> nat list" where
  "sextets [] = []"
| "sextets [a] = [a div 4, (a mod 4) * 16]"
| "sextets [a, b] = [a div 4, (a mod 4) * 16 + b div 16, (b mod 16) * 4]"
| "sextets (a # b # c # xs) =
     [a div 4, (a mod 4) * 16 + b div 16, (b mod 16) * 4 + c div 64, c mod 64] @ sextets xs"

definition RawURLEncode :: "bytes \<Rightarrow> string" where
  "RawURLEncode s = map (\<lambda>d. url_alphabet ! d) (sextets (map byte_of s))"

lemma length_hex_encode [simp]: "length (hex_encode s) = 2 * length s"
  by (induction s) (auto simp: hex_encode_def)

lemma length_sextets: "length (sextets xs) = (4 * length xs + 2) div 3"
  by (induction xs rule: sextets.induct) auto

lemma sextets_bound: "list_all (\<lambda>a. a < 256) xs \<Longrightarrow> list_all (\<lambda>d. d < 64) (sextets xs)"
  by (induction xs rule: sextets.induct) auto

text \<open>The decoder shows that no bit is lost.\<close>

fun octets :: "nat list \<Rightarrow> nat list" where
  "octets (p # q # r # s # xs) = [p * 4 + q div 16, q mod 16 * 16 + r div 4, r mod 4 * 64 + s] @ octets xs"
| "octets [p, q, r] = [p * 4 + q div 16, q mod 16 * 16 + r div 4]"
| "octets [p, q] = [p * 4 + q div 16]"
| "octets _ = []"

lemma octets_sextets: "list_all (\<lambda>a. a < 256) xs \<Longrightarrow> octets (sextets xs) = xs"
  by (induction xs rule: sextets.induct) auto

lemma url_alphabet_distinct: "distinct url_alphabet"
  by (simp add: url_alphabet_def)

lemma url_alphabet_inj: "i < 64 \<Longrightarrow> j < 64 \<Longrightarrow> url_alphabet ! i = url_alphabet ! j \<Longrightarrow> i = j"
  using nth_eq_iff_index_eq[OF url_alphabet_distinct, of i j] by (simp add: url_alphabet_def)

lemma map_nth_inj:
  assumes "map (\<lambda>d. url_alphabet ! d) xs = map (\<lambda>d. url_alphabet ! d) ys"
    and "list_all (\<lambda>d. d < 64) xs" and "list_all (\<lambda>d. d < 64) ys"
  shows "xs = ys"
  using assms
proof (induction xs arbitrary: ys)
  case (Cons x xs)
  then show ?case by (cases ys) (auto intro: url_alphabet_inj)
qed simp

lemma RawURLEncode_inj:
  assumes "RawURLEncode s = RawURLEncode t"
  shows "s = t"
proof -
  have b: "list_all (\<lambda>a. a < 256) (map byte_of u)" for u :: string
    by (simp add: list_all_iff)
  have "sextets (map byte_of s) = sextets (map byte_of t)"
    using assms map_nth_inj sextets_bound b unfolding RawURLEncode_def by blast
  then have "map byte_of s = (map byte_of t :: nat list)"
    using octets_sextets[OF b] by metis
  moreover have "inj (of_char :: char \<Rightarrow> nat)" by (rule injI) simp
  ultimately show ?thesis by (simp add: inj_map_eq_map)
qed

lemma RawURLEncode_visible: "list_all visible (RawURLEncode s)"
proof -
  have a: "list_all visible url_alphabet" by (simp add: url_alphabet_def visible_def)
  have "list_all (\<lambda>a. a < 256) (map byte_of s)" by (simp add: list_all_iff)
  then have "\<forall>d \<in> set (sextets (map byte_of s)). d < length url_alphabet"
    using sextets_bound by (fastforce simp: list_all_iff url_alphabet_def)
  then show ?thesis using a by (auto simp: RawURLEncode_def list_all_iff)
qed

lemma length_RawURLEncode: "length (RawURLEncode s) = (4 * length s + 2) div 3"
  by (simp add: RawURLEncode_def length_sextets)

end
