(* ===== verification/Config.thy ===== *)
theory Config
  imports Go_Strings
begin

text \<open>
  \<open>internal/config\<close>: the settings and their loading from the environment. The environment
  is a function from names to values, empty for a variable that is not set, as
  \<open>os.Getenv\<close> reads it.
\<close>

type_synonym environ = "bytes \<Rightarrow> bytes"

record Config =
  Port :: int
  DBPath :: bytes
  AdminToken :: bytes
  FCMCredentialsFile :: bytes
  APNsKeyPath :: bytes
  APNsKeyID :: bytes
  APNsTeamID :: bytes
  APNsBundleID :: bytes
  APNsProduction :: bool
  TrustProxy :: bool
  RegisterPerHour :: int
  RegisterBurst :: int
  MaxRegistrations :: int
  SendPerMinute :: int
  SendBurst :: int
  CallSendPerMinute :: int
  CallSendBurst :: int
  MaxMessages :: int
  SendConcurrency :: int
  SendTimeoutSeconds :: int
  TokenRetentionDays :: int

definition getenv :: "environ \<Rightarrow> bytes \<Rightarrow> bytes \<Rightarrow> bytes" where
  "getenv env key dflt = (if env key \<noteq> [] then env key else dflt)"

definition getint :: "environ \<Rightarrow> bytes \<Rightarrow> int \<Rightarrow> int" where
  "getint env key dflt =
     (if env key \<noteq> [] then (case ParseInt (env key) of Some n \<Rightarrow> n | None \<Rightarrow> dflt) else dflt)"

definition getbool :: "environ \<Rightarrow> bytes \<Rightarrow> bool \<Rightarrow> bool" where
  "getbool env key dflt =
     (if env key \<noteq> [] then (case ParseBool (env key) of Some b \<Rightarrow> b | None \<Rightarrow> dflt) else dflt)"

definition Load :: "environ \<Rightarrow> Config" where
  "Load env = \<lparr>
     Port = getint env ''RELAY_PORT'' 8090,
     DBPath = getenv env ''RELAY_DB_PATH'' ''/data/relay.db'',
     AdminToken = getenv env ''RELAY_ADMIN_TOKEN'' [],
     FCMCredentialsFile = getenv env ''RELAY_FCM_CREDENTIALS_FILE'' [],
     APNsKeyPath = getenv env ''RELAY_APNS_KEY_PATH'' [],
     APNsKeyID = getenv env ''RELAY_APNS_KEY_ID'' [],
     APNsTeamID = getenv env ''RELAY_APNS_TEAM_ID'' [],
     APNsBundleID = getenv env ''RELAY_APNS_BUNDLE_ID'' [],
     APNsProduction = getbool env ''RELAY_APNS_PRODUCTION'' True,
     TrustProxy = getbool env ''RELAY_TRUST_PROXY'' False,
     RegisterPerHour = getint env ''RELAY_REGISTER_PER_HOUR'' 5,
     RegisterBurst = getint env ''RELAY_REGISTER_BURST'' 3,
     MaxRegistrations = getint env ''RELAY_MAX_REGISTRATIONS'' 10000,
     SendPerMinute = getint env ''RELAY_SEND_PER_MINUTE'' 120,
     SendBurst = getint env ''RELAY_SEND_BURST'' 60,
     CallSendPerMinute = getint env ''RELAY_CALL_SEND_PER_MINUTE'' 10,
     CallSendBurst = getint env ''RELAY_CALL_SEND_BURST'' 5,
     MaxMessages = getint env ''RELAY_MAX_MESSAGES'' 500,
     SendConcurrency = getint env ''RELAY_SEND_CONCURRENCY'' 8,
     SendTimeoutSeconds = getint env ''RELAY_SEND_TIMEOUT_SECONDS'' 20,
     TokenRetentionDays = getint env ''RELAY_TOKEN_RETENTION_DAYS'' 90\<rparr>"

section \<open>Lemmas\<close>

lemma FormatInt_nonempty [simp]: "FormatInt n \<noteq> []"
  by (simp add: FormatInt_def nat_digits.simps)

lemma getint_FormatInt: "in_int64 n \<Longrightarrow> env key = FormatInt n \<Longrightarrow> getint env key dflt = n"
  by (simp add: getint_def ParseInt_FormatInt)

lemma getint_range: "in_int64 dflt \<Longrightarrow> in_int64 (getint env key dflt)"
  by (auto simp: getint_def dest: ParseInt_range split: option.split)

lemma getint_bad: "ParseInt (env key) = None \<Longrightarrow> getint env key dflt = dflt"
  by (simp add: getint_def)

text \<open>Every number of a loaded configuration is an int64.\<close>

definition config_ints :: "Config \<Rightarrow> int list" where
  "config_ints cfg = [Port cfg, RegisterPerHour cfg, RegisterBurst cfg, MaxRegistrations cfg,
     SendPerMinute cfg, SendBurst cfg, CallSendPerMinute cfg, CallSendBurst cfg, MaxMessages cfg,
     SendConcurrency cfg, SendTimeoutSeconds cfg, TokenRetentionDays cfg]"

lemma Load_ranges: "list_all in_int64 (config_ints (Load env))"
  unfolding config_ints_def Load_def list.pred_inject Config.simps
  by (intro conjI getint_range TrueI) (simp_all add: int64_defs)

section \<open>Properties\<close>

text \<open>
  Every number of a loaded configuration is an int64; a setting written in decimal is read back
  as that number, and one that is not a number, or out of range, falls back to its default.
\<close>

lemma config_int_settings:
  assumes "in_int64 n" and "ParseInt bad = None"
  shows "list_all in_int64 (config_ints (Load env)) \<and> getint (env(key := FormatInt n)) key dflt = n \<and>
     getint (env(key := bad)) key dflt = dflt"
  using Load_ranges getint_FormatInt[OF assms(1)] getint_bad[of "env(key := bad)" key dflt] assms(2) by simp

end
