(* ===== verification/Sha256.thy ===== *)
theory Sha256
  imports Relay_Prelude "HOL-Library.Word"
begin

text \<open>
  \<open>crypto/sha256\<close>, of which the relay calls \<open>Sum256\<close>: FIPS 180-4 on 32-bit words, from a
  byte string to a byte string of length 32. The theorems of the key store hold for the
  function as it is and use nothing of it but its type and the length of its result.
\<close>

unbundle bit_operations_syntax

type_synonym u32 = "32 word"

text \<open>
  The constants of the standard are the first 32 bits of the fractional parts of roots of
  primes: cube roots for the rounds, square roots for the initial state. \<open>iroot k n x\<close> is
  the integer part of the \<open>k\<close>-th root of \<open>x\<close>, below \<open>2 ^ n\<close>, found bit by bit.
\<close>

fun iroot_from :: "nat \<Rightarrow> nat \<Rightarrow> nat \<Rightarrow> nat \<Rightarrow> nat" where
  "iroot_from k 0 x r = r"
| "iroot_from k (Suc n) x r = iroot_from k n x (if (r + 2 ^ n) ^ k \<le> x then r + 2 ^ n else r)"

definition iroot :: "nat \<Rightarrow> nat \<Rightarrow> nat \<Rightarrow> nat" where
  "iroot k n x = iroot_from k n x 0"

definition frac_root :: "nat \<Rightarrow> nat \<Rightarrow> u32" where
  "frac_root k p = of_nat (iroot k 37 (p * 2 ^ (32 * k)))"

definition sha_primes :: "nat list" where
  "sha_primes = filter (\<lambda>n. list_all (\<lambda>d. n mod d \<noteq> 0) [2..<n]) [2..<312]"

definition sha_k :: "u32 list" where
  "sha_k = map (frac_root 3) sha_primes"

definition sha_init :: "u32 list" where
  "sha_init = map (frac_root 2) [2, 3, 5, 7, 11, 13, 17, 19]"

definition sha_ch :: "u32 \<Rightarrow> u32 \<Rightarrow> u32 \<Rightarrow> u32" where
  "sha_ch x y z = (x AND y) XOR (NOT x AND z)"

definition sha_maj :: "u32 \<Rightarrow> u32 \<Rightarrow> u32 \<Rightarrow> u32" where
  "sha_maj x y z = (x AND y) XOR (x AND z) XOR (y AND z)"

definition big_sigma0 :: "u32 \<Rightarrow> u32" where
  "big_sigma0 x = word_rotr 2 x XOR word_rotr 13 x XOR word_rotr 22 x"

definition big_sigma1 :: "u32 \<Rightarrow> u32" where
  "big_sigma1 x = word_rotr 6 x XOR word_rotr 11 x XOR word_rotr 25 x"

definition small_sigma0 :: "u32 \<Rightarrow> u32" where
  "small_sigma0 x = word_rotr 7 x XOR word_rotr 18 x XOR drop_bit 3 x"

definition small_sigma1 :: "u32 \<Rightarrow> u32" where
  "small_sigma1 x = word_rotr 17 x XOR word_rotr 19 x XOR drop_bit 10 x"

text \<open>The message schedule, kept in reverse: each new word from words 2, 7, 15 and 16 back.\<close>

fun sha_schedule :: "nat \<Rightarrow> u32 list \<Rightarrow> u32 list" where
  "sha_schedule 0 w = rev w"
| "sha_schedule (Suc n) w =
     sha_schedule n ((small_sigma1 (w ! 1) + w ! 6 + small_sigma0 (w ! 14) + w ! 15) # w)"

fun sha_round :: "u32 list \<Rightarrow> u32 \<times> u32 \<Rightarrow> u32 list" where
  "sha_round [a, b, c, d, e, f, g, h] (k, w) =
     (let t1 = h + big_sigma1 e + sha_ch e f g + k + w; t2 = big_sigma0 a + sha_maj a b c
      in [t1 + t2, a, b, c, d + t1, e, f, g])"
| "sha_round hs kw = hs"

definition be_word :: "nat list \<Rightarrow> u32" where
  "be_word bs = foldl (\<lambda>v b. push_bit 8 v OR of_nat b) 0 bs"

fun chunks :: "nat \<Rightarrow> nat \<Rightarrow> 'a list \<Rightarrow> 'a list list" where
  "chunks 0 n xs = []"
| "chunks (Suc m) n xs = take n xs # chunks m n (drop n xs)"

definition sha_block :: "u32 list \<Rightarrow> nat list \<Rightarrow> u32 list" where
  "sha_block hs bs =
     map2 (+) hs (foldl sha_round hs
       (zip sha_k (sha_schedule 48 (rev (map be_word (chunks 16 4 bs))))))"

definition be_bytes :: "nat \<Rightarrow> nat \<Rightarrow> nat list" where
  "be_bytes n v = map (\<lambda>i. v div 256 ^ (n - 1 - i) mod 256) [0..<n]"

definition sha_pad :: "nat list \<Rightarrow> nat list" where
  "sha_pad bs = bs @ [128] @ replicate ((119 - length bs mod 64) mod 64) 0
     @ be_bytes 8 (8 * length bs mod 2 ^ 64)"

definition Sum256 :: "bytes \<Rightarrow> bytes" where
  "Sum256 s =
     (let bs = sha_pad (map of_char s)
      in concat (map (\<lambda>h. map char_of (be_bytes 4 (unat h)))
           (foldl sha_block sha_init (chunks (length bs div 64) 64 bs))))"

text \<open>\<open>iroot\<close> is the integer root.\<close>

lemma iroot_from_bounds:
  assumes "0 < k" and "r ^ k \<le> x" and "x < (r + 2 ^ n) ^ k"
  shows "iroot_from k n x r ^ k \<le> x \<and> x < (iroot_from k n x r + 1) ^ k"
  using assms(2,3)
proof (induction n arbitrary: r)
  case (Suc n)
  have "r + 2 ^ Suc n = r + 2 ^ n + 2 ^ n" by simp
  then show ?case using Suc.prems Suc.IH[of "r + 2 ^ n"] Suc.IH[of r] by (auto simp: add.assoc not_le mult_2)
qed simp

lemma iroot_correct: "0 < k \<Longrightarrow> x < (2 ^ n) ^ k \<Longrightarrow> iroot k n x ^ k \<le> x \<and> x < (iroot k n x + 1) ^ k"
  using iroot_from_bounds[of k 0 x n] by (simp add: iroot_def zero_power)

lemma length_sha_round [simp]: "length (sha_round hs kw) = length hs"
  by (induction hs kw rule: sha_round.induct) (auto simp: Let_def)

lemma length_sha_rounds [simp]: "length (foldl sha_round hs kws) = length hs"
  by (induction kws arbitrary: hs) auto

lemma length_sha_blocks [simp]: "length (foldl sha_block hs bss) = length hs"
  by (induction bss arbitrary: hs) (auto simp: sha_block_def)

lemma length_Sum256: "length (Sum256 s) = 32"
proof -
  have c: "length (concat (map (\<lambda>h. map char_of (be_bytes 4 (unat h))) hs)) = 4 * length hs" for hs :: "u32 list"
    by (induction hs) (auto simp: be_bytes_def)
  show ?thesis by (simp add: Sum256_def Let_def c sha_init_def)
qed

end
