(* ===== verification/Key_Store.thy ===== *)
theory Key_Store
  imports Go_Strings Sha256
begin

text \<open>
  \<open>internal/keys\<close>: the key store. A table is the list of its rows in the order of their ids,
  with the counter of its \<open>AUTOINCREMENT\<close>; each SQL statement of the source is a function
  on the tables (\<open>sql_*\<close>), \<open>None\<close> where a uniqueness constraint or the exhausted counter
  refuses it. Each operation calls the driver in the order the code does; every call may
  fail, and a failed write or commit may have taken effect all the same. The one connection
  (\<open>SetMaxOpenConns(1)\<close>) makes a transaction one step: \<open>bind_tx\<close> is the transaction of
  \<open>BindToken\<close>, \<open>store_step\<close> the atomic steps of all operations, in any interleaving.

  The lemmas: the tables stay well-formed under every interleaving (\<open>tables_ok\<close>); bindings
  name one owner, the first, until pruned (locale \<open>token_registry\<close>, interpreted by
  \<open>store_tokens\<close>, and the refinement of \<open>spec_bind\<close>); keys survive and a revocation is
  final (\<open>key_survives\<close>); the ceiling holds; opening an older file keeps its rows.
\<close>

section \<open>Rows, tables and the store\<close>

record Key =
  ID :: int
  Label :: bytes
  CreatedAt :: int
  LastUsedAt :: "int option"
  RevokedAt :: "int option"

record key_row =
  k_id :: int
  k_hash :: bytes
  k_label :: bytes
  k_created :: int
  k_used :: "int option"
  k_revoked :: "int option"

record token_row =
  t_id :: int
  t_platform :: bytes
  t_token :: bytes
  t_key :: int
  t_created :: int
  t_seen :: int

record tables =
  keys_tab :: "key_row list"
  keys_seq :: int
  tokens_tab :: "token_row list"
  tokens_seq :: int

record Store =
  s_db :: tables
  s_lastPrune :: gotime

datatype keys_error = ErrNotFound | ErrRegistrationCeiling | ErrDriver | ErrRandom

definition keyPrefix :: bytes where "keyPrefix = ''smr_''"

definition pruneInterval :: int where "pruneInterval = hour_ns"

section \<open>The statements\<close>

definition sql_count_keys :: "tables \<Rightarrow> int" where
  "sql_count_keys d = int (length (keys_tab d))"

definition sql_insert_key :: "bytes \<Rightarrow> bytes \<Rightarrow> int \<Rightarrow> tables \<Rightarrow> tables option" where
  "sql_insert_key h lab created d =
     (if h \<in> k_hash ` set (keys_tab d) \<or> keys_seq d = max_int64 then None
      else Some (d\<lparr>keys_tab := keys_tab d @
              [\<lparr>k_id = keys_seq d + 1, k_hash = h, k_label = lab, k_created = created,
                k_used = None, k_revoked = None\<rparr>],
            keys_seq := keys_seq d + 1\<rparr>))"

definition sql_select_key :: "bytes \<Rightarrow> tables \<Rightarrow> key_row option" where
  "sql_select_key h d = find (\<lambda>r. k_hash r = h) (keys_tab d)"

definition sql_stamp_used :: "int \<Rightarrow> int \<Rightarrow> tables \<Rightarrow> tables" where
  "sql_stamp_used u i d =
     d\<lparr>keys_tab := map (\<lambda>r. if k_id r = i then r\<lparr>k_used := Some u\<rparr> else r) (keys_tab d)\<rparr>"

definition sql_keys_desc :: "tables \<Rightarrow> key_row list" where
  "sql_keys_desc d = rev (sort_key k_id (keys_tab d))"

definition revocable :: "int \<Rightarrow> key_row \<Rightarrow> bool" where
  "revocable i r \<longleftrightarrow> k_id r = i \<and> k_revoked r = None"

definition sql_revoke :: "int \<Rightarrow> int \<Rightarrow> tables \<Rightarrow> nat \<times> tables" where
  "sql_revoke u i d =
     (length (filter (revocable i) (keys_tab d)),
      d\<lparr>keys_tab := map (\<lambda>r. if revocable i r then r\<lparr>k_revoked := Some u\<rparr> else r) (keys_tab d)\<rparr>)"

definition names_token :: "bytes \<Rightarrow> bytes \<Rightarrow> token_row \<Rightarrow> bool" where
  "names_token p t r \<longleftrightarrow> t_platform r = p \<and> t_token r = t"

definition sql_owner :: "bytes \<Rightarrow> bytes \<Rightarrow> tables \<Rightarrow> int option" where
  "sql_owner p t d = map_option t_key (find (names_token p t) (tokens_tab d))"

definition sql_insert_token :: "bytes \<Rightarrow> bytes \<Rightarrow> int \<Rightarrow> int \<Rightarrow> tables \<Rightarrow> tables option" where
  "sql_insert_token p t k now d =
     (if (\<exists>r \<in> set (tokens_tab d). names_token p t r) \<or> tokens_seq d = max_int64 then None
      else Some (d\<lparr>tokens_tab := tokens_tab d @
              [\<lparr>t_id = tokens_seq d + 1, t_platform = p, t_token = t, t_key = k,
                t_created = now, t_seen = now\<rparr>],
            tokens_seq := tokens_seq d + 1\<rparr>))"

definition sql_touch_token :: "int \<Rightarrow> bytes \<Rightarrow> bytes \<Rightarrow> tables \<Rightarrow> tables" where
  "sql_touch_token now p t d =
     d\<lparr>tokens_tab := map (\<lambda>r. if names_token p t r then r\<lparr>t_seen := now\<rparr> else r) (tokens_tab d)\<rparr>"

definition sql_delete_stale :: "int \<Rightarrow> tables \<Rightarrow> tables" where
  "sql_delete_stale cutoff d = d\<lparr>tokens_tab := filter (\<lambda>r. \<not> t_seen r < cutoff) (tokens_tab d)\<rparr>"

section \<open>The operations\<close>

text \<open>
  \<open>scanKey\<close> of the row a query found; a failing scan is a failing driver call of the
  caller. \<open>write_if\<close> is a write outside a transaction, or a commit, that may or may not
  have taken effect.
\<close>

definition hashKey :: "bytes \<Rightarrow> bytes" where
  "hashKey plain = hex_encode (Sum256 plain)"

fun scanKey :: "key_row option \<Rightarrow> keys_error + Key" where
  "scanKey None = Inl ErrNotFound"
| "scanKey (Some r) = Inr \<lparr>ID = k_id r, Label = k_label r, CreatedAt = k_created r,
     LastUsedAt = k_used r, RevokedAt = k_revoked r\<rparr>"

definition write_if :: "bool \<Rightarrow> tables \<Rightarrow> Store \<Rightarrow> Store" where
  "write_if applied d s = (if applied then s\<lparr>s_db := d\<rparr> else s)"

definition Issue :: "bytes \<Rightarrow> int \<Rightarrow> Store \<Rightarrow> world \<Rightarrow> (keys_error + bytes) \<times> Store \<times> world" where
  "Issue lab mx s w0 =
     (case rand_read 32 w0 of
        (None, w1) \<Rightarrow> (Inl ErrRandom, s, w1)
      | (Some raw, w1) \<Rightarrow>
          (let plain = keyPrefix @ RawURLEncode raw in
           case db_call w1 of
             (DbErr _, w2) \<Rightarrow> (Inl ErrDriver, s, w2)
           | (DbOk, w2) \<Rightarrow>
               (case (if 0 < mx then db_call w2 else (DbOk, w2)) of
                  (DbErr _, w3) \<Rightarrow> (Inl ErrDriver, s, w3)
                | (DbOk, w3) \<Rightarrow>
                    if 0 < mx \<and> mx \<le> sql_count_keys (s_db s) then (Inl ErrRegistrationCeiling, s, w3)
                    else
                      (case time_now w3 of (now, w4) \<Rightarrow>
                         case db_call w4 of
                           (DbErr _, w5) \<Rightarrow> (Inl ErrDriver, s, w5)
                         | (DbOk, w5) \<Rightarrow>
                             (case sql_insert_key (hashKey plain) lab (time_unix now) (s_db s) of
                                None \<Rightarrow> (Inl ErrDriver, s, w5)
                              | Some d \<Rightarrow>
                                  (case db_call w5 of
                                     (DbErr eff, w6) \<Rightarrow> (Inl ErrDriver, write_if eff d s, w6)
                                   | (DbOk, w6) \<Rightarrow> (Inr plain, s\<lparr>s_db := d\<rparr>, w6)))))))"

definition Verify :: "bytes \<Rightarrow> Store \<Rightarrow> world \<Rightarrow> (keys_error + Key) \<times> Store \<times> world" where
  "Verify plain s w0 =
     (case db_call w0 of
        (DbErr _, w1) \<Rightarrow> (Inl ErrDriver, s, w1)
      | (DbOk, w1) \<Rightarrow>
          (case scanKey (sql_select_key (hashKey plain) (s_db s)) of
             Inl e \<Rightarrow> (Inl e, s, w1)
           | Inr k \<Rightarrow>
               if RevokedAt k \<noteq> None then (Inl ErrNotFound, s, w1)
               else
                 (case time_now w1 of (used, w2) \<Rightarrow>
                    let u = time_unix used; d = sql_stamp_used u (ID k) (s_db s) in
                    case db_call w2 of
                      (DbErr eff, w3) \<Rightarrow> (Inr k, write_if eff d s, w3)
                    | (DbOk, w3) \<Rightarrow> (Inr (k\<lparr>LastUsedAt := Some u\<rparr>), s\<lparr>s_db := d\<rparr>, w3))))"

definition List_keys :: "Store \<Rightarrow> world \<Rightarrow> (keys_error + Key list) \<times> world" where
  "List_keys s w0 =
     (case db_call w0 of
        (DbErr _, w1) \<Rightarrow> (Inl ErrDriver, w1)
      | (DbOk, w1) \<Rightarrow>
          (case db_call w1 of
             (DbErr _, w2) \<Rightarrow> (Inl ErrDriver, w2)
           | (DbOk, w2) \<Rightarrow>
               (Inr (map (\<lambda>r. projr (scanKey (Some r))) (sql_keys_desc (s_db s))), w2)))"

definition Revoke :: "int \<Rightarrow> Store \<Rightarrow> world \<Rightarrow> keys_error option \<times> Store \<times> world" where
  "Revoke i s w0 =
     (case time_now w0 of (now, w1) \<Rightarrow>
        case sql_revoke (time_unix now) i (s_db s) of (n, d) \<Rightarrow>
          case db_call w1 of
            (DbErr eff, w2) \<Rightarrow> (Some ErrDriver, write_if eff d s, w2)
          | (DbOk, w2) \<Rightarrow> (if n = 0 then Some ErrNotFound else None, s\<lparr>s_db := d\<rparr>, w2))"

definition maybePruneStaleTokens :: "int \<Rightarrow> Store \<Rightarrow> world \<Rightarrow> Store \<times> world" where
  "maybePruneStaleTokens retention s w0 =
     (if retention \<le> 0 then (s, w0)
      else
        (case time_now w0 of (since, w1) \<Rightarrow>
           if pruneInterval \<le> time_sub since (s_lastPrune s)
           then
             (case time_now w1 of (marked, w2) \<Rightarrow>
                case time_now w2 of (now, w3) \<Rightarrow>
                  let s1 = s\<lparr>s_lastPrune := marked\<rparr>;
                      d = sql_delete_stale (time_unix (time_add now (- retention))) (s_db s)
                  in case db_call w3 of
                       (DbErr eff, w4) \<Rightarrow> (write_if eff d s1, log_print LogPruneTokens w4)
                     | (DbOk, w4) \<Rightarrow> (s1\<lparr>s_db := d\<rparr>, w4))
           else (s, w1)))"

definition bind_tx :: "int \<Rightarrow> bytes \<Rightarrow> bytes \<Rightarrow> Store \<Rightarrow> world \<Rightarrow> (keys_error + int) \<times> Store \<times> world" where
  "bind_tx keyID p t s w0 =
     (case db_call w0 of
        (DbErr _, w1) \<Rightarrow> (Inl ErrDriver, s, w1)
      | (DbOk, w1) \<Rightarrow>
          (case time_now w1 of (clk, w2) \<Rightarrow>
             let now = time_unix clk in
             case db_call w2 of
               (DbErr _, w3) \<Rightarrow> (Inl ErrDriver, s, w3)
             | (DbOk, w3) \<Rightarrow>
                 (let (owner, wrote, w4) =
                    (case sql_owner p t (s_db s) of
                       None \<Rightarrow>
                         (case db_call w3 of
                            (DbErr _, w4) \<Rightarrow> (keyID, None, w4)
                          | (DbOk, w4) \<Rightarrow> (keyID, sql_insert_token p t keyID now (s_db s), w4))
                     | Some ow \<Rightarrow>
                         if ow = keyID
                         then (case db_call w3 of
                                 (DbErr _, w4) \<Rightarrow> (ow, None, w4)
                               | (DbOk, w4) \<Rightarrow> (ow, Some (sql_touch_token now p t (s_db s)), w4))
                         else (ow, Some (s_db s), w3))
                  in case wrote of
                       None \<Rightarrow> (Inl ErrDriver, s, w4)
                     | Some d \<Rightarrow>
                         (case db_call w4 of
                            (DbErr eff, w5) \<Rightarrow> (Inl ErrDriver, write_if eff d s, w5)
                          | (DbOk, w5) \<Rightarrow> (Inr owner, s\<lparr>s_db := d\<rparr>, w5)))))"

definition BindToken :: "int \<Rightarrow> bytes \<Rightarrow> bytes \<Rightarrow> int \<Rightarrow> Store \<Rightarrow> world
    \<Rightarrow> (keys_error + int) \<times> Store \<times> world" where
  "BindToken keyID p t retention s w0 =
     (case bind_tx keyID p t s w0 of
        (Inl e, s1, w1) \<Rightarrow> (Inl e, s1, w1)
      | (Inr owner, s1, w1) \<Rightarrow>
          (case maybePruneStaleTokens retention s1 w1 of (s2, w2) \<Rightarrow> (Inr owner, s2, w2)))"

section \<open>Opening\<close>

text \<open>
  A database file: no tables yet, the tokens table of the first version, without the column
  of last use, or the current one. The rows of the first version are kept with a
  meaningless \<open>t_seen\<close>. The two \<open>CREATE TABLE IF NOT EXISTS\<close> are one call of the driver;
  one that fails between them leaves nothing the next start would not make.
\<close>

datatype tokens_file =
    NoTokens
  | TokensV1 "token_row list" int
  | TokensV2 "token_row list" int

record dbfile =
  f_keys :: "(key_row list \<times> int) option"
  f_tokens :: tokens_file

fun create_tokens :: "tokens_file \<Rightarrow> tokens_file" where
  "create_tokens NoTokens = TokensV2 [] 0"
| "create_tokens f = f"

definition sql_create :: "dbfile \<Rightarrow> dbfile" where
  "sql_create f = \<lparr>f_keys = Some (case f_keys f of None \<Rightarrow> ([], 0) | Some k \<Rightarrow> k),
                  f_tokens = create_tokens (f_tokens f)\<rparr>"

text \<open>\<open>ALTER TABLE\<close>: \<open>None\<close> for the duplicate-column error.\<close>

definition sql_add_last_seen :: "dbfile \<Rightarrow> dbfile option" where
  "sql_add_last_seen f = (case f_tokens f of
      TokensV1 rs q \<Rightarrow> Some (f\<lparr>f_tokens := TokensV2 (map (\<lambda>r. r\<lparr>t_seen := 0\<rparr>) rs) q\<rparr>)
    | _ \<Rightarrow> None)"

definition sql_backfill :: "int \<Rightarrow> dbfile \<Rightarrow> dbfile" where
  "sql_backfill now f = (case f_tokens f of
      TokensV2 rs q \<Rightarrow>
        f\<lparr>f_tokens := TokensV2 (map (\<lambda>r. if t_seen r = 0 then r\<lparr>t_seen := now\<rparr> else r) rs) q\<rparr>
    | _ \<Rightarrow> f)"

definition migrate :: "dbfile \<Rightarrow> world \<Rightarrow> bool \<times> dbfile \<times> world" where
  "migrate f w0 =
     (case db_call w0 of
        (DbErr eff, w1) \<Rightarrow> (False, if eff then sql_create f else f, w1)
      | (DbOk, w1) \<Rightarrow>
          (let f1 = sql_create f in
           case db_call w1 of
             (DbErr eff, w2) \<Rightarrow>
               (False, case sql_add_last_seen f1 of Some f2 \<Rightarrow> if eff then f2 else f1 | None \<Rightarrow> f1, w2)
           | (DbOk, w2) \<Rightarrow>
               (case sql_add_last_seen f1 of
                  None \<Rightarrow> (True, f1, w2)
                | Some f2 \<Rightarrow>
                    (case time_now w2 of (now, w3) \<Rightarrow>
                       let f3 = sql_backfill (time_unix now) f2 in
                       case db_call w3 of
                         (DbErr eff, w4) \<Rightarrow> (False, if eff then f3 else f2, w4)
                       | (DbOk, w4) \<Rightarrow> (True, f3, w4)))))"

fun load_tables :: "dbfile \<Rightarrow> tables option" where
  "load_tables \<lparr>f_keys = Some (ks, kq), f_tokens = TokensV2 ts tq\<rparr> =
     Some \<lparr>keys_tab = ks, keys_seq = kq, tokens_tab = ts, tokens_seq = tq\<rparr>"
| "load_tables _ = None"

definition Open :: "dbfile \<Rightarrow> world \<Rightarrow> Store option \<times> dbfile \<times> world" where
  "Open f w0 =
     (case db_call w0 of
        (DbErr _, w1) \<Rightarrow> (None, f, w1)
      | (DbOk, w1) \<Rightarrow>
          (case time_now w1 of (opened, w2) \<Rightarrow>
             case migrate f w2 of
               (False, f1, w3) \<Rightarrow> (None, f1, w3)
             | (True, f1, w3) \<Rightarrow>
                 (map_option (\<lambda>d. \<lparr>s_db = d, s_lastPrune = opened\<rparr>) (load_tables f1), f1, w3)))"

section \<open>What each operation writes\<close>

lemma Issue_effect:
  assumes "Issue lab mx s w = (r, s', w')"
  shows "s' = s \<or> (\<exists>h t d. sql_insert_key h lab t (s_db s) = Some d \<and> s' = s\<lparr>s_db := d\<rparr>
     \<and> (0 < mx \<longrightarrow> sql_count_keys (s_db s) < mx))"
  using assms
  by (auto simp: Issue_def Let_def write_if_def split: prod.splits option.splits db_out.splits if_splits)

lemma Issue_ok:
  assumes "Issue lab mx s w = (Inr plain, s', w')"
  obtains raw t where "plain = keyPrefix @ RawURLEncode raw" and "length raw = 32"
    and "sql_insert_key (hashKey plain) lab t (s_db s) = Some (s_db s')"
    and "0 < mx \<longrightarrow> sql_count_keys (s_db s) < mx"
    and "s_lastPrune s' = s_lastPrune s"
  using assms
  by (auto simp: Issue_def Let_def dest: rand_read_length split: prod.splits option.splits db_out.splits if_splits)

lemma insert_key_row:
  "sql_insert_key h lab t d = Some d' \<Longrightarrow>
     keys_tab d' = keys_tab d @ [\<lparr>k_id = keys_seq d + 1, k_hash = h, k_label = lab, k_created = t, k_used = None, k_revoked = None\<rparr>]"
  by (auto simp: sql_insert_key_def split: if_splits)

lemma Issue_random:
  assumes "Issue lab mx s w = (Inr plain, s', w')"
  obtains raw where "plain = keyPrefix @ RawURLEncode raw" and "length raw = 32" and "fst (rand_read 32 w) = Some raw"
  using assms
  by (auto simp: Issue_def Let_def dest: rand_read_length split: prod.splits option.splits db_out.splits if_splits)

lemma bind_tx_effect:
  assumes "bind_tx k p t s w = (r, s', w')"
  shows "s' = s \<or> (\<exists>now d. s' = s\<lparr>s_db := d\<rparr> \<and>
     (sql_owner p t (s_db s) = None \<and> sql_insert_token p t k now (s_db s) = Some d
      \<or> sql_owner p t (s_db s) = Some k \<and> d = sql_touch_token now p t (s_db s)))"
  using assms
  by (auto simp: bind_tx_def Let_def write_if_def split: prod.splits option.splits db_out.splits if_splits)

lemma bind_tx_ok:
  assumes "bind_tx k p t s w = (Inr ow, s', w')"
  defines "now \<equiv> time_unix (w_clock w (w_cpos w))"
  shows "(sql_owner p t (s_db s) = None \<and> ow = k \<and> sql_insert_token p t k now (s_db s) = Some (s_db s'))
    \<or> (sql_owner p t (s_db s) = Some k \<and> ow = k \<and> s_db s' = sql_touch_token now p t (s_db s))
    \<or> (sql_owner p t (s_db s) = Some ow \<and> ow \<noteq> k \<and> s' = s)"
    and "w_clock w' = w_clock w" and "w_cpos w' = Suc (w_cpos w)"
  using assms
  by (auto simp: bind_tx_def Let_def write_if_def world_defs split: prod.splits option.splits db_out.splits if_splits)

lemma Verify_effect:
  assumes "Verify plain s w = (r, s', w')"
  shows "s' = s \<or> (\<exists>u i. s' = s\<lparr>s_db := sql_stamp_used u i (s_db s)\<rparr>)"
  using assms
  by (auto simp: Verify_def Let_def write_if_def split: prod.splits sum.splits db_out.splits if_splits)

lemma Verify_ok:
  assumes "Verify plain s w = (Inr k, s', w')"
  obtains row where "sql_select_key (hashKey plain) (s_db s) = Some row" and "k_revoked row = None"
    and "ID k = k_id row" and "Label k = k_label row" and "CreatedAt k = k_created row" and "RevokedAt k = None"
  using assms
  by (cases "sql_select_key (hashKey plain) (s_db s)")
    (auto simp: Verify_def Let_def write_if_def split: prod.splits db_out.splits if_splits)

lemma Revoke_effect:
  assumes "Revoke i s w = (r, s', w')"
  shows "s' = s \<or> (\<exists>u. s' = s\<lparr>s_db := snd (sql_revoke u i (s_db s))\<rparr>)"
  using assms
  by (auto simp: Revoke_def write_if_def split: prod.splits db_out.splits if_splits) (metis snd_conv)+

lemma prune_effect:
  assumes "maybePruneStaleTokens ret s w = (s', w')"
  shows "s' = s \<or> (\<exists>t. s' = s\<lparr>s_lastPrune := t\<rparr>) \<or>
     (\<exists>t c. s' = s\<lparr>s_lastPrune := t, s_db := sql_delete_stale c (s_db s)\<rparr>)"
  using assms
  by (auto simp: maybePruneStaleTokens_def Let_def write_if_def split: prod.splits db_out.splits if_splits)

section \<open>The invariant\<close>

definition token_name :: "token_row \<Rightarrow> bytes \<times> bytes" where
  "token_name r = (t_platform r, t_token r)"

definition tables_ok :: "tables \<Rightarrow> bool" where
  "tables_ok d \<longleftrightarrow>
     sorted_wrt (<) (map k_id (keys_tab d)) \<and> (\<forall>r \<in> set (keys_tab d). 1 \<le> k_id r \<and> k_id r \<le> keys_seq d) \<and>
     distinct (map k_hash (keys_tab d)) \<and> 0 \<le> keys_seq d \<and>
     sorted_wrt (<) (map t_id (tokens_tab d)) \<and> (\<forall>r \<in> set (tokens_tab d). t_id r \<le> tokens_seq d) \<and>
     distinct (map token_name (tokens_tab d))"

lemma token_name_upd [simp]: "token_name (r\<lparr>t_seen := n\<rparr>) = token_name r"
  by (simp add: token_name_def)

lemma names_token_name: "names_token p t r \<longleftrightarrow> token_name r = (p, t)"
  by (simp add: names_token_def token_name_def)

lemma map_update_keeps [simp]:
  "map k_id (map (\<lambda>r. if Q r then r\<lparr>k_used := u\<rparr> else r) rs) = map k_id rs"
  "map k_hash (map (\<lambda>r. if Q r then r\<lparr>k_used := u\<rparr> else r) rs) = map k_hash rs"
  "map k_id (map (\<lambda>r. if Q r then r\<lparr>k_revoked := u\<rparr> else r) rs) = map k_id rs"
  "map k_hash (map (\<lambda>r. if Q r then r\<lparr>k_revoked := u\<rparr> else r) rs) = map k_hash rs"
  "map t_id (map (\<lambda>r. if T r then r\<lparr>t_seen := n\<rparr> else r) ts) = map t_id ts"
  "map token_name (map (\<lambda>r. if T r then r\<lparr>t_seen := n\<rparr> else r) ts) = map token_name ts"
  by (simp_all add: token_name_def)

lemma tables_ok_insert_key:
  assumes "tables_ok d" and "sql_insert_key h lab t d = Some d'"
  shows "tables_ok d'"
  using assms
  by (auto simp: tables_ok_def sql_insert_key_def sorted_wrt_append split: if_splits)
    (meson add_increasing2 zero_le_one)?

lemma tables_ok_stamp: "tables_ok d \<Longrightarrow> tables_ok (sql_stamp_used u i d)"
  by (auto simp: tables_ok_def sql_stamp_used_def simp del: map_map)

lemma tables_ok_revoke: "tables_ok d \<Longrightarrow> tables_ok (snd (sql_revoke u i d))"
  by (auto simp: tables_ok_def sql_revoke_def simp del: map_map)

lemma tables_ok_insert_token:
  assumes "tables_ok d" and "sql_insert_token p t k now d = Some d'"
  shows "tables_ok d'"
  using assms
  by (auto simp: tables_ok_def sql_insert_token_def sorted_wrt_append names_token_def token_name_def split: if_splits)
    (meson add_increasing2 zero_le_one)?

lemma tables_ok_touch: "tables_ok d \<Longrightarrow> tables_ok (sql_touch_token now p t d)"
  by (auto simp: tables_ok_def sql_touch_token_def simp del: map_map)

lemma tables_ok_delete: "tables_ok d \<Longrightarrow> tables_ok (sql_delete_stale c d)"
  by (auto simp: tables_ok_def sql_delete_stale_def sorted_wrt_filter_map)

lemmas tables_ok_writes = tables_ok_insert_key tables_ok_stamp tables_ok_revoke
  tables_ok_insert_token tables_ok_touch tables_ok_delete

section \<open>Interleaved operations\<close>

text \<open>
  The atomic steps: an issue and a revocation, the stamp of \<open>Verify\<close>, the transaction of
  \<open>BindToken\<close>, and the two steps of a prune, which marks its time under a lock of its own
  and then deletes. Times and cutoffs are arbitrary: a step stands for that of any handler
  at any time.
\<close>

inductive store_step :: "int \<Rightarrow> Store \<Rightarrow> Store \<Rightarrow> bool" for mx where
  step_issue: "Issue lab mx s w = (r, s', w') \<Longrightarrow> store_step mx s s'"
| step_stamp: "store_step mx s (s\<lparr>s_db := sql_stamp_used u i (s_db s)\<rparr>)"
| step_revoke: "Revoke i s w = (e, s', w') \<Longrightarrow> store_step mx s s'"
| step_bind: "bind_tx k p t s w = (b, s', w') \<Longrightarrow> store_step mx s s'"
| step_mark: "store_step mx s (s\<lparr>s_lastPrune := at_time\<rparr>)"
| step_delete: "store_step mx s (s\<lparr>s_db := sql_delete_stale c (s_db s)\<rparr>)"

inductive_cases store_stepE: "store_step mx s s'"

text \<open>The tables after a step: one of seven writes.\<close>

lemma store_step_tables:
  assumes "store_step mx s s'"
  obtains (same) "s_db s' = s_db s"
  | (insert_key) h lab t where "sql_insert_key h lab t (s_db s) = Some (s_db s')"
      and "0 < mx \<longrightarrow> sql_count_keys (s_db s) < mx"
  | (stamp) u i where "s_db s' = sql_stamp_used u i (s_db s)"
  | (revoke) u i where "s_db s' = snd (sql_revoke u i (s_db s))"
  | (insert_token) p t k now where "sql_owner p t (s_db s) = None"
      and "sql_insert_token p t k now (s_db s) = Some (s_db s')"
  | (touch) p t k now where "sql_owner p t (s_db s) = Some k" and "s_db s' = sql_touch_token now p t (s_db s)"
  | (delete) c where "s_db s' = sql_delete_stale c (s_db s)"
  using assms
proof cases
  case (step_issue lab w r w')
  then show ?thesis using Issue_effect[OF step_issue] same insert_key by auto
next
  case (step_revoke i w e w')
  then show ?thesis using Revoke_effect[OF step_revoke] same revoke by auto
next
  case (step_bind k p t w b w')
  then show ?thesis using bind_tx_effect[OF step_bind] same insert_token touch by auto
qed (use same stamp delete in auto)

lemma tables_ok_step: "store_step mx s s' \<Longrightarrow> tables_ok (s_db s) \<Longrightarrow> tables_ok (s_db s')"
  by (erule store_step_tables) (auto intro: tables_ok_writes)

interpretation store: step_system "\<lambda>s. tables_ok (s_db s)" "store_step mx" for mx .

lemma reach_tables_ok: "store.reach mx s \<Longrightarrow> tables_ok (s_db s)"
  by (rule store.reach_invariant) (auto intro: tables_ok_step)

text \<open>Composite operations are sequences of steps.\<close>

lemma Verify_steps: "Verify plain s w = (r, s', w') \<Longrightarrow> (store_step mx)\<^sup>*\<^sup>* s s'"
  using Verify_effect by (metis r_into_rtranclp rtranclp.rtrancl_refl step_stamp)

lemma prune_steps:
  assumes "maybePruneStaleTokens ret s w = (s', w')"
  shows "(store_step mx)\<^sup>*\<^sup>* s s'"
proof -
  have "store_step mx s (s\<lparr>s_lastPrune := t\<rparr>)" for t by (rule step_mark)
  moreover have "store_step mx (s\<lparr>s_lastPrune := t\<rparr>) (s\<lparr>s_lastPrune := t, s_db := sql_delete_stale c (s_db s)\<rparr>)" for t c
    using step_delete[of mx "s\<lparr>s_lastPrune := t\<rparr>" c] by simp
  ultimately show ?thesis
    using prune_effect[OF assms] by (meson converse_rtranclp_into_rtranclp r_into_rtranclp rtranclp.rtrancl_refl)
qed

lemma BindToken_steps:
  assumes "BindToken k p t ret s w = (r, s', w')"
  shows "(store_step mx)\<^sup>*\<^sup>* s s'"
proof -
  obtain b s1 w1 where b: "bind_tx k p t s w = (b, s1, w1)" by (metis prod_cases3)
  have "(store_step mx)\<^sup>*\<^sup>* s1 s'"
    using assms b prune_steps by (auto simp: BindToken_def split: sum.splits prod.splits)
  then show ?thesis using step_bind[OF b] by (rule converse_rtranclp_into_rtranclp[rotated])
qed

section \<open>Token bindings\<close>

abbreviation owner_of :: "Store \<Rightarrow> bytes \<Rightarrow> bytes \<Rightarrow> int option" where
  "owner_of s p t \<equiv> sql_owner p t (s_db s)"

lemma names_token_upd [simp]: "names_token p t (r\<lparr>t_seen := n\<rparr>) = names_token p t r"
  by (simp add: names_token_def)

lemma owner_keys_writes [simp]:
  "sql_owner p t (sql_stamp_used u i d) = sql_owner p t d"
  "sql_owner p t (snd (sql_revoke u i d)) = sql_owner p t d"
  by (simp_all add: sql_owner_def sql_stamp_used_def sql_revoke_def)

lemma owner_insert_key: "sql_insert_key h lab c d = Some d' \<Longrightarrow> sql_owner p t d' = sql_owner p t d"
  by (auto simp: sql_owner_def sql_insert_key_def split: if_splits)

lemma owner_touch [simp]: "sql_owner p t (sql_touch_token now p' t' d) = sql_owner p t d"
  by (simp add: sql_owner_def sql_touch_token_def find_map_keeps option.map_comp comp_def if_distrib cong: if_cong)

lemma owner_insert_token:
  assumes "sql_insert_token p t k now d = Some d'"
  shows "sql_owner p' t' d' = (if p' = p \<and> t' = t then Some k else sql_owner p' t' d)"
proof -
  have none: "find (names_token p t) (tokens_tab d) = None"
    using assms by (auto simp: sql_insert_token_def find_None_iff split: if_splits)
  have d': "tokens_tab d' = tokens_tab d @ [\<lparr>t_id = tokens_seq d + 1, t_platform = p, t_token = t, t_key = k,
                t_created = now, t_seen = now\<rparr>]"
    using assms by (auto simp: sql_insert_token_def split: if_splits)
  show ?thesis
    using none by (auto simp: sql_owner_def d' find_append names_token_def split: option.split)
qed

lemma owner_delete:
  assumes "tables_ok d"
  shows "sql_owner p t (sql_delete_stale c d) =
     (case find (names_token p t) (tokens_tab d) of
        None \<Rightarrow> None | Some r \<Rightarrow> if t_seen r < c then None else Some (t_key r))"
proof (cases "find (names_token p t) (tokens_tab d)")
  case None
  then have "find (names_token p t) (filter (\<lambda>r. \<not> t_seen r < c) (tokens_tab d)) = None"
    by (auto simp: find_None_iff)
  with None show ?thesis by (simp add: sql_owner_def sql_delete_stale_def)
next
  case (Some r)
  show ?thesis
  proof (cases "t_seen r < c")
    case True
    have "r' = r" if "r' \<in> set (tokens_tab d)" "names_token p t r'" for r'
      using that find_SomeD[OF Some] assms
      by (auto simp: tables_ok_def names_token_name distinct_map inj_on_def)
    then have "find (names_token p t) (filter (\<lambda>r. \<not> t_seen r < c) (tokens_tab d)) = None"
      using True by (auto simp: find_None_iff)
    then show ?thesis using Some True by (simp add: sql_owner_def sql_delete_stale_def)
  next
    case False
    then show ?thesis
      using find_filter_kept[OF Some, of "\<lambda>r. \<not> t_seen r < c"] Some
      by (simp add: sql_owner_def sql_delete_stale_def)
  qed
qed

lemma owner_step:
  assumes "store_step mx s s'" and "tables_ok (s_db s)" and "owner_of s p t = Some k"
  shows "owner_of s' p t = Some k \<or> owner_of s' p t = None"
  using assms(1)
proof (cases rule: store_step_tables)
  case (insert_key h lab c)
  then show ?thesis using assms(3) owner_insert_key by metis
next
  case (insert_token p' t' k' now)
  then show ?thesis using assms(3) owner_insert_token[OF insert_token(2)] by auto
next
  case (delete c)
  then show ?thesis using assms(3) owner_delete[OF assms(2)] by (auto simp: sql_owner_def split: option.splits)
qed (use assms(3) in auto)

lemma bind_tx_owner:
  assumes "bind_tx k p t s w = (Inr ow, s', w')"
  shows "owner_of s' p t = Some ow" and "owner_of s p t \<in> {None, Some ow}"
    and "owner_of s p t = None \<longrightarrow> ow = k"
  using bind_tx_ok(1)[OF assms] owner_insert_token by auto

lemma BindToken_Inr:
  assumes "BindToken k p t ret s w = (Inr ow, s', w')"
  obtains s1 w1 where "bind_tx k p t s w = (Inr ow, s1, w1)" and "maybePruneStaleTokens ret s1 w1 = (s', w')"
  using assms by (auto simp: BindToken_def split: prod.splits sum.splits)

section \<open>Keys\<close>

lemma select_insert_key:
  assumes "sql_insert_key h lab c d = Some d'"
  shows "sql_select_key h' d' = (if h' = h then Some \<lparr>k_id = keys_seq d + 1, k_hash = h, k_label = lab,
     k_created = c, k_used = None, k_revoked = None\<rparr> else sql_select_key h' d)"
proof -
  have none: "find (\<lambda>r. k_hash r = h) (keys_tab d) = None"
    using assms by (force simp: sql_insert_key_def find_None_iff split: if_splits)
  show ?thesis
    using assms none by (auto simp: sql_insert_key_def sql_select_key_def find_append split: if_splits option.split)
qed

lemma select_stamp:
  "sql_select_key h (sql_stamp_used u i d)
   = map_option (\<lambda>r. if k_id r = i then r\<lparr>k_used := Some u\<rparr> else r) (sql_select_key h d)"
  by (simp add: sql_select_key_def sql_stamp_used_def find_map_keeps)

lemma select_revoke:
  "sql_select_key h (snd (sql_revoke u i d))
   = map_option (\<lambda>r. if revocable i r then r\<lparr>k_revoked := Some u\<rparr> else r) (sql_select_key h d)"
  by (simp add: sql_select_key_def sql_revoke_def find_map_keeps)

lemma select_token_writes [simp]:
  "sql_select_key h (sql_touch_token n p t d) = sql_select_key h d"
  "sql_select_key h (sql_delete_stale c d) = sql_select_key h d"
  by (simp_all add: sql_select_key_def sql_touch_token_def sql_delete_stale_def)

lemma select_insert_token: "sql_insert_token p t k n d = Some d' \<Longrightarrow> sql_select_key h d' = sql_select_key h d"
  by (auto simp: sql_select_key_def sql_insert_token_def split: if_splits)

definition key_survives :: "Store \<Rightarrow> Store \<Rightarrow> bool" where
  "key_survives s s' \<longleftrightarrow> (\<forall>h r. sql_select_key h (s_db s) = Some r \<longrightarrow>
     (\<exists>r'. sql_select_key h (s_db s') = Some r' \<and> k_id r' = k_id r \<and> k_label r' = k_label r
        \<and> k_created r' = k_created r \<and> (k_revoked r \<noteq> None \<longrightarrow> k_revoked r' = k_revoked r)))"

lemma key_survives_step:
  assumes "store_step mx s s'"
  shows "key_survives s s'"
  using assms
proof (cases rule: store_step_tables)
  case (insert_key h lab c)
  then show ?thesis
    unfolding key_survives_def using select_insert_key[OF insert_key(1)]
    by (auto simp: sql_insert_key_def sql_select_key_def find_Some_iff split: if_splits) 
next
  case (stamp u i)
  then show ?thesis by (auto simp: key_survives_def select_stamp)
next
  case (revoke u i)
  then show ?thesis by (auto simp: key_survives_def select_revoke revocable_def)
next
  case (insert_token p t k now)
  then show ?thesis using select_insert_token by (auto simp: key_survives_def)
qed (auto simp: key_survives_def)

lemma key_survives_trans:
  assumes "key_survives s t" and "key_survives t u"
  shows "key_survives s u"
  unfolding key_survives_def
proof (intro allI impI)
  fix h r assume "sql_select_key h (s_db s) = Some r"
  with assms(1) obtain r' where "sql_select_key h (s_db t) = Some r'" and "k_id r' = k_id r"
    and "k_label r' = k_label r" and "k_created r' = k_created r" and "k_revoked r \<noteq> None \<longrightarrow> k_revoked r' = k_revoked r"
    unfolding key_survives_def by blast
  moreover from this(1) assms(2) obtain r'' where "sql_select_key h (s_db u) = Some r''" and "k_id r'' = k_id r'"
    and "k_label r'' = k_label r'" and "k_created r'' = k_created r'" and "k_revoked r' \<noteq> None \<longrightarrow> k_revoked r'' = k_revoked r'"
    unfolding key_survives_def by blast
  ultimately show "\<exists>r'. sql_select_key h (s_db u) = Some r' \<and> k_id r' = k_id r \<and> k_label r' = k_label r
      \<and> k_created r' = k_created r \<and> (k_revoked r \<noteq> None \<longrightarrow> k_revoked r' = k_revoked r)"
    by auto
qed

lemma key_survives_refl [simp]: "key_survives s s"
  by (simp add: key_survives_def)

lemma key_survives_steps: "(store_step mx)\<^sup>*\<^sup>* s t \<Longrightarrow> key_survives s t"
  by (induction rule: rtranclp_induct)
    (auto intro: key_survives_trans key_survives_step)

section \<open>The registry of bindings as an interface\<close>

fun binds :: "(int \<Rightarrow> bytes \<Rightarrow> bytes \<Rightarrow> int \<Rightarrow> 's \<Rightarrow> world \<Rightarrow> (keys_error + int) \<times> 's \<times> world)
    \<Rightarrow> int \<Rightarrow> (int \<times> bytes \<times> bytes) list \<Rightarrow> 's \<Rightarrow> world \<Rightarrow> (keys_error + int) list \<times> 's \<times> world" where
  "binds f ret [] s w = ([], s, w)"
| "binds f ret ((k, p, t) # cs) s w =
     (case f k p t ret s w of (r, s1, w1) \<Rightarrow>
        case binds f ret cs s1 w1 of (rs, s2, w2) \<Rightarrow> (r # rs, s2, w2))"

lemma binds_length: "length (fst (binds f ret cs s w)) = length cs"
  by (induction f ret cs s w rule: binds.induct) (auto split: prod.splits)

locale token_registry =
  fixes bind :: "int \<Rightarrow> bytes \<Rightarrow> bytes \<Rightarrow> int \<Rightarrow> 's \<Rightarrow> world \<Rightarrow> (keys_error + int) \<times> 's \<times> world"
    and owner :: "'s \<Rightarrow> bytes \<Rightarrow> bytes \<Rightarrow> int option"
    and good :: "'s \<Rightarrow> bool"
  assumes good_bind: "good s \<Longrightarrow> bind k p t ret s w = (r, s', w') \<Longrightarrow> good s'"
    and bind_answer: "good s \<Longrightarrow> bind k p t ret s w = (Inr ow, s', w') \<Longrightarrow>
       owner s p t = Some ow \<or> owner s p t = None \<and> ow = k"
    and bind_keeps: "good s \<Longrightarrow> ret \<le> 0 \<Longrightarrow> bind k p t ret s w = (r, s', w') \<Longrightarrow>
       owner s p' t' = Some ow \<Longrightarrow> owner s' p' t' = Some ow"
    and bind_claims: "good s \<Longrightarrow> ret \<le> 0 \<Longrightarrow> bind k p t ret s w = (Inr ow, s', w') \<Longrightarrow>
       owner s' p t = Some ow"
begin

lemma owner_persists:
  assumes "good s" and "ret \<le> 0" and "owner s p t = Some ow"
    and "binds bind ret cs s w = (rs, s', w')"
    and "((k, p, t), Inr ow') \<in> set (zip cs rs)"
  shows "ow' = ow"
  using assms
proof (induction cs arbitrary: s w rs)
  case (Cons c cs)
  obtain k1 p1 t1 where c: "c = (k1, p1, t1)" by (metis prod_cases3)
  obtain r s1 w1 where b: "bind k1 p1 t1 ret s w = (r, s1, w1)" by (metis prod_cases3)
  obtain rs' where rs: "rs = r # rs'" "binds bind ret cs s1 w1 = (rs', s', w')"
    using Cons.prems(4) c b by (auto split: prod.splits)
  have good: "good s1" using good_bind[OF Cons.prems(1) b] .
  have own: "owner s1 p t = Some ow" using bind_keeps[OF Cons.prems(1,2) b Cons.prems(3)] .
  show ?case
  proof (cases "((k, p, t), Inr ow') = (c, r)")
    case True
    then show ?thesis using bind_answer[OF Cons.prems(1), of k1 p1 t1 ret w ow' s1 w1] b c Cons.prems(3) by auto
  next
    case False
    then have "((k, p, t), Inr ow') \<in> set (zip cs rs')" using Cons.prems(5) rs(1) by auto
    then show ?thesis using Cons.IH[OF good Cons.prems(2) own rs(2)] by blast
  qed
qed simp

lemma first_owner_wins:
  assumes "good s" and "ret \<le> 0" and "bind k p t ret s w = (Inr ow, s1, w1)"
    and "binds bind ret cs s1 w1 = (rs, s', w')" and "((k', p, t), Inr ow') \<in> set (zip cs rs)"
  shows "ow' = ow"
  using owner_persists[OF good_bind[OF assms(1,3)] assms(2) bind_claims[OF assms(1-3)] assms(4,5)] .

end

lemma prune_disabled [simp]: "ret \<le> 0 \<Longrightarrow> maybePruneStaleTokens ret s w = (s, w)"
  by (simp add: maybePruneStaleTokens_def)

lemma tables_ok_steps: "(store_step mx)\<^sup>*\<^sup>* s t \<Longrightarrow> tables_ok (s_db s) \<Longrightarrow> tables_ok (s_db t)"
  by (induction rule: rtranclp_induct) (auto intro: tables_ok_step)

lemma bind_tx_keeps:
  assumes "bind_tx k p t s w = (r, s', w')" and "owner_of s p' t' = Some ow"
  shows "owner_of s' p' t' = Some ow"
  using bind_tx_effect[OF assms(1)] assms(2) owner_insert_token by auto

lemma BindToken_no_prune:
  assumes "ret \<le> 0"
  shows "BindToken k p t ret s w = bind_tx k p t s w"
  using assms by (simp add: BindToken_def split: prod.split sum.split)

interpretation store_tokens: token_registry BindToken owner_of "\<lambda>s. tables_ok (s_db s)"
proof unfold_locales
  fix s s' :: Store and k ret ow :: int and p t p' t' :: bytes and w w' :: world and r
  assume ok: "tables_ok (s_db s)"
  show "BindToken k p t ret s w = (r, s', w') \<Longrightarrow> tables_ok (s_db s')"
    using ok tables_ok_steps BindToken_steps by blast
  show "BindToken k p t ret s w = (Inr ow, s', w') \<Longrightarrow> owner_of s p t = Some ow \<or> owner_of s p t = None \<and> ow = k"
    using bind_tx_owner(2,3) by (metis BindToken_Inr insertE singletonD)
  show "ret \<le> 0 \<Longrightarrow> BindToken k p t ret s w = (r, s', w') \<Longrightarrow> owner_of s p' t' = Some ow \<Longrightarrow> owner_of s' p' t' = Some ow"
    by (metis BindToken_no_prune bind_tx_keeps)
  show "ret \<le> 0 \<Longrightarrow> BindToken k p t ret s w = (Inr ow, s', w') \<Longrightarrow> owner_of s' p t = Some ow"
    by (metis BindToken_no_prune bind_tx_owner(1))
qed

section \<open>Pruning\<close>

lemma unix_cutoff: "t_wall now \<le> W + ret \<Longrightarrow> time_unix (time_add now (- ret)) \<le> W div second_ns"
  by (simp add: time_unix_def zdiv_mono1)

lemma prune_keeps:
  assumes "tables_ok (s_db s)" and "find (names_token p t) (tokens_tab (s_db s)) = Some r"
    and "t_seen r = W div second_ns"
    and "\<And>i. w_cpos w \<le> i \<Longrightarrow> i < w_cpos w + 3 \<Longrightarrow> t_wall (w_clock w i) \<le> W + ret"
    and "maybePruneStaleTokens ret s w = (s', w')"
  shows "owner_of s' p t = Some (t_key r)"
proof -
  have now: "t_wall (w_clock w (Suc (Suc (w_cpos w)))) \<le> W + ret" by (rule assms(4)) auto
  have own: "owner_of s p t = Some (t_key r)" using assms(2) by (simp add: sql_owner_def)
  let ?c = "time_unix (time_add (w_clock w (Suc (Suc (w_cpos w)))) (- ret))"
  have "s_db s' = s_db s \<or> s_db s' = sql_delete_stale ?c (s_db s)"
    using assms(5)
    by (auto simp: maybePruneStaleTokens_def Let_def write_if_def world_defs split: prod.splits db_out.splits if_splits)
  moreover have "sql_owner p t (sql_delete_stale ?c (s_db s)) = Some (t_key r)"
    using owner_delete[OF assms(1), of p t ?c] assms(2,3) unix_cutoff[OF now] by simp
  ultimately show ?thesis using own by auto
qed

lemma row_insert_token:
  assumes "sql_insert_token p t k now d = Some d'"
  shows "\<exists>r. find (names_token p t) (tokens_tab d') = Some r \<and> t_seen r = now \<and> t_key r = k"
proof -
  have "find (names_token p t) (tokens_tab d) = None"
    using assms by (auto simp: sql_insert_token_def find_None_iff split: if_splits)
  then show ?thesis
    using assms by (auto simp: sql_insert_token_def find_append names_token_def split: if_splits)
qed

lemma row_touch_token:
  "find (names_token p t) (tokens_tab (sql_touch_token now p t d))
   = map_option (\<lambda>r. r\<lparr>t_seen := now\<rparr>) (find (names_token p t) (tokens_tab d))"
  by (cases "find (names_token p t) (tokens_tab d)")
    (auto simp: sql_touch_token_def find_map_keeps dest: find_SomeD)

lemma bind_tx_row:
  assumes "bind_tx k p t s w = (Inr k, s', w')"
  obtains r where "find (names_token p t) (tokens_tab (s_db s')) = Some r" and "t_key r = k"
    and "t_seen r = time_unix (w_clock w (w_cpos w))"
proof -
  let ?now = "time_unix (w_clock w (w_cpos w))"
  consider "sql_insert_token p t k ?now (s_db s) = Some (s_db s')"
    | "owner_of s p t = Some k" "s_db s' = sql_touch_token ?now p t (s_db s)"
    using bind_tx_ok(1)[OF assms] by auto
  then show ?thesis
  proof cases
    case 1
    then show ?thesis using row_insert_token that by blast
  next
    case 2
    then obtain r where "find (names_token p t) (tokens_tab (s_db s)) = Some r" "t_key r = k"
      by (auto simp: sql_owner_def)
    then show ?thesis using that[of "r\<lparr>t_seen := ?now\<rparr>"] 2 by (simp add: row_touch_token)
  qed
qed

lemma BindToken_kept:
  assumes ok: "tables_ok (s_db s)" and b: "BindToken k p t ret s w = (Inr k, s', w')"
    and time: "\<And>i. i \<le> 3 \<Longrightarrow> t_wall (w_clock w (w_cpos w + i)) \<le> t_wall (w_clock w (w_cpos w)) + ret"
  shows "owner_of s' p t = Some k"
proof -
  obtain s1 w1 where tx: "bind_tx k p t s w = (Inr k, s1, w1)" and pr: "maybePruneStaleTokens ret s1 w1 = (s', w')"
    using b by (rule BindToken_Inr)
  obtain r where r: "find (names_token p t) (tokens_tab (s_db s1)) = Some r" "t_key r = k"
      "t_seen r = t_wall (w_clock w (w_cpos w)) div second_ns"
    using tx by (rule bind_tx_row) (simp add: time_unix_def)
  have ok1: "tables_ok (s_db s1)" using tables_ok_step[OF step_bind[OF tx] ok] .
  have "owner_of s' p t = Some (t_key r)"
  proof (rule prune_keeps[OF ok1 r(1,3) _ pr])
    fix i assume "w_cpos w1 \<le> i" "i < w_cpos w1 + 3"
    then show "t_wall (w_clock w1 i) \<le> t_wall (w_clock w (w_cpos w)) + ret"
      using time[of "i - w_cpos w"] bind_tx_ok(2,3)[OF tx] by simp
  qed
  with r show ?thesis by simp
qed

lemma prune_stale_gone:
  assumes "0 < ret" and "pruneInterval \<le> time_sub (w_clock w (w_cpos w)) (s_lastPrune s)"
    and "w_db w (w_dpos w) = DbOk" and "maybePruneStaleTokens ret s w = (s', w')"
  shows "tokens_tab (s_db s') = filter (\<lambda>r. time_unix (time_add (w_clock w (w_cpos w + 2)) (- ret)) \<le> t_seen r)
           (tokens_tab (s_db s))"
  using assms by (auto simp: maybePruneStaleTokens_def Let_def world_defs sql_delete_stale_def not_less)

section \<open>Keys: ceiling, round trip, revocation\<close>

lemma count_writes [simp]:
  "sql_count_keys (sql_stamp_used u i d) = sql_count_keys d"
  "sql_count_keys (snd (sql_revoke u i d)) = sql_count_keys d"
  "sql_count_keys (sql_touch_token n p t d) = sql_count_keys d"
  "sql_count_keys (sql_delete_stale c d) = sql_count_keys d"
  by (simp_all add: sql_count_keys_def sql_stamp_used_def sql_revoke_def sql_touch_token_def sql_delete_stale_def)

lemma count_inserts:
  "sql_insert_key h lab c d = Some d' \<Longrightarrow> sql_count_keys d' = sql_count_keys d + 1"
  "sql_insert_token p t k n d = Some d' \<Longrightarrow> sql_count_keys d' = sql_count_keys d"
  by (auto simp: sql_count_keys_def sql_insert_key_def sql_insert_token_def split: if_splits)

lemma count_step:
  assumes "store_step mx s s'"
  shows "sql_count_keys (s_db s) \<le> sql_count_keys (s_db s')
    \<and> (0 < mx \<longrightarrow> sql_count_keys (s_db s) \<le> mx \<longrightarrow> sql_count_keys (s_db s') \<le> mx)"
  using assms by (cases rule: store_step_tables) (auto dest: count_inserts)

lemma count_steps:
  "(store_step mx)\<^sup>*\<^sup>* s s' \<Longrightarrow> sql_count_keys (s_db s) \<le> sql_count_keys (s_db s')
    \<and> (0 < mx \<longrightarrow> sql_count_keys (s_db s) \<le> mx \<longrightarrow> sql_count_keys (s_db s') \<le> mx)"
  by (induction rule: rtranclp_induct) (auto dest: count_step)

lemma count_ceiling:
  "(store_step mx)\<^sup>*\<^sup>* s s' \<Longrightarrow> 0 < mx \<Longrightarrow> sql_count_keys (s_db s') \<le> max (sql_count_keys (s_db s)) mx"
proof (induction rule: rtranclp_induct)
  case (step y z)
  have "sql_count_keys (s_db z) \<le> max (sql_count_keys (s_db y)) mx"
    using step.hyps(2) step.prems by (cases rule: store_step_tables) (auto dest: count_inserts)
  then show ?case using step.IH[OF step.prems] by simp
qed simp

lemma Issue_Verify:
  assumes "Issue lab mx s w = (Inr plain, s1, w1)" and "w_db w2 (w_dpos w2) = DbOk"
  obtains k s2 w3 where "Verify plain s1 w2 = (Inr k, s2, w3)" and "ID k = keys_seq (s_db s) + 1"
    and "Label k = lab" and "RevokedAt k = None"
proof -
  obtain t where ins: "sql_insert_key (hashKey plain) lab t (s_db s) = Some (s_db s1)"
    using assms(1) by (rule Issue_ok)
  have sel: "sql_select_key (hashKey plain) (s_db s1) = Some \<lparr>k_id = keys_seq (s_db s) + 1, k_hash = hashKey plain,
      k_label = lab, k_created = t, k_used = None, k_revoked = None\<rparr>"
    using select_insert_key[OF ins] by simp
  show ?thesis
    by (cases "w_db w2 (Suc (w_dpos w2))")
      (use that sel assms(2) in \<open>auto simp: Verify_def db_call_def time_now_def Let_def\<close>)
qed

lemma Revoke_ok:
  assumes "Revoke i s w = (None, s', w')" and "sql_select_key h (s_db s) = Some r" and "k_id r = i"
  shows "\<exists>r'. sql_select_key h (s_db s') = Some r' \<and> k_revoked r' \<noteq> None"
proof -
  obtain u where "s_db s' = snd (sql_revoke u i (s_db s))"
    using assms(1) by (auto simp: Revoke_def sql_revoke_def split: prod.splits db_out.splits if_splits)
  then show ?thesis using assms(2,3) by (auto simp: select_revoke revocable_def)
qed

lemma Verify_revoked:
  assumes "sql_select_key (hashKey plain) (s_db s) = Some r" and "k_revoked r \<noteq> None"
  shows "\<exists>e. fst (Verify plain s w) = Inl e"
  using assms by (auto simp: Verify_def Let_def db_call_def split: db_out.split)

lemma revoked_forever:
  assumes "Verify plain s0 w0 = (Inr k, s1, w1)" and "(store_step mx)\<^sup>*\<^sup>* s1 s2"
    and "Revoke (ID k) s2 w2 = (None, s3, w3)" and "(store_step mx)\<^sup>*\<^sup>* s3 s4"
  shows "\<exists>e. fst (Verify plain s4 w4) = Inl e"
proof -
  obtain row where row: "sql_select_key (hashKey plain) (s_db s0) = Some row" "ID k = k_id row"
    using assms(1) by (rule Verify_ok)
  have "key_survives s0 s2"
    using Verify_steps[OF assms(1)] assms(2) key_survives_steps by (metis rtranclp_trans)
  then obtain r2 where r2: "sql_select_key (hashKey plain) (s_db s2) = Some r2" "k_id r2 = ID k"
    using row unfolding key_survives_def by metis
  obtain r3 where r3: "sql_select_key (hashKey plain) (s_db s3) = Some r3" "k_revoked r3 \<noteq> None"
    using Revoke_ok[OF assms(3) r2] by blast
  then obtain r4 where "sql_select_key (hashKey plain) (s_db s4) = Some r4" "k_revoked r4 \<noteq> None"
    using key_survives_steps[OF assms(4)] unfolding key_survives_def by metis
  then show ?thesis by (rule Verify_revoked)
qed

section \<open>What the operations do to the world\<close>

lemma Verify_later: "Verify plain s w = (r, s', w') \<Longrightarrow> later {} w w'"
  by (auto simp: Verify_def Let_def world_defs later_def split: prod.splits sum.splits db_out.splits if_splits)

lemma Issue_later: "Issue lab mx s w = (r, s', w') \<Longrightarrow> later {} w w'"
  by (auto simp: Issue_def Let_def world_defs later_def split: prod.splits option.splits db_out.splits if_splits)

lemma bind_tx_later: "bind_tx k p t s w = (r, s', w') \<Longrightarrow> later {} w w'"
  by (auto simp: bind_tx_def Let_def world_defs later_def split: prod.splits option.splits db_out.splits if_splits)

lemma prune_later: "maybePruneStaleTokens ret s w = (s', w') \<Longrightarrow> later {LogPruneTokens} w w'"
  by (auto simp: maybePruneStaleTokens_def Let_def world_defs later_def split: prod.splits db_out.splits if_splits)

lemma BindToken_later:
  assumes "BindToken k p t ret s w = (r, s', w')"
  shows "later {LogPruneTokens} w w'"
proof -
  obtain b s1 w1 where b: "bind_tx k p t s w = (b, s1, w1)" by (metis prod_cases3)
  have "later {LogPruneTokens} w w1" using bind_tx_later[OF b] by (rule later_mono) simp
  moreover have "later {LogPruneTokens} w1 w'"
    using assms b by (auto simp: BindToken_def split: sum.splits prod.splits dest: prune_later)
  ultimately show ?thesis by (rule later_trans)
qed

section \<open>Opening a store\<close>

lemma Open_clock: "Open f w = (r, f', w') \<Longrightarrow> w_clock w' = w_clock w"
  by (auto simp: Open_def migrate_def Let_def world_defs split: prod.splits db_out.splits bool.splits option.splits)

lemma Open_current:
  assumes "f_tokens f = TokensV2 rs q" and "f_keys f = Some (ks, kq)" and "Open f w = (Some s, f', w')"
  shows "s_db s = \<lparr>keys_tab = ks, keys_seq = kq, tokens_tab = rs, tokens_seq = q\<rparr>"
  using assms
  by (auto simp: Open_def migrate_def sql_create_def sql_add_last_seen_def Let_def
      split: prod.splits db_out.splits bool.splits if_splits)

lemma Open_upgrade:
  assumes "f_tokens f = TokensV1 rs q" and "f_keys f = Some (ks, kq)" and "Open f w = (Some s, f', w')"
  shows "s_db s = \<lparr>keys_tab = ks, keys_seq = kq,
     tokens_tab = map (\<lambda>r. r\<lparr>t_seen := time_unix (w_clock w (w_cpos w + 1))\<rparr>) rs, tokens_seq = q\<rparr>"
  using assms
  by (auto simp: Open_def migrate_def sql_create_def sql_add_last_seen_def sql_backfill_def Let_def comp_def world_defs
      split: prod.splits db_out.splits bool.splits if_splits)

lemma Open_fresh:
  assumes "f_tokens f = NoTokens" and "f_keys f = None" and "Open f w = (Some s, f', w')"
  shows "s_db s = \<lparr>keys_tab = [], keys_seq = 0, tokens_tab = [], tokens_seq = 0\<rparr>"
  using assms
  by (auto simp: Open_def migrate_def sql_create_def sql_add_last_seen_def Let_def
      split: prod.splits db_out.splits bool.splits if_splits)

lemma owner_map_seen:
  "map_option t_key (find (names_token p t) (map (\<lambda>r. r\<lparr>t_seen := n\<rparr>) rs)) = map_option t_key (find (names_token p t) rs)"
  by (simp add: find_map_keeps option.map_comp comp_def)

text \<open>The update that dates the old rows fails once: the next start does not repeat it.\<close>

lemma Open_interrupted:
  assumes "f_tokens f = TokensV1 rs q" and "f_keys f = Some (ks, kq)"
    and "\<And>i. i < 3 \<Longrightarrow> w_db w (w_dpos w + i) = DbOk" and "w_db w (w_dpos w + 3) = DbErr False"
    and "\<And>i. i < 3 \<Longrightarrow> w_db w2 (w_dpos w2 + i) = DbOk"
  shows "\<exists>f1 w1 s w3. Open f w = (None, f1, w1) \<and> Open f1 w2 = (Some s, f1, w3)
     \<and> s_db s = \<lparr>keys_tab = ks, keys_seq = kq, tokens_tab = map (\<lambda>r. r\<lparr>t_seen := 0\<rparr>) rs, tokens_seq = q\<rparr>"
proof -
  have d: "w_db w (w_dpos w) = DbOk" "w_db w (Suc (w_dpos w)) = DbOk" "w_db w (Suc (Suc (w_dpos w))) = DbOk"
    "w_db w (Suc (Suc (Suc (w_dpos w)))) = DbErr False"
    using assms(3)[of 0] assms(3)[of 1] assms(3)[of 2] assms(4) by (simp_all add: eval_nat_numeral)
  have e: "w_db w2 (w_dpos w2) = DbOk" "w_db w2 (Suc (w_dpos w2)) = DbOk" "w_db w2 (Suc (Suc (w_dpos w2))) = DbOk"
    using assms(5)[of 0] assms(5)[of 1] assms(5)[of 2] by (simp_all add: eval_nat_numeral)
  let ?f1 = "\<lparr>f_keys = Some (ks, kq), f_tokens = TokensV2 (map (\<lambda>r. r\<lparr>t_seen := 0\<rparr>) rs) q\<rparr>"
  have "\<exists>w1. Open f w = (None, ?f1, w1)"
    using assms(1,2) d by (simp add: Open_def migrate_def sql_create_def sql_add_last_seen_def Let_def world_defs)
  moreover have "\<exists>s w3. Open ?f1 w2 = (Some s, ?f1, w3) \<and> s_db s =
      \<lparr>keys_tab = ks, keys_seq = kq, tokens_tab = map (\<lambda>r. r\<lparr>t_seen := 0\<rparr>) rs, tokens_seq = q\<rparr>"
    using e by (simp add: Open_def migrate_def sql_create_def sql_add_last_seen_def Let_def world_defs)
  ultimately show ?thesis by blast
qed

section \<open>The abstract registry\<close>

text \<open>The contract of \<open>BindToken\<close>: a map from tokens to owners in which the first key wins.\<close>

type_synonym registry = "bytes \<times> bytes \<Rightarrow> int option"

definition abs_bindings :: "Store \<Rightarrow> registry" where
  "abs_bindings s = (\<lambda>(p, t). owner_of s p t)"

definition spec_bind :: "int \<Rightarrow> bytes \<Rightarrow> bytes \<Rightarrow> registry \<Rightarrow> int \<times> registry" where
  "spec_bind k p t m = (case m (p, t) of None \<Rightarrow> (k, m((p, t) \<mapsto> k)) | Some ow \<Rightarrow> (ow, m))"

lemma abs_insert: "sql_insert_token p t k now (s_db s) = Some (s_db s') \<Longrightarrow>
    abs_bindings s' = (abs_bindings s)((p, t) \<mapsto> k)"
  by (auto simp: abs_bindings_def fun_eq_iff owner_insert_token)

lemma bind_tx_refines:
  assumes "bind_tx k p t s w = (Inr ow, s', w')"
  shows "(ow, abs_bindings s') = spec_bind k p t (abs_bindings s)"
  using bind_tx_ok(1)[OF assms] abs_insert
  by (auto simp: spec_bind_def abs_bindings_def fun_eq_iff split: option.splits)

lemma prune_shrinks:
  assumes "tables_ok (s_db s)" and "maybePruneStaleTokens ret s w = (s', w')"
  shows "abs_bindings s' \<subseteq>\<^sub>m abs_bindings s"
proof -
  have "sql_owner p t (sql_delete_stale c (s_db s)) = Some k \<Longrightarrow> sql_owner p t (s_db s) = Some k" for p t c k
    using owner_delete[OF assms(1), of p t c] by (auto simp: sql_owner_def split: option.splits if_splits)
  then show ?thesis
    using prune_effect[OF assms(2)] by (auto simp: map_le_def abs_bindings_def dom_def)
qed

section \<open>A concrete world and store\<close>

text \<open>A clock that ticks once a second at every reading, a driver that never fails.\<close>

definition quiet_world :: world where
  "quiet_world = \<lparr>w_clock = (\<lambda>i. \<lparr>t_wall = int i * second_ns, t_mono = int i * second_ns\<rparr>), w_cpos = 0,
     w_db = (\<lambda>_. DbOk), w_dpos = 0, w_entropy = (\<lambda>_. Some (\<lambda>_. CHR ''a'')), w_rpos = 0, w_log = []\<rparr>"

lemma clock_mono_quiet: "clock_mono quiet_world"
  by (simp add: clock_mono_def quiet_world_def)

definition empty_tables :: tables where
  "empty_tables = \<lparr>keys_tab = [], keys_seq = 0, tokens_tab = [], tokens_seq = 0\<rparr>"

definition ex_store :: Store where
  "ex_store = \<lparr>s_db = empty_tables, s_lastPrune = w_clock quiet_world 0\<rparr>"

section \<open>Properties\<close>

lemmas store_eval = ex_store_def empty_tables_def quiet_world_def world_defs Let_def
  sql_owner_def sql_insert_token_def sql_touch_token_def names_token_def sql_insert_key_def sql_count_keys_def
  maybePruneStaleTokens_def pruneInterval_def time_sub_def time_unix_def min_int64_def max_int64_def

lemma ex_store_ok: "tables_ok (s_db ex_store)"
  by (simp add: tables_ok_def ex_store_def empty_tables_def)

text \<open>
  C8: \<open>BindToken\<close> implements the abstract registry: it returns the owner the registry names, the
  first key to send to the token, and leaves the registry's new state, from which pruning
  may only remove bindings and removes none when the retention is disabled.
\<close>

theorem bind_refines_spec:
  assumes "BindToken k p t ret s w = (Inr ow, s', w')" and "tables_ok (s_db s)"
  shows "ow = fst (spec_bind k p t (abs_bindings s)) \<and>
     abs_bindings s' \<subseteq>\<^sub>m snd (spec_bind k p t (abs_bindings s)) \<and>
     (ret \<le> 0 \<longrightarrow> abs_bindings s' = snd (spec_bind k p t (abs_bindings s)))"
proof -
  obtain s1 w1 where tx: "bind_tx k p t s w = (Inr ow, s1, w1)" and pr: "maybePruneStaleTokens ret s1 w1 = (s', w')"
    using assms(1) by (rule BindToken_Inr)
  have spec: "spec_bind k p t (abs_bindings s) = (ow, abs_bindings s1)" using bind_tx_refines[OF tx] by simp
  have "tables_ok (s_db s1)" using step_bind[OF tx] assms(2) by (rule tables_ok_step)
  then show ?thesis using prune_shrinks[OF _ pr] spec pr by auto
qed

lemma ex_bind: "BindToken 1 ''ios'' ''tok'' 0 ex_store quiet_world =
    (Inr 1, ex_store\<lparr>s_db := empty_tables\<lparr>tokens_tab := [\<lparr>t_id = 1, t_platform = ''ios'', t_token = ''tok'', t_key = 1,
       t_created = 0, t_seen = 0\<rparr>], tokens_seq := 1\<rparr>\<rparr>,
     quiet_world\<lparr>w_cpos := 1, w_dpos := 4\<rparr>)"
  by (simp add: BindToken_def bind_tx_def store_eval eval_nat_numeral)

theorem bind_refines_spec_witness:
  "fst (spec_bind 1 ''ios'' ''tok'' (abs_bindings ex_store)) = 1 \<and>
   abs_bindings (fst (snd (BindToken 1 ''ios'' ''tok'' 0 ex_store quiet_world)))
     = snd (spec_bind 1 ''ios'' ''tok'' (abs_bindings ex_store))"
  using bind_refines_spec[OF ex_bind ex_store_ok] by (simp add: ex_bind)

text \<open>
  With pruning disabled, once a bind has answered that a key owns a token, every later bind of
  that token that returns an owner, by any key and with any binds of other tokens and any
  driver failures between, answers the same key.
\<close>

lemma first_binding_wins:
  assumes "tables_ok (s_db s)" and "ret \<le> 0" and "BindToken k p t ret s w = (Inr ow, s1, w1)"
    and "binds BindToken ret later_binds s1 w1 = (answers, s', w')"
    and "i < length later_binds" and "later_binds ! i = (k', p, t)" and "answers ! i = Inr ow'"
  shows "ow' = ow"
proof -
  have "length answers = length later_binds" using binds_length[of BindToken ret later_binds s1 w1] assms(4) by simp
  then have "((k', p, t), Inr ow') \<in> set (zip later_binds answers)"
    using assms(5-7) by (metis fst_conv in_set_zip snd_conv)
  from store_tokens.first_owner_wins[OF assms(1-4) this] show ?thesis .
qed

text \<open>
  C25: a bind that answers its own key leaves the token bound to that key, as long as the wall
  clock does not run past the retention window during the call: a token in use is never
  pruned by the send that uses it.
\<close>

theorem active_binding_kept:
  assumes "tables_ok (s_db s)" and "BindToken k p t ret s w = (Inr k, s', w')"
    and "\<And>i. i \<le> 3 \<Longrightarrow> t_wall (w_clock w (w_cpos w + i)) \<le> t_wall (w_clock w (w_cpos w)) + ret"
  shows "owner_of s' p t = Some k"
  using assms by (rule BindToken_kept)

theorem active_binding_kept_witness:
  "owner_of (fst (snd (BindToken 1 ''ios'' ''tok'' (hour_ns * 24) ex_store quiet_world))) ''ios'' ''tok'' = Some 1"
proof -
  obtain s' w' where b: "BindToken 1 ''ios'' ''tok'' (hour_ns * 24) ex_store quiet_world = (Inr 1, s', w')"
    by (simp add: BindToken_def bind_tx_def store_eval eval_nat_numeral)
  have "owner_of s' ''ios'' ''tok'' = Some 1"
    by (rule active_binding_kept[OF ex_store_ok b]) (simp add: quiet_world_def)
  then show ?thesis using b by simp
qed

text \<open>
  C26: a due prune that the driver carries out removes exactly the bindings not touched within the
  retention window, and the keys stay as they are.
\<close>

theorem prune_removes_exactly_stale:
  assumes "0 < ret" and "pruneInterval \<le> time_sub (w_clock w (w_cpos w)) (s_lastPrune s)"
    and "w_db w (w_dpos w) = DbOk" and "maybePruneStaleTokens ret s w = (s', w')"
  shows "tokens_tab (s_db s') = filter (\<lambda>r. time_unix (time_add (w_clock w (w_cpos w + 2)) (- ret)) \<le> t_seen r)
           (tokens_tab (s_db s)) \<and> keys_tab (s_db s') = keys_tab (s_db s)"
  using prune_stale_gone[OF assms] prune_effect[OF assms(4)] by (auto simp: sql_delete_stale_def)

definition due_store :: Store where
  "due_store = \<lparr>s_db = empty_tables\<lparr>tokens_tab := [\<lparr>t_id = 1, t_platform = ''ios'', t_token = ''old'', t_key = 1,
       t_created = 0, t_seen = 0\<rparr>, \<lparr>t_id = 2, t_platform = ''ios'', t_token = ''new'', t_key = 2,
       t_created = 0, t_seen = 7200\<rparr>], tokens_seq := 2\<rparr>, s_lastPrune = \<lparr>t_wall = 0, t_mono = 0\<rparr>\<rparr>"

definition due_world :: world where
  "due_world = quiet_world\<lparr>w_cpos := 7200\<rparr>"

theorem prune_removes_exactly_stale_witness:
  "map t_token (tokens_tab (s_db (fst (maybePruneStaleTokens hour_ns due_store due_world)))) = [''new'']"
proof -
  obtain s' w' where p: "maybePruneStaleTokens hour_ns due_store due_world = (s', w')" by fastforce
  have h: "pruneInterval \<le> time_sub (w_clock due_world (w_cpos due_world)) (s_lastPrune due_store)"
      "w_db due_world (w_dpos due_world) = DbOk"
    by (simp_all add: pruneInterval_def time_sub_def due_world_def due_store_def quiet_world_def min_int64_def max_int64_def)
  have c: "time_unix (time_add (w_clock due_world (w_cpos due_world + 2)) (- hour_ns)) = 3602"
    by (simp add: time_unix_def due_world_def quiet_world_def)
  have "tokens_tab (s_db s') = filter (\<lambda>r. 3602 \<le> t_seen r) (tokens_tab (s_db due_store))"
    using prune_removes_exactly_stale[OF _ h p] c by simp
  then show ?thesis using p by (simp add: due_store_def)
qed

text \<open>
  An issued key is the prefix and the 43 characters of 32 random bytes; two keys are equal only
  if the random bytes were, whatever labels, stores and clocks they were issued with.
\<close>

lemma issued_key_shape:
  assumes "Issue lab mx s w = (Inr key, s1, w1)" and "Issue lab' mx' s' w' = (Inr key', s2, w2)"
  shows "length key = 47 \<and> take 4 key = keyPrefix \<and>
     (key = key' \<longrightarrow> fst (rand_read 32 w) = fst (rand_read 32 w'))"
proof -
  obtain raw where raw: "key = keyPrefix @ RawURLEncode raw" "length raw = 32" "fst (rand_read 32 w) = Some raw"
    using assms(1) by (rule Issue_random)
  obtain raw' where raw': "key' = keyPrefix @ RawURLEncode raw'" "fst (rand_read 32 w') = Some raw'"
    using assms(2) by (rule Issue_random)
  have "key = key' \<Longrightarrow> raw = raw'" using raw(1) raw'(1) RawURLEncode_inj by simp
  then show ?thesis using raw raw' by (auto simp: length_RawURLEncode keyPrefix_def)
qed

lemma ex_issue: "\<exists>key s' w'. Issue ''lab'' 5 ex_store quiet_world = (Inr key, s', w')"
  by (simp add: Issue_def store_eval)

text \<open>
  C35: opening a store of the first version, without the column of last use, keeps every key and
  every binding and dates each binding with the time of the upgrade.
\<close>

theorem upgrade_keeps_bindings:
  assumes "f_tokens f = TokensV1 rows q" and "f_keys f = Some (ks, kq)" and "Open f w = (Some s, f', w')"
  shows "keys_tab (s_db s) = ks \<and> (\<forall>p t. owner_of s p t = map_option t_key (find (names_token p t) rows)) \<and>
     map t_seen (tokens_tab (s_db s)) = map (\<lambda>_. time_unix (w_clock w (w_cpos w + 1))) rows"
  using Open_upgrade[OF assms] by (simp add: sql_owner_def owner_map_seen comp_def)

definition old_file :: dbfile where
  "old_file = \<lparr>f_keys = Some ([], 0), f_tokens = TokensV1 [\<lparr>t_id = 1, t_platform = ''ios'', t_token = ''tok'', t_key = 7,
     t_created = 5, t_seen = 0\<rparr>] 1\<rparr>"

lemmas open_eval = Open_def migrate_def sql_create_def sql_add_last_seen_def sql_backfill_def old_file_def

theorem upgrade_keeps_bindings_witness:
  "\<exists>s. fst (Open old_file quiet_world) = Some s \<and> owner_of s ''ios'' ''tok'' = Some 7"
proof -
  obtain s f' w' where o: "Open old_file quiet_world = (Some s, f', w')"
    by (simp add: open_eval quiet_world_def world_defs Let_def)
  have "owner_of s ''ios'' ''tok'' = Some 7"
    using upgrade_keeps_bindings[OF _ _ o] by (simp add: old_file_def names_token_def)
  then show ?thesis using o by simp
qed

text \<open>
  C36: when the statement that dates the old bindings fails once, the next start finds the column
  present and skips it: the store opens with every binding dated at zero, and the first due
  prune of the second start removes them all, however recently they were used.
\<close>

theorem interrupted_upgrade_forgets:
  assumes "f_tokens f = TokensV1 rows q" and "f_keys f = Some (ks, kq)"
    and "\<And>i. i < 3 \<Longrightarrow> w_db w (w_dpos w + i) = DbOk" and "w_db w (w_dpos w + 3) = DbErr False"
    and "\<And>i. i < 3 \<Longrightarrow> w_db w2 (w_dpos w2 + i) = DbOk"
  shows "\<exists>s. fst (Open (fst (snd (Open f w))) w2) = Some s \<and> length (tokens_tab (s_db s)) = length rows \<and>
     (\<forall>ret w3 s' w'. 0 < ret \<longrightarrow> pruneInterval \<le> time_sub (w_clock w3 (w_cpos w3)) (s_lastPrune s) \<longrightarrow>
        w_db w3 (w_dpos w3) = DbOk \<longrightarrow> 0 < time_unix (time_add (w_clock w3 (w_cpos w3 + 2)) (- ret)) \<longrightarrow>
        maybePruneStaleTokens ret s w3 = (s', w') \<longrightarrow> tokens_tab (s_db s') = [])"
proof -
  obtain f1 w1 s w4 where o: "Open f w = (None, f1, w1)" "Open f1 w2 = (Some s, f1, w4)"
      and s: "tokens_tab (s_db s) = map (\<lambda>r. r\<lparr>t_seen := 0\<rparr>) rows"
    using Open_interrupted[OF assms] by auto
  show ?thesis using o s prune_stale_gone by (intro exI[of _ s]) (auto simp: filter_empty_conv)
qed

definition failing_world :: world where
  "failing_world = quiet_world\<lparr>w_db := (\<lambda>i. if i = 3 then DbErr False else DbOk)\<rparr>"

theorem interrupted_upgrade_forgets_witness:
  "\<exists>s. fst (Open (fst (snd (Open old_file failing_world))) quiet_world) = Some s \<and>
     length (tokens_tab (s_db s)) = 1 \<and> tokens_tab (s_db (fst (maybePruneStaleTokens hour_ns s due_world))) = []"
proof -
  have "\<exists>s. fst (Open (fst (snd (Open old_file failing_world))) quiet_world) = Some s \<and> s_lastPrune s = w_clock quiet_world 0"
    by (simp add: open_eval failing_world_def quiet_world_def world_defs Let_def)
  moreover obtain s where s: "fst (Open (fst (snd (Open old_file failing_world))) quiet_world) = Some s"
      "length (tokens_tab (s_db s)) = 1"
      "\<forall>ret w3 s' w'. 0 < ret \<longrightarrow> pruneInterval \<le> time_sub (w_clock w3 (w_cpos w3)) (s_lastPrune s) \<longrightarrow>
        w_db w3 (w_dpos w3) = DbOk \<longrightarrow> 0 < time_unix (time_add (w_clock w3 (w_cpos w3 + 2)) (- ret)) \<longrightarrow>
        maybePruneStaleTokens ret s w3 = (s', w') \<longrightarrow> tokens_tab (s_db s') = []"
    using interrupted_upgrade_forgets[of old_file _ _ _ _ failing_world quiet_world]
    by (fastforce simp: old_file_def failing_world_def quiet_world_def)
  ultimately have last: "s_lastPrune s = w_clock quiet_world 0" by simp
  obtain s' w' where p: "maybePruneStaleTokens hour_ns s due_world = (s', w')" by fastforce
  have "tokens_tab (s_db s') = []"
    by (rule s(3)[rule_format, OF _ _ _ _ p])
      (simp_all add: last pruneInterval_def time_sub_def time_unix_def due_world_def quiet_world_def min_int64_def max_int64_def)
  then show ?thesis using s p by auto
qed

end
