(* ===== verification/Go_Float.thy ===== *)
theory Go_Float
  imports Relay_Prelude "HOL-Library.Log_Nat"
begin

text \<open>
  \<open>float64\<close> arithmetic as the limiter uses it: a value is a rational, \<open>fl\<close> rounds to the
  nearest number of 53 significant bits, ties to even, and each operation rounds its exact
  result once, as on amd64, where Go fuses no multiplication with an addition. The exponent
  is unbounded: the limiter's values stay far from overflow and underflow. \<open>fl\<close> computes;
  the lemmas bound its error, show it monotone and exact on the integers below \<open>2 ^ 53\<close>.
\<close>

definition pow2 :: "int \<Rightarrow> rat" where
  "pow2 k = (if 0 \<le> k then 2 ^ nat k else 1 / 2 ^ nat (- k))"

definition binexp :: "rat \<Rightarrow> int" where
  "binexp x = (case quotient_of x of (p, q) \<Rightarrow>
     let e = bitlen p - bitlen q in if x < pow2 e then e - 1 else e)"

definition rne :: "rat \<Rightarrow> int" where
  "rne x = (let f = \<lfloor>x\<rfloor>; d = x - of_int f in
     if d < 1 / 2 then f else if 1 / 2 < d then f + 1 else if even f then f else f + 1)"

definition fl :: "rat \<Rightarrow> rat" where
  "fl x = (if x = 0 then 0
           else let u = pow2 (binexp \<bar>x\<bar> - 52) in of_int (rne (x / u)) * u)"

definition fl_eps :: rat where "fl_eps = 1 / 2 ^ 53"

lemma pow2_pos [simp]: "0 < pow2 k"
  by (simp add: pow2_def)

lemma pow2_nonzero [simp]: "pow2 k \<noteq> 0"
  using pow2_pos[of k] by linarith

lemma pow2_powi: "pow2 k = 2 powi k"
  by (simp add: pow2_def power_int_def inverse_eq_divide power_one_over)

lemma pow2_add: "pow2 (j + k) = pow2 j * pow2 k"
  by (simp add: pow2_powi power_int_add)

lemma pow2_mono: "j \<le> k \<Longrightarrow> pow2 j \<le> pow2 k"
  by (simp add: pow2_powi power_int_increasing)

lemma pow2_less_iff: "pow2 j < pow2 k \<longleftrightarrow> j < k"
  by (metis linorder_not_less pow2_mono order_less_le pow2_powi power_int_strict_increasing one_less_numeral_iff semiring_norm(76))

lemma pow2_succ: "pow2 (k + 1) = 2 * pow2 k"
  by (simp add: pow2_powi power_int_add)

lemma pow2_nat: "pow2 (int n) = 2 ^ n"
  by (simp add: pow2_def)

lemma bitlen_pow2: assumes "0 < p" shows "pow2 (bitlen p - 1) \<le> of_int p" "of_int p < pow2 (bitlen p)"
proof -
  have b: "2 ^ nat (bitlen p - 1) \<le> p \<and> p < 2 ^ nat (bitlen p)" using bitlen_bounds[OF assms] .
  have pos: "0 < bitlen p"
    using assms bitlen_nonneg[of p] bitlen_eq_zero_iff[of p] by linarith
  have "(of_int (2 ^ nat (bitlen p - 1)) :: rat) \<le> of_int p" using b by (simp only: of_int_le_iff)
  then show "pow2 (bitlen p - 1) \<le> of_int p" using pos by (simp add: pow2_def)
  have "(of_int p :: rat) < of_int (2 ^ nat (bitlen p))" using b by (simp only: of_int_less_iff)
  then show "of_int p < pow2 (bitlen p)" using pos by (simp add: pow2_def)
qed

lemma binexp_bounds:
  assumes "0 < x"
  shows "pow2 (binexp x) \<le> x" and "x < pow2 (binexp x + 1)"
proof -
  obtain p q where pq: "quotient_of x = (p, q)" by fastforce
  have q: "0 < q" using pq quotient_of_denom_pos by blast
  have x: "x = of_int p / of_int q" using pq by (rule quotient_of_div)
  have p: "0 < p" using assms x q by (simp add: zero_less_divide_iff)
  let ?e = "bitlen p - bitlen q"
  have lo: "pow2 (?e - 1) * of_int q \<le> of_int p"
  proof -
    have "pow2 (?e - 1) * of_int q \<le> pow2 (?e - 1) * pow2 (bitlen q)"
      using bitlen_pow2(2)[OF q] by (intro mult_left_mono) (auto simp: less_imp_le)
    also have "\<dots> = pow2 (bitlen p - 1)" by (simp add: pow2_add[symmetric])
    finally show ?thesis using bitlen_pow2(1)[OF p] by linarith
  qed
  have hi: "of_int p < pow2 (?e + 1) * of_int q"
  proof -
    have "pow2 (?e + 1) * pow2 (bitlen q - 1) \<le> pow2 (?e + 1) * of_int q"
      using bitlen_pow2(1)[OF q] by (intro mult_left_mono) (auto simp: less_imp_le)
    moreover have "pow2 (?e + 1) * pow2 (bitlen q - 1) = pow2 (bitlen p)" by (simp add: pow2_add[symmetric])
    ultimately show ?thesis using bitlen_pow2(2)[OF p] by linarith
  qed
  have b: "binexp x = (if x < pow2 ?e then ?e - 1 else ?e)"
    by (simp add: binexp_def pq Let_def)
  have lo': "pow2 (?e - 1) \<le> x" using lo q by (simp add: x pos_le_divide_eq)
  have hi': "x < pow2 (?e + 1)" using hi q by (simp add: x pos_divide_less_eq)
  show "pow2 (binexp x) \<le> x" using b lo' by auto
  show "x < pow2 (binexp x + 1)" using b hi' by auto
qed

lemma binexp_unique: "0 < x \<Longrightarrow> pow2 e \<le> x \<Longrightarrow> x < pow2 (e + 1) \<Longrightarrow> binexp x = e"
  using binexp_bounds[of x] pow2_less_iff[of e "binexp x + 1"] pow2_less_iff[of "binexp x" "e + 1"]
  by linarith

lemma binexp_mono: "0 < x \<Longrightarrow> x \<le> y \<Longrightarrow> binexp x \<le> binexp y"
  using binexp_bounds[of x] binexp_bounds[of y] pow2_less_iff[of "binexp x" "binexp y + 1"] by linarith

lemma rne_mono: "x \<le> y \<Longrightarrow> rne x \<le> rne y"
proof -
  assume xy: "x \<le> y"
  then have f: "\<lfloor>x\<rfloor> \<le> \<lfloor>y\<rfloor>" by (rule floor_mono)
  show "rne x \<le> rne y"
  proof (cases "\<lfloor>x\<rfloor> = \<lfloor>y\<rfloor>")
    case True then show ?thesis using xy by (auto simp: rne_def Let_def)
  next
    case False then show ?thesis using f by (auto simp: rne_def Let_def)
  qed
qed

lemma rne_of_int [simp]: "rne (of_int n) = n"
  by (simp add: rne_def)

lemma rne_error: "\<bar>of_int (rne x) - x\<bar> \<le> 1 / 2"
proof -
  have "of_int \<lfloor>x\<rfloor> \<le> x" "x < of_int \<lfloor>x\<rfloor> + 1" by linarith+
  then show ?thesis by (auto simp: rne_def Let_def abs_le_iff)
qed

lemma fl_zero [simp]: "fl 0 = 0" by (simp add: fl_def)

lemma fl_error: "\<bar>fl x - x\<bar> \<le> fl_eps * \<bar>x\<bar>"
proof (cases "x = 0")
  case False
  let ?u = "pow2 (binexp \<bar>x\<bar> - 52)"
  have "fl x - x = (of_int (rne (x / ?u)) - x / ?u) * ?u"
    using False by (simp add: fl_def Let_def left_diff_distrib)
  then have "\<bar>fl x - x\<bar> = \<bar>of_int (rne (x / ?u)) - x / ?u\<bar> * ?u"
    by (simp add: abs_mult less_imp_le)
  also have "\<dots> \<le> 1 / 2 * ?u"
    by (intro mult_right_mono rne_error) (simp add: less_imp_le)
  also have "\<dots> = fl_eps * pow2 (binexp \<bar>x\<bar>)"
    using pow2_add[of "binexp \<bar>x\<bar> - 52" 52] pow2_nat[of 52] by (simp add: fl_eps_def)
  also have "\<dots> \<le> fl_eps * \<bar>x\<bar>"
    using binexp_bounds(1)[of "\<bar>x\<bar>"] False by (intro mult_left_mono) (auto simp: fl_eps_def)
  finally show ?thesis .
qed simp

lemma fl_exact:
  assumes m: "\<bar>m\<bar> < 2 ^ 53"
  shows "fl (of_int m * pow2 k) = of_int m * pow2 k"
proof (cases "m = 0")
  case False
  let ?x = "of_int m * pow2 k" 
  have a: "\<bar>?x\<bar> = of_int \<bar>m\<bar> * pow2 k" by (simp add: abs_mult less_imp_le)
  have pos: "0 < \<bar>?x\<bar>" using False by simp
  have "(of_int \<bar>m\<bar> :: rat) < of_int (2 ^ 53)" using m by (simp only: of_int_less_iff)
  then have "\<bar>?x\<bar> < pow2 53 * pow2 k" unfolding a
    by (intro mult_strict_right_mono) (simp_all add: pow2_def)
  then have "pow2 (binexp \<bar>?x\<bar>) < pow2 (53 + k)"
    using binexp_bounds(1)[OF pos] by (simp add: pow2_add)
  then have e: "binexp \<bar>?x\<bar> - 52 \<le> k" by (simp add: pow2_less_iff)
  define b where "b = binexp \<bar>?x\<bar> - 52"
  define d where "d = nat (k - b)"
  have k: "pow2 k = 2 ^ d * pow2 b"
    using e pow2_add[of "int d" b] by (simp add: d_def b_def pow2_nat[symmetric])
  then have "?x / pow2 b = of_int (m * 2 ^ d)" by simp
  then have "rne (?x / pow2 b) = m * 2 ^ d" by (simp only: rne_of_int)
  then have "fl ?x = of_int (m * 2 ^ d) * pow2 b"
    using False by (simp add: fl_def Let_def b_def)
  then show ?thesis by (simp add: k)
qed simp

lemma fl_of_int [simp]: "\<bar>n\<bar> < 2 ^ 53 \<Longrightarrow> fl (of_int n) = of_int n"
  using fl_exact[of n 0] by (simp add: pow2_def)

lemma fl_one [simp]: "fl 1 = 1"
  using fl_of_int[of 1] by simp

lemma fl_pos_bounds:
  assumes "0 < x"
  shows "pow2 (binexp x) \<le> fl x" and "fl x \<le> pow2 (binexp x + 1)"
proof -
  let ?b = "binexp x"
  have c: "fl x = of_int (rne (x / pow2 (?b - 52))) * pow2 (?b - 52)"
    using assms by (simp add: fl_def Let_def)
  have lo: "of_int (2 ^ 52) \<le> x / pow2 (?b - 52)"
    using binexp_bounds(1)[OF assms] pow2_add[of "?b - 52" 52]
    by (simp add: pos_le_divide_eq pow2_def[of 52] mult.commute)
  have hi: "x / pow2 (?b - 52) \<le> of_int (2 ^ 53)"
    using binexp_bounds(2)[OF assms] pow2_add[of "?b - 52" 53]
    by (simp add: pos_divide_le_eq pow2_def[of 53] mult.commute add.commute)
  have "2 ^ 52 \<le> rne (x / pow2 (?b - 52))" using rne_mono[OF lo] by (simp only: rne_of_int)
  then have "(of_int (2 ^ 52) :: rat) \<le> of_int (rne (x / pow2 (?b - 52)))" by (simp only: of_int_le_iff)
  then have "of_int (2 ^ 52) * pow2 (?b - 52) \<le> fl x"
    unfolding c by (intro mult_right_mono) (auto simp: less_imp_le)
  then show "pow2 ?b \<le> fl x" using pow2_add[of 52 "?b - 52"] by (simp add: pow2_def[of 52])
  have "rne (x / pow2 (?b - 52)) \<le> 2 ^ 53" using rne_mono[OF hi] by (simp only: rne_of_int)
  then have "(of_int (rne (x / pow2 (?b - 52))) :: rat) \<le> of_int (2 ^ 53)" by (simp only: of_int_le_iff)
  then have "fl x \<le> of_int (2 ^ 53) * pow2 (?b - 52)"
    unfolding c by (intro mult_right_mono) (auto simp: less_imp_le)
  then show "fl x \<le> pow2 (?b + 1)" using pow2_add[of 53 "?b - 52"] by (simp add: pow2_def[of 53] add.commute)
qed

lemma fl_nonneg: "0 \<le> x \<Longrightarrow> 0 \<le> fl x"
  using fl_pos_bounds(1)[of x] pow2_pos[of "binexp x"] by (cases "x = 0") (simp, linarith)

lemma rne_minus: "rne (- x) = - rne x"
proof (cases "x = of_int \<lfloor>x\<rfloor>")
  case True
  then show ?thesis by (metis of_int_minus rne_of_int)
next
  case False
  then have "\<lfloor>- x\<rfloor> = - \<lfloor>x\<rfloor> - 1"
    by (smt (verit) floor_minus ceiling_def floor_correct of_int_floor_le ceiling_altdef)
  then show ?thesis by (auto simp: rne_def Let_def)
qed

lemma fl_uminus: "fl (- x) = - fl x"
  by (simp add: fl_def Let_def rne_minus)

lemma fl_mono_pos:
  assumes "0 < x" and "x \<le> y"
  shows "fl x \<le> fl y"
proof (cases "binexp x = binexp y")
  case True
  then have "x / pow2 (binexp y - 52) \<le> y / pow2 (binexp y - 52)"
    using assms by (intro divide_right_mono) (auto simp: less_imp_le)
  then have "(of_int (rne (x / pow2 (binexp y - 52))) :: rat) \<le> of_int (rne (y / pow2 (binexp y - 52)))"
    by (simp add: rne_mono)
  then show ?thesis
    using assms True by (simp add: fl_def Let_def mult_right_mono less_imp_le)
next
  case False
  then have "pow2 (binexp x + 1) \<le> pow2 (binexp y)"
    using binexp_mono[OF assms] by (intro pow2_mono) linarith
  then show ?thesis
    using fl_pos_bounds(2)[of x] fl_pos_bounds(1)[of y] assms by linarith
qed

lemma fl_mono: "x \<le> y \<Longrightarrow> fl x \<le> fl y"
proof -
  assume xy: "x \<le> y"
  consider "0 < x" | "y < 0" | "x \<le> 0" "0 \<le> y" by linarith
  then show ?thesis
  proof cases
    case 1
    then show ?thesis using xy by (rule fl_mono_pos)
  next
    case 2
    then have "fl (- y) \<le> fl (- x)" using xy by (intro fl_mono_pos) auto
    then show ?thesis by (simp add: fl_uminus)
  next
    case 3
    then show ?thesis using fl_nonneg[of y] fl_nonneg[of "- x"] by (simp add: fl_uminus)
  qed
qed


lemma fl_numeral [simp]: "numeral n < (2 ^ 53 :: int) \<Longrightarrow> fl (numeral n) = numeral n"
  using fl_of_int[of "numeral n"] by simp

lemma fl_upper: "0 \<le> x \<Longrightarrow> fl x \<le> x * (1 + fl_eps)"
  using fl_error[of x] by (simp add: abs_le_iff algebra_simps)

lemma fl_lower: "0 \<le> x \<Longrightarrow> x * (1 - fl_eps) \<le> fl x"
  using fl_error[of x] by (simp add: abs_le_iff algebra_simps)

definition fadd :: "rat \<Rightarrow> rat \<Rightarrow> rat" where "fadd x y = fl (x + y)"
definition fsub :: "rat \<Rightarrow> rat \<Rightarrow> rat" where "fsub x y = fl (x - y)"
definition fmul :: "rat \<Rightarrow> rat \<Rightarrow> rat" where "fmul x y = fl (x * y)"
definition fdiv :: "rat \<Rightarrow> rat \<Rightarrow> rat" where "fdiv x y = fl (x / y)"

definition fl_slack :: rat where "fl_slack = 1 / 2 ^ 50"

definition duration_seconds :: "int \<Rightarrow> rat" where
  "duration_seconds d = fadd (fl (of_int (d sdiv second_ns))) (fdiv (fl (of_int (d smod second_ns))) 1000000000)"

lemma fl_upper_le:
  assumes "0 \<le> x" and "x \<le> y"
  shows "fl x \<le> y * (1 + fl_eps)"
  using fl_upper[OF assms(1)] mult_right_mono[OF assms(2), of "1 + fl_eps"]
  by (simp add: fl_eps_def)

lemma fl_eps_powers: "(1 + fl_eps) ^ 5 \<le> 1 + fl_slack" "2 * fl_eps \<le> fl_slack" "0 < fl_eps" "0 < fl_slack"
  by (simp_all add: fl_eps_def fl_slack_def power_eq_if)

lemma duration_seconds_bounds:
  assumes "0 \<le> d"
  shows "0 \<le> duration_seconds d"
    and "duration_seconds d \<le> of_int d / 1000000000 * (1 + fl_eps) ^ 3"
proof -
  define s n where "s = d div 1000000000" and "n = d mod 1000000000"
  have d: "d = s * 1000000000 + n" "0 \<le> s" "0 \<le> n"
    using assms by (simp_all add: s_def n_def)
  have e: "d sdiv second_ns = s" "d smod second_ns = n"
    using assms by (auto simp: s_def n_def signed_divide_int_def signed_modulo_int_def sgn_if)
  have fs: "0 \<le> fl (of_int s)" "0 \<le> fl (of_int n)"
    using d by (simp_all add: fl_nonneg)
  have u: "fl (of_int s) \<le> of_int s * (1 + fl_eps)" "fl (of_int n) \<le> of_int n * (1 + fl_eps)"
    using d by (simp_all add: fl_upper)
  show "0 \<le> duration_seconds d"
    unfolding duration_seconds_def e fadd_def fdiv_def using d(2,3) by (simp add: fl_nonneg)
  have q: "fdiv (fl (of_int n)) 1000000000 \<le> of_int n / 1000000000 * (1 + fl_eps) ^ 2"
  proof -
    have "fl (fl (of_int n) / 1000000000) \<le> (of_int n * (1 + fl_eps) / 1000000000) * (1 + fl_eps)"
      using fs u by (intro fl_upper_le) (auto simp: divide_right_mono)
    then show ?thesis by (simp add: fdiv_def power2_eq_square)
  qed
  have s2: "fl (of_int s) \<le> of_int s * (1 + fl_eps) ^ 2"
  proof -
    have "of_int s * (1 + fl_eps) * 1 \<le> of_int s * (1 + fl_eps) * (1 + fl_eps)"
      using d fl_eps_powers(3) by (intro mult_left_mono) auto
    then show ?thesis using u(1) by (simp add: power2_eq_square)
  qed
  have "duration_seconds d \<le> (of_int s * (1 + fl_eps) ^ 2 + of_int n / 1000000000 * (1 + fl_eps) ^ 2) * (1 + fl_eps)"
    unfolding duration_seconds_def e fadd_def
    using fs q s2 by (intro fl_upper_le add_nonneg_nonneg) (auto simp: fdiv_def fl_nonneg)
  also have "\<dots> = of_int d / 1000000000 * (1 + fl_eps) ^ 3"
    unfolding d(1) by (simp add: power2_eq_square power3_eq_cube field_simps)
  finally show "duration_seconds d \<le> of_int d / 1000000000 * (1 + fl_eps) ^ 3" .
qed

end
