(* ===== verification/Rate_Limit.thy ===== *)
theory Rate_Limit
  imports Relay_Prelude Go_Float
begin

text \<open>
  \<open>internal/ratelimit\<close>: the token bucket. The map of buckets is a function to an option; the
  reading of \<open>time.Now()\<close> each call makes under the lock is an argument. \<open>Allow\<close> is
  \<open>sweep\<close>, the gated \<open>evictIdle\<close>, and then the bucket's refill and charge.

  The lemmas: every bucket stays between zero and the burst (\<open>lim_ok\<close>); the calls admitted
  over a stretch of time are bounded by burst and rate (\<open>lim_run_bound\<close>, by the credit a
  bucket holds or could refill to); a key gets what it is entitled to whatever other keys do
  (locale \<open>budget\<close>, the interface the handlers rely on, interpreted by \<open>lim\<close>); and an idle
  bucket is dropped with whatever debt it had (\<open>idle_rounds_admitted\<close>).
\<close>

record bucket =
  b_tokens :: rat
  b_last :: gotime

record Limiter =
  l_buckets :: "bytes \<Rightarrow> bucket option"
  l_rate :: rat
  l_burst :: rat
  l_lastEvict :: gotime

definition evictInterval :: int where
  "evictInterval = 5 * minute_ns"

definition New_Limiter :: "rat \<Rightarrow> int \<Rightarrow> gotime \<Rightarrow> Limiter" where
  "New_Limiter perMinute burst now =
     \<lparr>l_buckets = (\<lambda>_. None), l_rate = fdiv perMinute 60, l_burst = fl (of_int burst),
      l_lastEvict = now\<rparr>"

definition evictIdle :: "gotime \<Rightarrow> Limiter \<Rightarrow> Limiter" where
  "evictIdle now l =
     (let cutoff = time_add now (- (10 * minute_ns)) in
      l\<lparr>l_buckets := (\<lambda>k. case l_buckets l k of
           None \<Rightarrow> None
         | Some b \<Rightarrow> if time_before (b_last b) cutoff then None else Some b)\<rparr>)"

definition sweep :: "gotime \<Rightarrow> Limiter \<Rightarrow> Limiter" where
  "sweep now l = (if evictInterval < time_sub now (l_lastEvict l)
     then (evictIdle now l)\<lparr>l_lastEvict := now\<rparr> else l)"

definition refill :: "gotime \<Rightarrow> Limiter \<Rightarrow> bucket \<Rightarrow> rat" where
  "refill now l b =
     (let t = fadd (b_tokens b) (fmul (duration_seconds (time_sub now (b_last b))) (l_rate l))
      in if l_burst l < t then l_burst l else t)"

definition Allow :: "bytes \<Rightarrow> gotime \<Rightarrow> Limiter \<Rightarrow> bool \<times> Limiter" where
  "Allow key now l0 =
     (let l = sweep now l0
      in case l_buckets l key of
           None \<Rightarrow>
             (True, l\<lparr>l_buckets := (l_buckets l)(key \<mapsto>
                \<lparr>b_tokens = fsub (l_burst l) 1, b_last = now\<rparr>)\<rparr>)
         | Some b \<Rightarrow>
             (let t = refill now l b in
              if 1 \<le> t
              then (True, l\<lparr>l_buckets := (l_buckets l)(key \<mapsto> \<lparr>b_tokens = fsub t 1, b_last = now\<rparr>)\<rparr>)
              else (False, l\<lparr>l_buckets := (l_buckets l)(key \<mapsto> \<lparr>b_tokens = t, b_last = now\<rparr>)\<rparr>)))"

definition Return :: "bytes \<Rightarrow> Limiter \<Rightarrow> Limiter" where
  "Return key l =
     (case l_buckets l key of
        None \<Rightarrow> l
      | Some b \<Rightarrow>
          (let t = fadd (b_tokens b) 1; t' = (if l_burst l < t then l_burst l else t)
           in l\<lparr>l_buckets := (l_buckets l)(key \<mapsto> b\<lparr>b_tokens := t'\<rparr>)\<rparr>))"

text \<open>
  The invariant at time \<open>T\<close>: a rate that is not negative, a burst of at least one token that is
  a float64, and every bucket between zero and the burst and last touched by \<open>T\<close>.
\<close>

definition lim_ok :: "int \<Rightarrow> Limiter \<Rightarrow> bool" where
  "lim_ok T l \<longleftrightarrow> 0 \<le> l_rate l \<and> 1 \<le> l_burst l \<and> fl (l_burst l) = l_burst l \<and>
     t_mono (l_lastEvict l) \<le> T \<and>
     (\<forall>k b. l_buckets l k = Some b \<longrightarrow>
        0 \<le> b_tokens b \<and> b_tokens b \<le> l_burst l \<and> t_mono (b_last b) \<le> T)"

lemma lim_okD:
  assumes "lim_ok T l"
  shows "0 \<le> l_rate l" "1 \<le> l_burst l" "fl (l_burst l) = l_burst l" "t_mono (l_lastEvict l) \<le> T"
    and "l_buckets l k = Some b \<Longrightarrow> 0 \<le> b_tokens b"
    and "l_buckets l k = Some b \<Longrightarrow> b_tokens b \<le> l_burst l"
    and "l_buckets l k = Some b \<Longrightarrow> t_mono (b_last b) \<le> T"
  using assms by (auto simp: lim_ok_def)

lemma fsub_one_bounds:
  assumes "1 \<le> t" and "t \<le> u" and "fl u = u"
  shows "0 \<le> fsub t 1" and "fsub t 1 \<le> u"
  using assms fl_nonneg[of "t - 1"] fl_mono[of "t - 1" u] by (simp_all add: fsub_def)

lemma refill_bounds:
  assumes "lim_ok T l" and "l_buckets l k = Some b" and "T \<le> t_mono now"
  shows "0 \<le> refill now l b" and "refill now l b \<le> l_burst l"
proof -
  have "0 \<le> duration_seconds (time_sub now (b_last b))"
    using lim_okD(7)[OF assms(1,2)] assms(3) by (intro duration_seconds_bounds time_sub_nonneg) linarith
  then show "0 \<le> refill now l b"
    using lim_okD(1,2)[OF assms(1)] lim_okD(5)[OF assms(1,2)]
    by (auto simp: refill_def Let_def fadd_def fmul_def intro!: fl_nonneg add_nonneg_nonneg mult_nonneg_nonneg)
  show "refill now l b \<le> l_burst l" by (simp add: refill_def Let_def)
qed

lemma sweep_sel [simp]: "l_rate (sweep now l) = l_rate l" "l_burst (sweep now l) = l_burst l"
  by (simp_all add: sweep_def evictIdle_def Let_def)

lemma sweep_bucket:
  "l_buckets (sweep now l) k = Some b \<Longrightarrow> l_buckets l k = Some b"
  by (auto simp: sweep_def evictIdle_def Let_def split: if_splits option.splits)

lemma sweep_evicted:
  "l_buckets (sweep now l) k = None \<Longrightarrow> l_buckets l k = Some b \<Longrightarrow> t_mono (b_last b) + 10 * minute_ns < t_mono now"
  by (auto simp: sweep_def evictIdle_def Let_def time_before_def split: if_splits)

lemma lim_ok_later: "lim_ok T l \<Longrightarrow> T \<le> T' \<Longrightarrow> lim_ok T' l"
  by (fastforce simp: lim_ok_def)

lemma sweep_lastEvict: "T \<le> t_mono now \<Longrightarrow> t_mono (l_lastEvict l) \<le> T \<Longrightarrow> t_mono (l_lastEvict (sweep now l)) \<le> t_mono now"
  by (simp add: sweep_def evictIdle_def Let_def)

lemma lim_ok_sweep:
  assumes "lim_ok T l" and "T \<le> t_mono now"
  shows "lim_ok (t_mono now) (sweep now l)"
  unfolding lim_ok_def
proof (intro conjI allI impI)
  fix k b assume "l_buckets (sweep now l) k = Some b"
  then have "l_buckets l k = Some b" by (rule sweep_bucket)
  then show "0 \<le> b_tokens b" "b_tokens b \<le> l_burst (sweep now l)" "t_mono (b_last b) \<le> t_mono now"
    using lim_okD(5-7)[OF assms(1), of k b] assms(2) by auto
qed (use lim_okD(1-4)[OF assms(1)] assms(2) sweep_lastEvict in auto)

lemma lim_ok_put:
  assumes "lim_ok T l" and "0 \<le> b_tokens b" and "b_tokens b \<le> l_burst l" and "t_mono (b_last b) \<le> T"
  shows "lim_ok T (l\<lparr>l_buckets := (l_buckets l)(k \<mapsto> b)\<rparr>)"
  using assms by (auto simp: lim_ok_def)

lemma lim_ok_Allow:
  assumes "lim_ok T l" and "T \<le> t_mono now"
  shows "lim_ok (t_mono now) (snd (Allow key now l))"
proof -
  let ?l = "sweep now l"
  have ok: "lim_ok (t_mono now) ?l" using assms by (rule lim_ok_sweep)
  show ?thesis
  proof (cases "l_buckets ?l key")
    case None
    then show ?thesis
      using fsub_one_bounds[of "l_burst ?l" "l_burst ?l"] lim_okD(2,3)[OF ok]
      by (auto simp: Allow_def Let_def intro!: lim_ok_put[OF ok])
  next
    case (Some b)
    note r = refill_bounds[OF ok Some order_refl]
    show ?thesis
      using Some r fsub_one_bounds[of "refill now ?l b" "l_burst ?l"] lim_okD(3)[OF ok]
      by (auto simp: Allow_def Let_def intro!: lim_ok_put[OF ok])
  qed
qed

lemma lim_ok_Return: "lim_ok T l \<Longrightarrow> lim_ok T (Return key l)"
  using lim_okD(2,5,7)[of T l]
  by (auto simp: Return_def Let_def fadd_def split: option.split intro!: lim_ok_put fl_nonneg add_nonneg_nonneg)

section \<open>The rate bound\<close>

text \<open>
  What a span of \<open>d\<close> nanoseconds earns, with the rounding it may gain, and what a key could
  spend at time \<open>t\<close>: an absent bucket is worth the burst, a present one what it holds and has
  earned since, up to the burst.
\<close>

definition earn :: "Limiter \<Rightarrow> int \<Rightarrow> rat" where
  "earn l d = (1 + fl_slack) * (of_int d / 1000000000 * l_rate l)"

definition credit :: "Limiter \<Rightarrow> bytes \<Rightarrow> int \<Rightarrow> rat" where
  "credit l k t = (case l_buckets l k of
      None \<Rightarrow> l_burst l
    | Some b \<Rightarrow> min (l_burst l) (b_tokens b + earn l (t - t_mono (b_last b))))"

lemma earn_add: "earn l (c + d) = earn l c + earn l d"
  by (simp add: earn_def algebra_simps add_divide_distrib)

lemma earn_zero [simp]: "earn l 0 = 0"
  by (simp add: earn_def)

lemma earn_mono: "lim_ok T l \<Longrightarrow> c \<le> d \<Longrightarrow> earn l c \<le> earn l d"
  using lim_okD(1)[of T l] fl_eps_powers(4)
  by (auto simp: earn_def intro!: mult_left_mono mult_right_mono divide_right_mono)

lemma earn_nonneg: "lim_ok T l \<Longrightarrow> 0 \<le> d \<Longrightarrow> 0 \<le> earn l d"
  using earn_mono[of T l 0 d] by simp

lemma earn_upd [simp]: "earn (l\<lparr>l_buckets := m\<rparr>) = earn l"
  by (simp add: earn_def fun_eq_iff)

lemma earn_cong: "l_rate l' = l_rate l \<Longrightarrow> earn l' d = earn l d"
  by (simp add: earn_def)

lemma credit_nonneg:
  assumes "lim_ok T l" and "T \<le> t"
  shows "0 \<le> credit l k t"
proof (cases "l_buckets l k")
  case None
  then show ?thesis using lim_okD(2)[OF assms(1)] by (simp add: credit_def)
next
  case (Some b)
  then have "0 \<le> earn l (t - t_mono (b_last b))"
    using lim_okD(7)[OF assms(1) Some] assms(2) by (intro earn_nonneg[OF assms(1)]) linarith
  then show ?thesis
    using Some lim_okD(2)[OF assms(1)] lim_okD(5)[OF assms(1) Some] by (simp add: credit_def)
qed

lemma credit_le_burst: "credit l k t \<le> l_burst l"
  by (simp add: credit_def split: option.split)

lemma credit_elapse:
  assumes "lim_ok T l" and "t \<le> t'"
  shows "credit l k t' \<le> credit l k t + earn l (t' - t)"
proof -
  have p: "0 \<le> earn l (t' - t)" using assms by (simp add: earn_nonneg)
  show ?thesis
  proof (cases "l_buckets l k")
    case (Some b)
    let ?x = "t_mono (b_last b)"
    have "earn l (t' - ?x) = earn l (t - ?x) + earn l (t' - t)"
      using earn_add[of l "t - ?x" "t' - t"] by simp
    with p Some show ?thesis by (simp add: credit_def min_def)
  qed (use p in \<open>simp add: credit_def\<close>)
qed

lemma refill_upper:
  assumes "lim_ok T l" and "l_buckets l k = Some b" and "T \<le> t_mono now"
  shows "refill now l b \<le> credit l k (t_mono now) + fl_eps * l_burst l"
proof -
  define secs where "secs = duration_seconds (time_sub now (b_last b))"
  define D where "D = t_mono now - t_mono (b_last b)"
  define X where "X = of_int D / 1000000000 * l_rate l"
  have le: "t_mono (b_last b) \<le> t_mono now" using lim_okD(7)[OF assms(1,2)] assms(3) by linarith
  note d = time_sub_nonneg[OF le] time_sub_le[OF le]
  note rate = lim_okD(1)[OF assms(1)] and x = lim_okD(5,6)[OF assms(1,2)]
  have X: "0 \<le> X" using le rate by (simp add: X_def D_def)
  have secs: "0 \<le> secs" "secs \<le> of_int D / 1000000000 * (1 + fl_eps) ^ 3"
  proof -
    show "0 \<le> secs" using d(1) by (simp add: secs_def duration_seconds_bounds)
    have "of_int (time_sub now (b_last b)) / 1000000000 * (1 + fl_eps) ^ 3 \<le> of_int D / 1000000000 * (1 + fl_eps) ^ 3"
      using d(2) fl_eps_powers(3) by (intro mult_right_mono divide_right_mono) (simp_all add: D_def)
    then show "secs \<le> of_int D / 1000000000 * (1 + fl_eps) ^ 3"
      using duration_seconds_bounds(2)[OF d(1)] by (simp add: secs_def)
  qed
  have "secs * l_rate l \<le> X * (1 + fl_eps) ^ 3"
    using mult_right_mono[OF secs(2) rate] by (simp add: X_def ac_simps)
  then have "fmul secs (l_rate l) \<le> X * (1 + fl_eps) ^ 3 * (1 + fl_eps)"
    using rate secs(1) unfolding fmul_def by (intro fl_upper_le mult_nonneg_nonneg)
  then have m: "fmul secs (l_rate l) \<le> X * (1 + fl_eps) ^ 4"
    by (simp add: power_numeral_reduce ac_simps)
  have m0: "0 \<le> fmul secs (l_rate l)"
    using rate secs(1) by (simp add: fmul_def fl_nonneg)
  have "fadd (b_tokens b) (fmul secs (l_rate l)) \<le> (b_tokens b + X * (1 + fl_eps) ^ 4) * (1 + fl_eps)"
    unfolding fadd_def using x m m0 by (intro fl_upper_le) auto
  also have "\<dots> = b_tokens b + fl_eps * b_tokens b + X * (1 + fl_eps) ^ 5"
    by (simp add: algebra_simps power_numeral_reduce)
  also have "\<dots> \<le> b_tokens b + fl_eps * l_burst l + X * (1 + fl_slack)"
    using x X fl_eps_powers by (intro add_mono mult_left_mono) simp_all
  also have "\<dots> = b_tokens b + earn l D + fl_eps * l_burst l"
    by (simp add: ac_simps earn_def X_def)
  finally have main: "fadd (b_tokens b) (fmul secs (l_rate l)) \<le> b_tokens b + earn l D + fl_eps * l_burst l" .
  have "0 \<le> fl_eps * l_burst l" using lim_okD(2)[OF assms(1)] fl_eps_powers(3) by simp
  then show ?thesis using main assms(2)
    by (simp add: credit_def refill_def Let_def min_def secs_def D_def)
qed

lemma credit_sweep:
  assumes "lim_ok T l" and "T \<le> t_mono now" and "l_burst l \<le> 600 * l_rate l"
  shows "credit (sweep now l) k (t_mono now) \<le> credit l k (t_mono now)"
proof (cases "l_buckets (sweep now l) k")
  case None
  show ?thesis
  proof (cases "l_buckets l k")
    case (Some b)
    then have "10 * minute_ns \<le> t_mono now - t_mono (b_last b)"
      using sweep_evicted[OF None Some] by linarith
    then have "earn l (10 * minute_ns) \<le> earn l (t_mono now - t_mono (b_last b))"
      by (rule earn_mono[OF assms(1)])
    moreover have "600 * l_rate l \<le> earn l (10 * minute_ns)"
      using lim_okD(1)[OF assms(1)] fl_eps_powers(4) by (simp add: earn_def algebra_simps)
    ultimately show ?thesis
      using Some None assms(3) lim_okD(5)[OF assms(1) Some] by (simp add: credit_def)
  qed (simp add: credit_def None)
next
  case (Some b)
  then show ?thesis using sweep_bucket[OF Some] earn_cong[of "sweep now l" l] by (simp add: credit_def)
qed

lemma Allow_params [simp]:
  "l_rate (snd (Allow key now l)) = l_rate l" "l_burst (snd (Allow key now l)) = l_burst l"
  by (simp_all add: Allow_def Let_def split: option.split)

lemma Return_params [simp]:
  "l_rate (Return key l) = l_rate l" "l_burst (Return key l) = l_burst l"
  by (simp_all add: Return_def Let_def split: option.split)

lemma fsub_one_upper: "1 \<le> t \<Longrightarrow> t \<le> u \<Longrightarrow> fsub t 1 \<le> t - 1 + fl_eps * u"
proof -
  assume t: "1 \<le> t" "t \<le> u"
  have "fsub t 1 \<le> (t - 1) * (1 + fl_eps)" using t by (simp add: fsub_def fl_upper)
  also have "\<dots> = t - 1 + fl_eps * (t - 1)" by (simp add: algebra_simps)
  also have "\<dots> \<le> t - 1 + fl_eps * u"
    using t fl_eps_powers(3) by (intro add_left_mono mult_left_mono) simp_all
  finally show ?thesis .
qed

lemma credit_put:
  "credit (l\<lparr>l_buckets := (l_buckets l)(k' \<mapsto> \<lparr>b_tokens = v, b_last = now\<rparr>)\<rparr>) k (t_mono now)
   = (if k = k' then min (l_burst l) v else credit l k (t_mono now))"
  by (simp add: credit_def earn_def split: option.split)

lemma slack_burst:
  assumes "lim_ok T l"
  shows "0 \<le> fl_eps * l_burst l" and "fl_eps * (2 * l_burst l) \<le> fl_slack * l_burst l"
  using mult_right_mono[OF fl_eps_powers(2), of "l_burst l"] lim_okD(2)[OF assms] fl_eps_powers(3)
  by (simp_all add: ac_simps)

lemma credit_Allow:
  assumes "lim_ok T l" and "T \<le> t_mono now" and "l_burst l \<le> 600 * l_rate l"
  shows "(if k = key \<and> fst (Allow key now l) then 1 else 0) + credit (snd (Allow key now l)) k (t_mono now)
    \<le> credit l k (t_mono now) + fl_slack * l_burst l"
proof -
  let ?l = "sweep now l"
  have ok: "lim_ok (t_mono now) ?l" using assms(1,2) by (rule lim_ok_sweep)
  have sw: "credit ?l k (t_mono now) \<le> credit l k (t_mono now)" using assms by (rule credit_sweep)
  note B = lim_okD(2)[OF ok]
  define e S where "e = fl_eps * l_burst l" and "S = fl_slack * l_burst l"
  have eS: "0 \<le> e" "2 * e \<le> S" using slack_burst[OF assms(1)] by (simp_all add: e_def S_def)
  have sub: "1 \<le> t \<Longrightarrow> t \<le> l_burst l \<Longrightarrow> fsub t 1 \<le> t - 1 + e" for t
    unfolding e_def by (rule fsub_one_upper)
  show ?thesis
  proof (cases "l_buckets ?l key")
    case None
    have "credit ?l key (t_mono now) = l_burst l" using None by (simp add: credit_def)
    then show ?thesis
      using None sw eS sub[of "l_burst l"] B unfolding S_def[symmetric]
      by (auto simp: Allow_def Let_def credit_put)
  next
    case (Some b)
    have r: "refill now ?l b \<le> l_burst l" "refill now ?l b \<le> credit ?l key (t_mono now) + e"
      using refill_bounds[OF ok Some order_refl] refill_upper[OF ok Some order_refl] by (simp_all add: e_def)
    show ?thesis
      using Some sw eS r sub[of "refill now ?l b"] unfolding S_def[symmetric]
      by (auto simp: Allow_def Let_def credit_put)
  qed
qed

lemma credit_Return:
  assumes "lim_ok T l" and "T \<le> t"
  shows "credit (Return key l) k t \<le> credit l k t + (if k = key then 1 else 0) + fl_slack * l_burst l"
proof (cases "l_buckets l key")
  case None
  then show ?thesis using slack_burst[OF assms(1)] by (simp add: Return_def)
next
  case (Some b)
  note x = lim_okD(5,6)[OF assms(1) Some] and B = lim_okD(2)[OF assms(1)]
  have "fadd (b_tokens b) 1 \<le> (b_tokens b + 1) * (1 + fl_eps)"
    using x by (simp add: fadd_def fl_upper)
  also have "\<dots> = b_tokens b + 1 + fl_eps * (b_tokens b + 1)" by (simp add: algebra_simps)
  also have "\<dots> \<le> b_tokens b + 1 + fl_eps * (2 * l_burst l)"
    using x B fl_eps_powers(3) by (intro add_left_mono mult_left_mono) simp_all
  also have "\<dots> \<le> b_tokens b + 1 + fl_slack * l_burst l"
    using slack_burst(2)[OF assms(1)] by linarith
  finally have f: "fadd (b_tokens b) 1 \<le> b_tokens b + 1 + fl_slack * l_burst l" .
  define S where "S = fl_slack * l_burst l"
  have S: "0 \<le> S" using slack_burst[OF assms(1)] by (simp add: S_def)
  define E where "E = earn l (t - t_mono (b_last b))"
  have E: "0 \<le> E"
    using lim_okD(7)[OF assms(1) Some] assms(2) unfolding E_def by (intro earn_nonneg[OF assms(1)]) linarith
  show ?thesis
    using f Some S E unfolding S_def[symmetric]
    by (auto simp: credit_def Return_def Let_def E_def[symmetric] min_def split: option.split)
qed

text \<open>Runs.\<close>

text \<open>Sequences of calls on one limiter, with the clock readings they make.\<close>

datatype lim_op = DoAllow bytes gotime | DoReturn bytes

fun lim_apply :: "lim_op \<Rightarrow> Limiter \<Rightarrow> bool \<times> Limiter" where
  "lim_apply (DoAllow k now) l = Allow k now l"
| "lim_apply (DoReturn k) l = (False, Return k l)"

fun lim_run :: "lim_op list \<Rightarrow> Limiter \<Rightarrow> bool list \<times> Limiter" where
  "lim_run [] l = ([], l)"
| "lim_run (x # xs) l = (case lim_apply x l of (a, l') \<Rightarrow>
     case lim_run xs l' of (as, l'') \<Rightarrow> (a # as, l''))"

fun timed :: "int \<Rightarrow> lim_op list \<Rightarrow> int \<Rightarrow> bool" where
  "timed t [] t' \<longleftrightarrow> t \<le> t'"
| "timed t (DoAllow k now # xs) t' \<longleftrightarrow> t \<le> t_mono now \<and> timed (t_mono now) xs t'"
| "timed t (DoReturn k # xs) t' \<longleftrightarrow> timed t xs t'"

definition admitted :: "bytes \<Rightarrow> lim_op list \<Rightarrow> Limiter \<Rightarrow> nat" where
  "admitted k xs l = length (filter (\<lambda>(x, a). a \<and> (\<exists>now. x = DoAllow k now)) (zip xs (fst (lim_run xs l))))"

lemma timed_le: "timed t xs t' \<Longrightarrow> t \<le> t'"
  by (induction t xs t' rule: timed.induct) auto

lemma admitted_Nil [simp]: "admitted k [] l = 0"
  by (simp add: admitted_def)

lemma admitted_Cons [simp]:
  "admitted k (x # xs) l = (if fst (lim_apply x l) \<and> (\<exists>now. x = DoAllow k now) then 1 else 0)
     + admitted k xs (snd (lim_apply x l))"
  by (simp add: admitted_def split: prod.split)

lemma lim_run_bound:
  assumes "lim_ok t l" and "timed t xs t'" and "l_burst l \<le> 600 * l_rate l"
  shows "of_nat (admitted k xs l) \<le> credit l k t + earn l (t' - t)
     + of_nat (count_list xs (DoReturn k)) + of_nat (length xs) * (fl_slack * l_burst l)"
  using assms
proof (induction xs arbitrary: l t)
  case Nil
  then show ?case using credit_nonneg[of t l t k] earn_nonneg[of t l "t' - t"] by simp
next
  case (Cons x xs)
  show ?case
  proof (cases x)
    case (DoReturn k')
    have "of_nat (admitted k xs (Return k' l)) \<le> credit (Return k' l) k t + earn (Return k' l) (t' - t)
      + of_nat (count_list xs (DoReturn k)) + of_nat (length xs) * (fl_slack * l_burst l)"
      using Cons.IH[of t "Return k' l"] Cons.prems DoReturn lim_ok_Return by simp
    then show ?thesis
      using credit_Return[OF Cons.prems(1) order_refl, of k' k] DoReturn earn_cong[of "Return k' l" l]
      by (auto simp: algebra_simps)
  next
    case (DoAllow k' now)
    let ?l = "snd (Allow k' now l)"
    have le: "t \<le> t_mono now" using Cons.prems DoAllow by simp
    have "of_nat (admitted k xs ?l) \<le> credit ?l k (t_mono now) + earn ?l (t' - t_mono now)
      + of_nat (count_list xs (DoReturn k)) + of_nat (length xs) * (fl_slack * l_burst l)"
      using Cons.IH[of "t_mono now" ?l] Cons.prems DoAllow lim_ok_Allow[OF Cons.prems(1) le] by simp
    moreover have "earn ?l (t' - t_mono now) = earn l (t' - t_mono now)" by (rule earn_cong) simp
    moreover have "earn l (t' - t) = earn l (t_mono now - t) + earn l (t' - t_mono now)"
      using earn_add[of l "t_mono now - t" "t' - t_mono now"] by simp
    ultimately show ?thesis
      using credit_Allow[OF Cons.prems(1) le Cons.prems(3), of k k'] credit_elapse[OF Cons.prems(1) le, of k] DoAllow
      by (auto simp: algebra_simps split: if_splits)
  qed
qed

section \<open>What is left of a budget\<close>

text \<open>Key \<open>k\<close> has at least \<open>m\<close> tokens to spend.\<close>

definition at_least :: "Limiter \<Rightarrow> bytes \<Rightarrow> nat \<Rightarrow> bool" where
  "at_least l k m \<longleftrightarrow> of_nat m \<le> l_burst l \<and>
     (case l_buckets l k of None \<Rightarrow> True | Some b \<Rightarrow> of_nat m \<le> b_tokens b)"

definition whole_burst :: "nat \<Rightarrow> Limiter \<Rightarrow> bool" where
  "whole_burst B l \<longleftrightarrow> l_burst l = of_nat B \<and> B < 2 ^ 53"

lemma fl_of_nat [simp]: "n < 2 ^ 53 \<Longrightarrow> fl (of_nat n) = of_nat n"
  using fl_of_int[of "int n"] by simp

lemma fl_ge_nat: "of_nat m \<le> x \<Longrightarrow> m < 2 ^ 53 \<Longrightarrow> of_nat m \<le> fl x"
  using fl_mono[of "of_nat m" x] by simp

lemma at_least_sweep: "at_least l k m \<Longrightarrow> at_least (sweep now l) k m"
  using sweep_bucket[of now l k] by (auto simp: at_least_def split: option.splits)

lemma at_least_small: "whole_burst B l \<Longrightarrow> at_least l k m \<Longrightarrow> m \<le> B"
  by (simp add: whole_burst_def at_least_def)

lemma refill_ge:
  assumes "lim_ok T l" and "T \<le> t_mono now" and "whole_burst B l"
    and "l_buckets l k = Some b" and "at_least l k m"
  shows "of_nat m \<le> refill now l b"
proof -
  have m: "m < 2 ^ 53" using at_least_small[OF assms(3,5)] assms(3) by (simp add: whole_burst_def)
  have d: "0 \<le> fmul (duration_seconds (time_sub now (b_last b))) (l_rate l)"
    using lim_okD(1)[OF assms(1)] lim_okD(7)[OF assms(1,4)] assms(2)
    by (auto simp: fmul_def intro!: fl_nonneg mult_nonneg_nonneg duration_seconds_bounds time_sub_nonneg)
  have "of_nat m \<le> b_tokens b" using assms(4,5) by (simp add: at_least_def)
  then have "of_nat m \<le> fadd (b_tokens b) (fmul (duration_seconds (time_sub now (b_last b))) (l_rate l))"
    unfolding fadd_def using d m by (intro fl_ge_nat) auto
  moreover have "of_nat m \<le> l_burst l" using assms(5) by (simp add: at_least_def)
  ultimately show ?thesis by (simp add: refill_def Let_def)
qed

lemma fsub_ge_nat: "of_nat (Suc m) \<le> t \<Longrightarrow> m < 2 ^ 53 \<Longrightarrow> of_nat m \<le> fsub t 1"
  unfolding fsub_def by (rule fl_ge_nat) auto

lemma Allow_at_least:
  assumes "lim_ok T l" and "T \<le> t_mono now" and "whole_burst B l" and "at_least l k (Suc m)"
  shows "fst (Allow k now l)" and "at_least (snd (Allow k now l)) k m"
proof -
  let ?l = "sweep now l"
  have ok: "lim_ok (t_mono now) ?l" using assms(1,2) by (rule lim_ok_sweep)
  have wb: "whole_burst B ?l" using assms(3) by (simp add: whole_burst_def)
  have al: "at_least ?l k (Suc m)" using assms(4) by (rule at_least_sweep)
  have m: "m < 2 ^ 53" using at_least_small[OF wb al] wb by (simp add: whole_burst_def)
  have burst: "of_nat (Suc m) \<le> l_burst l" using assms(4) by (simp add: at_least_def)
  have "fst (Allow k now l) \<and> at_least (snd (Allow k now l)) k m"
  proof (cases "l_buckets ?l k")
    case None
    then show ?thesis
      using burst fsub_ge_nat[OF burst m] by (simp add: Allow_def Let_def at_least_def)
  next
    case (Some b)
    have r: "of_nat (Suc m) \<le> refill now ?l b"
      using refill_ge[OF ok order_refl wb Some al] .
    then show ?thesis
      using Some burst fsub_ge_nat[OF r m] by (simp add: Allow_def Let_def at_least_def)
  qed
  then show "fst (Allow k now l)" and "at_least (snd (Allow k now l)) k m" by simp_all
qed

lemma Allow_other_bucket: "k' \<noteq> k \<Longrightarrow> l_buckets (snd (Allow k' now l)) k = l_buckets (sweep now l) k"
  by (simp add: Allow_def Let_def split: option.split)

lemma Allow_at_least_other:
  "k' \<noteq> k \<Longrightarrow> at_least l k m \<Longrightarrow> at_least (snd (Allow k' now l)) k m"
  using at_least_sweep[of l k m now] by (simp add: at_least_def Allow_other_bucket)

lemma Return_at_least:
  assumes "whole_burst B l" and "at_least l k m"
  shows "at_least (Return k' l) k (if k' = k then min B (Suc m) else m)"
proof -
  have B: "l_burst l = of_nat B" "B < 2 ^ 53" using assms(1) by (auto simp: whole_burst_def)
  have up: "of_nat (min B (Suc m)) \<le> fadd x 1" if "of_nat m \<le> x" for x
  proof -
    have "(of_nat (min B (Suc m)) :: rat) \<le> of_nat (Suc m)" by (simp only: of_nat_le_iff min.cobounded2)
    then show ?thesis unfolding fadd_def using B(2) that by (intro fl_ge_nat) auto
  qed
  show ?thesis
  proof (cases "l_buckets l k'")
    case None
    then show ?thesis using assms(2) B by (auto simp: Return_def at_least_def split: option.splits)
  next
    case (Some b)
    show ?thesis
    proof (cases "k' = k")
      case True
      then have "of_nat (min B (Suc m)) \<le> fadd (b_tokens b) 1"
        using assms(2) Some by (intro up) (simp add: at_least_def)
      then show ?thesis using True Some B by (simp add: Return_def Let_def at_least_def)
    qed (use assms(2) Some in \<open>simp add: Return_def Let_def at_least_def\<close>)
  qed
qed

text \<open>A sequence of calls, by an arbitrary limiter: the answers in order and the state after them.\<close>

fun allows :: "(bytes \<Rightarrow> gotime \<Rightarrow> 'l \<Rightarrow> bool \<times> 'l) \<Rightarrow> (bytes \<times> gotime) list \<Rightarrow> 'l \<Rightarrow> bool list \<times> 'l" where
  "allows f [] l = ([], l)"
| "allows f ((k, now) # xs) l =
     (case f k now l of (a, l') \<Rightarrow> case allows f xs l' of (as, l'') \<Rightarrow> (a # as, l''))"

fun timely :: "int \<Rightarrow> (bytes \<times> gotime) list \<Rightarrow> bool" where
  "timely t [] = True"
| "timely t ((k, now) # xs) = (t \<le> t_mono now \<and> timely (t_mono now) xs)"

text \<open>
  The interface a handler relies on: calls it is entitled to are admitted, other keys'
  calls do not take them away, and a token given back is there for the next call.
\<close>

locale budget =
  fixes allow :: "bytes \<Rightarrow> gotime \<Rightarrow> 'l \<Rightarrow> bool \<times> 'l"
    and give_back :: "bytes \<Rightarrow> 'l \<Rightarrow> 'l"
    and good :: "nat \<Rightarrow> int \<Rightarrow> 'l \<Rightarrow> bool"
    and left :: "'l \<Rightarrow> bytes \<Rightarrow> nat \<Rightarrow> bool"
  assumes good_allow: "good B T l \<Longrightarrow> T \<le> t_mono now \<Longrightarrow> good B (t_mono now) (snd (allow k now l))"
    and good_give_back: "good B T l \<Longrightarrow> good B T (give_back k l)"
    and allow_left: "good B T l \<Longrightarrow> T \<le> t_mono now \<Longrightarrow> left l k (Suc m) \<Longrightarrow>
       fst (allow k now l) \<and> left (snd (allow k now l)) k m"
    and allow_left_other: "k' \<noteq> k \<Longrightarrow> left l k m \<Longrightarrow> left (snd (allow k' now l)) k m"
    and give_back_left: "good B T l \<Longrightarrow> left l k m \<Longrightarrow>
       left (give_back k' l) k (if k' = k then min B (Suc m) else m)"
    and left_zero: "good B T l \<Longrightarrow> left l k 0"
begin

lemma good_gives: "good B T l \<Longrightarrow> good B T ((give_back k ^^ n) l)"
  by (induction n) (auto intro: good_give_back)

lemma gives_left: "good B T l \<Longrightarrow> left ((give_back k ^^ n) l) k (min B n)"
proof (induction n)
  case (Suc n)
  have "left (give_back k ((give_back k ^^ n) l)) k (min B (Suc (min B n)))"
    using give_back_left[OF good_gives[OF Suc.prems] Suc.IH[OF Suc.prems], of k] by simp
  moreover have "min B (Suc (min B n)) = min B (Suc n)" by simp
  ultimately show ?case by simp
qed (simp add: left_zero)

lemma allows_entitled:
  assumes "good B T l" and "left l k n" and "timely T xs"
    and "length (filter (\<lambda>(k', _). k' = k) xs) \<le> n"
    and "(x, a) \<in> set (zip xs (fst (allows allow xs l)))" and "fst x = k"
  shows a
  using assms
proof (induction xs arbitrary: l T n)
  case (Cons y ys)
  obtain k' now where y: "y = (k', now)" by fastforce
  obtain b l' where f: "allow k' now l = (b, l')" by fastforce
  have good: "good B (t_mono now) l'" and le: "T \<le> t_mono now"
    using good_allow[of B T l now k'] Cons.prems y f by auto
  show ?case
  proof (cases "k' = k")
    case True
    then obtain m where m: "n = Suc m" using Cons.prems(4) y by (cases n) auto
    have "b \<and> left l' k m"
      using allow_left[OF Cons.prems(1) le, of k m] Cons.prems(2) m True f by simp
    then show ?thesis
      using Cons.IH[OF good, of m] Cons.prems True m y f by (auto split: prod.splits)
  next
    case False
    have "left l' k n" using allow_left_other[OF False Cons.prems(2)] f by (metis snd_conv)
    then show ?thesis
      using Cons.IH[OF good, of n] Cons.prems False y f by (auto split: prod.splits)
  qed
qed simp

lemma refunded_calls_admitted:
  assumes "good B T l" and "n \<le> B" and "timely T xs"
    and "length (filter (\<lambda>(k', _). k' = k) xs) \<le> n"
    and "(x, a) \<in> set (zip xs (fst (allows allow xs ((give_back k ^^ n) l))))" and "fst x = k"
  shows a
  using allows_entitled[OF good_gives[OF assms(1)] _ assms(3,4,5,6)] gives_left[OF assms(1), of n k] assms(2)
  by (simp add: min_absorb2)

end

definition lim_good :: "nat \<Rightarrow> int \<Rightarrow> Limiter \<Rightarrow> bool" where
  "lim_good B T l \<longleftrightarrow> lim_ok T l \<and> whole_burst B l"

interpretation lim: budget Allow Return lim_good at_least
proof unfold_locales
  fix l :: Limiter and B m :: nat and T :: int and now :: gotime and k k' :: bytes
  show "lim_good B T l \<Longrightarrow> T \<le> t_mono now \<Longrightarrow> lim_good B (t_mono now) (snd (Allow k now l))"
    using lim_ok_Allow by (auto simp: lim_good_def whole_burst_def)
  show "lim_good B T l \<Longrightarrow> lim_good B T (Return k l)"
    by (simp add: lim_good_def lim_ok_Return whole_burst_def)
  show "lim_good B T l \<Longrightarrow> T \<le> t_mono now \<Longrightarrow> at_least l k (Suc m) \<Longrightarrow>
       fst (Allow k now l) \<and> at_least (snd (Allow k now l)) k m"
    using Allow_at_least by (auto simp: lim_good_def)
  show "k' \<noteq> k \<Longrightarrow> at_least l k m \<Longrightarrow> at_least (snd (Allow k' now l)) k m"
    by (rule Allow_at_least_other)
  show "lim_good B T l \<Longrightarrow> at_least l k m \<Longrightarrow>
       at_least (Return k' l) k (if k' = k then min B (Suc m) else m)"
    unfolding lim_good_def by (blast intro: Return_at_least)
  show "lim_good B T l \<Longrightarrow> at_least l k 0"
    using lim_okD(2,5)[of T l] by (auto simp: lim_good_def at_least_def split: option.split)
qed

lemma New_Limiter_good:
  assumes "0 \<le> pm" and "1 \<le> b" and "b < 2 ^ 53"
  shows "lim_good (nat b) (t_mono t) (New_Limiter pm b t)"
proof -
  have "fl (of_int b) = of_int b" using assms by simp
  moreover have "(1 :: rat) \<le> of_int b" using assms(2) by simp
  ultimately show ?thesis
    using assms by (simp add: lim_good_def lim_ok_def whole_burst_def New_Limiter_def fdiv_def fl_nonneg)
qed

section \<open>The idle sweep\<close>

lemma sweep_idem [simp]: "sweep now (sweep now l) = sweep now l"
  by (auto simp: sweep_def evictIdle_def Let_def time_sub_def evictInterval_def min_int64_def max_int64_def)

lemma Allow_sweep [simp]: "Allow k now (sweep now l) = Allow k now l"
  by (simp add: Allow_def)

lemma sweep_idle:
  assumes "lim_ok T l" and "T + 10 * minute_ns < t_mono now"
  shows "l_buckets (sweep now l) k = None"
proof -
  have "evictInterval < time_sub now (l_lastEvict l)"
    using lim_okD(4)[OF assms(1)] assms(2) by (simp add: time_sub_def evictInterval_def min_int64_def max_int64_def)
  then show ?thesis
    using lim_okD(7)[OF assms(1), of k] assms(2)
    by (fastforce simp: sweep_def evictIdle_def Let_def time_before_def split: option.split)
qed

lemma allows_append:
  "allows f (xs @ ys) l = (case allows f xs l of (as, l') \<Rightarrow>
     case allows f ys l' of (bs, l'') \<Rightarrow> (as @ bs, l''))"
  by (induction f xs l rule: allows.induct) (auto split: prod.splits)

lemma length_allows [simp]: "length (fst (allows f xs l)) = length xs"
  by (induction f xs l rule: allows.induct) (auto split: prod.splits)

lemma allows_zip: "i < length xs \<Longrightarrow> (xs ! i, fst (allows f xs l) ! i) \<in> set (zip xs (fst (allows f xs l)))"
  by (auto simp: set_zip)

lemma allows_entitled_same:
  assumes "lim_good B T l" and "T \<le> t_mono now" and "at_least (sweep now l) k n"
  shows "fst (allows Allow (replicate n (k, now)) l) = replicate n True
     \<and> (0 < n \<longrightarrow> lim_good B (t_mono now) (snd (allows Allow (replicate n (k, now)) l)))"
  using assms
proof (induction n arbitrary: l T)
  case (Suc n)
  let ?l = "sweep now l" and ?l' = "snd (Allow k now l)"
  have good: "lim_good B (t_mono now) ?l"
    using Suc.prems(1,2) by (auto simp: lim_good_def whole_burst_def intro: lim_ok_sweep)
  have a: "fst (Allow k now l)" "at_least ?l' k n"
    using lim.allow_left[OF good order_refl Suc.prems(3)] by simp_all
  have g: "lim_good B (t_mono now) ?l'" using Suc.prems(1,2) by (rule lim.good_allow)
  have "fst (allows Allow (replicate n (k, now)) ?l') = replicate n True
     \<and> (0 < n \<longrightarrow> lim_good B (t_mono now) (snd (allows Allow (replicate n (k, now)) ?l')))"
    using g a(2) by (intro Suc.IH) (auto intro: at_least_sweep)
  then show ?case using a(1) g by (cases n) (auto split: prod.splits)
qed simp

text \<open>A caller that uses its burst at once every 601 seconds.\<close>

definition at_s :: "int \<Rightarrow> gotime" where
  "at_s n = \<lparr>t_wall = n * second_ns, t_mono = n * second_ns\<rparr>"

definition idle_rounds :: "bytes \<Rightarrow> nat \<Rightarrow> nat \<Rightarrow> (bytes \<times> gotime) list" where
  "idle_rounds k B n = concat (map (\<lambda>i. replicate B (k, at_s (601 * (int i + 1)))) [0..<n])"

lemma idle_rounds_admitted:
  assumes "lim_good B (t_mono (at_s 0)) l" and "1 \<le> B"
  shows "fst (allows Allow (idle_rounds k B n) l) = replicate (n * B) True
    \<and> lim_good B (t_mono (at_s (601 * int n))) (snd (allows Allow (idle_rounds k B n) l))"
proof (induction n)
  case 0
  then show ?case using assms(1) by (simp add: idle_rounds_def)
next
  case (Suc n)
  let ?now = "at_s (601 * (int n + 1))"
  obtain as l' where r: "allows Allow (idle_rounds k B n) l = (as, l')" by fastforce
  have as: "as = replicate (n * B) True" and good: "lim_good B (t_mono (at_s (601 * int n))) l'"
    using Suc.IH r by simp_all
  have idle: "t_mono (at_s (601 * int n)) + 10 * minute_ns < t_mono ?now" by (simp add: at_s_def)
  have "l_buckets (sweep ?now l') k = None"
    using good idle by (auto simp: lim_good_def intro: sweep_idle)
  then have al: "at_least (sweep ?now l') k B"
    using good by (simp add: at_least_def lim_good_def whole_burst_def)
  have le: "t_mono (at_s (601 * int n)) \<le> t_mono ?now" using idle by simp
  obtain bs l'' where bs: "allows Allow (replicate B (k, ?now)) l' = (bs, l'')" by fastforce
  have "bs = replicate B True \<and> lim_good B (t_mono ?now) l''"
    using allows_entitled_same[OF good le al] bs assms(2) by simp
  moreover have "idle_rounds k B (Suc n) = idle_rounds k B n @ replicate B (k, ?now)"
    by (simp add: idle_rounds_def)
  ultimately show ?case
    using as r bs by (simp add: allows_append add.commute replicate_add[symmetric])
qed

section \<open>Properties\<close>

text \<open>
  However \<open>Allow\<close> and \<open>Return\<close> are called, with readings of the clock that do not
  go backwards, every bucket of a limiter holds between zero tokens and the burst.
\<close>

lemma limiter_tokens_bounded:
  assumes "lim_ok T l" and "T \<le> t_mono now"
  shows "lim_ok (t_mono now) (snd (Allow key now l)) \<and> lim_ok T (Return key l)"
  using lim_ok_Allow[OF assms] lim_ok_Return[OF assms(1)] by blast

text \<open>
  C24: a limiter fresh from \<open>New\<close> with a burst of \<open>B\<close> admits the first \<open>B\<close> calls of every key,
  however the calls of other keys are interleaved with them.
\<close>

theorem limiter_burst_available:
  assumes "0 \<le> perMinute" and "1 \<le> burst" and "burst < 2 ^ 53" and "timely (t_mono now) calls"
    and "length (filter (\<lambda>(k', _). k' = k) calls) \<le> nat burst"
    and "i < length calls" and "fst (calls ! i) = k"
  shows "fst (allows Allow calls (New_Limiter perMinute burst now)) ! i"
proof -
  have "at_least (New_Limiter perMinute burst now) k (nat burst)"
    using assms(2,3) by (simp add: at_least_def New_Limiter_def)
  from lim.allows_entitled[OF New_Limiter_good[OF assms(1-3)] this assms(4,5) allows_zip[OF assms(6)] assms(7)]
  show ?thesis .
qed

theorem limiter_burst_available_witness:
  "fst (allows Allow [(''a'', at_s 1), (''b'', at_s 1)] (New_Limiter 10 1 (at_s 0))) ! 0"
  using limiter_burst_available[of 10 1 "at_s 0" "[(''a'', at_s 1), (''b'', at_s 1)]" "''a''" 0]
  by (simp add: at_s_def del: allows.simps)


end
