(* ===== verification/Push_Vocab.thy ===== *)
theory Push_Vocab
  imports Relay_Prelude
begin

text \<open>
  \<open>internal/push\<close>: the vocabulary the API layer and the two provider clients share. The
  source's string types \<open>Platform\<close>, \<open>Kind\<close> and \<open>Status\<close> are datatypes with one
  constructor per declared constant; \<open>StatusUnset\<close> is the zero value of \<open>Status\<close>, the
  empty string, which a slot of the results holds until it is filled.
\<close>

datatype Platform = PlatformIOS | PlatformAndroid

fun platform_str :: "Platform \<Rightarrow> bytes" where
  "platform_str PlatformIOS = ''ios''"
| "platform_str PlatformAndroid = ''android''"

datatype Kind = KindMessage | KindMention | KindCall | KindWake

fun kind_str :: "Kind \<Rightarrow> bytes" where
  "kind_str KindMessage = ''message''"
| "kind_str KindMention = ''mention''"
| "kind_str KindCall = ''call''"
| "kind_str KindWake = ''wake''"

record Message =
  m_Token :: bytes
  m_Kind :: Kind
  m_Payload :: bytes

datatype Status =
    StatusUnset
  | StatusDelivered
  | StatusUnregistered
  | StatusForbidden
  | StatusError
  | StatusNotAttempted

fun status_str :: "Status \<Rightarrow> bytes" where
  "status_str StatusUnset = []"
| "status_str StatusDelivered = ''delivered''"
| "status_str StatusUnregistered = ''unregistered''"
| "status_str StatusForbidden = ''forbidden''"
| "status_str StatusError = ''error''"
| "status_str StatusNotAttempted = ''not_attempted''"

record Result =
  r_Token :: bytes
  r_Status :: Status

text \<open>The statuses a provider client answers with.\<close>

definition provider_status :: "Status \<Rightarrow> bool" where
  "provider_status st \<longleftrightarrow> st \<in> {StatusDelivered, StatusUnregistered, StatusError}"

lemma provider_status_simps [simp]:
  "provider_status StatusDelivered" "provider_status StatusUnregistered" "provider_status StatusError"
  "\<not> provider_status StatusUnset" "\<not> provider_status StatusForbidden" "\<not> provider_status StatusNotAttempted"
  by (simp_all add: provider_status_def)

lemma platform_str_inj: "platform_str p = platform_str q \<Longrightarrow> p = q"
  by (cases p; cases q) simp_all

lemma kind_str_inj: "kind_str p = kind_str q \<Longrightarrow> p = q"
  by (cases p; cases q) simp_all

lemma status_str_inj: "status_str p = status_str q \<Longrightarrow> p = q"
  by (cases p; cases q) simp_all

end
