(* ===== verification/Apns.thy ===== *)
theory Apns
  imports Push_Vocab
begin

text \<open>
  \<open>internal/apns\<close>: the notification \<open>sendOne\<close> builds for a message and the status it makes
  of the gateway's answer. The client library (\<open>sideshow/apns2\<close>) is not part of the
  source: the calls the code makes on its payload builder are recorded as fields, and what
  \<open>PushWithContext\<close> returns is an argument (\<open>apns_answer\<close>), so that every theorem holds for
  every behaviour of the gateway.
\<close>

datatype PushType = PushTypeBackground | PushTypeAlert | PushTypeVOIP

datatype Priority = PriorityLow | PriorityHigh

record apns_payload =
  p_mutable_content :: bool
  p_custom :: "(bytes \<times> bytes) list"
  p_alert :: "bytes option"
  p_sound :: "bytes option"
  p_content_available :: bool

record Notification =
  n_DeviceToken :: bytes
  n_Topic :: bytes
  n_PushType :: PushType
  n_Priority :: Priority
  n_Payload :: apns_payload

datatype apns_reason =
    ReasonUnregistered
  | ReasonBadDeviceToken
  | ReasonExpiredToken
  | ReasonOther bytes

text \<open>What the client returns: an error, or a response with its \<open>Sent()\<close> and \<open>Reason\<close>.\<close>

datatype apns_answer = PushFailed | PushAnswered (answer_sent: bool) (answer_reason: apns_reason)

definition voipTopicSuffix :: bytes where "voipTopicSuffix = ''.voip''"

fun genericAlert :: "Kind \<Rightarrow> bytes option" where
  "genericAlert KindMessage = Some ''New message''"
| "genericAlert KindMention = Some ''You were mentioned''"
| "genericAlert _ = None"

record ApnsSender =
  as_bundleID :: bytes
  as_production :: bool

record ApnsConfig =
  ac_KeyPath :: bytes
  ac_KeyID :: bytes
  ac_TeamID :: bytes
  ac_BundleID :: bytes
  ac_Production :: bool

text \<open>\<open>New\<close>: \<open>load_key\<close> tells whether \<open>token.AuthKeyFromFile\<close> reads a key at the path.\<close>

definition apns_New :: "(bytes \<Rightarrow> bool) \<Rightarrow> ApnsConfig \<Rightarrow> ApnsSender option" where
  "apns_New load_key cfg =
     (if load_key (ac_KeyPath cfg)
      then Some \<lparr>as_bundleID = ac_BundleID cfg, as_production = ac_Production cfg\<rparr>
      else None)"

definition apns_notification :: "ApnsSender \<Rightarrow> Message \<Rightarrow> Notification" where
  "apns_notification s m =
     (let p = \<lparr>p_mutable_content = True,
               p_custom = [(''kind'', kind_str (m_Kind m)), (''payload'', m_Payload m)],
               p_alert = None, p_sound = None, p_content_available = False\<rparr>;
          n = \<lparr>n_DeviceToken = m_Token m, n_Topic = as_bundleID s,
               n_PushType = PushTypeBackground, n_Priority = PriorityLow, n_Payload = p\<rparr>;
          n1 = (case genericAlert (m_Kind m) of
                  Some alert \<Rightarrow>
                    n\<lparr>n_Payload := p\<lparr>p_alert := Some alert, p_sound := Some ''default''\<rparr>,
                      n_PushType := PushTypeAlert, n_Priority := PriorityHigh\<rparr>
                | None \<Rightarrow> n\<lparr>n_Payload := p\<lparr>p_content_available := True\<rparr>\<rparr>)
      in if m_Kind m = KindCall
         then n1\<lparr>n_Topic := as_bundleID s @ voipTopicSuffix,
                 n_PushType := PushTypeVOIP, n_Priority := PriorityHigh\<rparr>
         else n1)"

fun apns_status :: "apns_answer \<Rightarrow> Status" where
  "apns_status PushFailed = StatusError"
| "apns_status (PushAnswered sent reason) =
     (if sent then StatusDelivered
      else if reason = ReasonUnregistered \<or> reason = ReasonBadDeviceToken \<or> reason = ReasonExpiredToken
      then StatusUnregistered
      else StatusError)"

definition apns_sendOne :: "ApnsSender \<Rightarrow> apns_answer \<Rightarrow> Message \<Rightarrow> Status \<times> Notification" where
  "apns_sendOne s a m = (apns_status a, apns_notification s m)"

text \<open>
  \<open>Send\<close>: one result per message in order, together with the notifications handed to the
  client; \<open>a i\<close> is the client's answer to the i-th.
\<close>

fun apns_Send :: "ApnsSender \<Rightarrow> (nat \<Rightarrow> apns_answer) \<Rightarrow> Message list \<Rightarrow> Result list \<times> Notification list" where
  "apns_Send s a [] = ([], [])"
| "apns_Send s a (m # ms) =
     (case apns_sendOne s (a 0) m of (st, n) \<Rightarrow>
        case apns_Send s (\<lambda>i. a (Suc i)) ms of (rs, ns) \<Rightarrow>
          (\<lparr>r_Token = m_Token m, r_Status = st\<rparr> # rs, n # ns))"

lemma apns_status_provider [simp]: "provider_status (apns_status a)"
  by (cases a) auto

lemma apns_Send_tokens: "map r_Token (fst (apns_Send s a ms)) = map m_Token ms"
  by (induction ms arbitrary: a) (auto simp: apns_sendOne_def case_prod_unfold)

lemma apns_Send_notifications: "snd (apns_Send s a ms) = map (apns_notification s) ms"
  by (induction ms arbitrary: a) (auto simp: apns_sendOne_def case_prod_unfold)

lemma apns_Send_provider: "r \<in> set (fst (apns_Send s a ms)) \<Longrightarrow> provider_status (r_Status r)"
  by (induction ms arbitrary: a) (auto simp: apns_sendOne_def case_prod_unfold)

lemma apns_Send_statuses: "map r_Status (fst (apns_Send s a ms)) = map (\<lambda>i. apns_status (a i)) [0..<length ms]"
proof (induction ms arbitrary: a)
  case (Cons m ms)
  have "[0..<length (m # ms)] = 0 # map Suc [0..<length ms]" by (simp add: upt_conv_Cons map_Suc_upt del: upt_Suc)
  then show ?case by (simp add: apns_sendOne_def case_prod_unfold Cons.IH comp_def del: upt_Suc)
qed simp

lemmas apns_notification_simps = apns_notification_def Let_def voipTopicSuffix_def

lemma apns_notification_rules:
  "n_PushType (apns_notification s m) = PushTypeVOIP \<longleftrightarrow> m_Kind m = KindCall"
  "n_Topic (apns_notification s m) = (if m_Kind m = KindCall then as_bundleID s @ voipTopicSuffix else as_bundleID s)"
  "n_PushType (apns_notification s m) = PushTypeBackground \<longleftrightarrow> m_Kind m = KindWake"
  "n_Priority (apns_notification s m) = PriorityLow \<longleftrightarrow> m_Kind m = KindWake"
  "p_alert (n_Payload (apns_notification s m)) = genericAlert (m_Kind m)"
  "p_content_available (n_Payload (apns_notification s m)) \<longleftrightarrow> genericAlert (m_Kind m) = None"
  "n_DeviceToken (apns_notification s m) = m_Token m"
  "p_custom (n_Payload (apns_notification s m)) = [(''kind'', kind_str (m_Kind m)), (''payload'', m_Payload m)]"
  by (cases "m_Kind m"; simp add: apns_notification_def Let_def)+

section \<open>Properties\<close>

text \<open>
  C30: every push carries the message's token, its kind and its payload untouched, and no other data
  of the message. A call, and only a call, goes to the VoIP topic as a VoIP push; a wake,
  and only a wake, is a silent background push of low priority; a message or a mention shows
  the fixed alert of its kind at high priority, so that apart from the kind nothing about
  the content can show on the device.
\<close>

theorem apns_push_rules:
  "n_DeviceToken (apns_notification s m) = m_Token m \<and>
   p_custom (n_Payload (apns_notification s m)) = [(''kind'', kind_str (m_Kind m)), (''payload'', m_Payload m)] \<and>
   n_Topic (apns_notification s m) = (if m_Kind m = KindCall then as_bundleID s @ ''.voip'' else as_bundleID s) \<and>
   (n_PushType (apns_notification s m), n_Priority (apns_notification s m)) =
     (case m_Kind m of KindCall \<Rightarrow> (PushTypeVOIP, PriorityHigh) | KindWake \<Rightarrow> (PushTypeBackground, PriorityLow)
        | _ \<Rightarrow> (PushTypeAlert, PriorityHigh)) \<and>
   p_alert (n_Payload (apns_notification s m)) =
     (case m_Kind m of KindMessage \<Rightarrow> Some ''New message'' | KindMention \<Rightarrow> Some ''You were mentioned'' | _ \<Rightarrow> None) \<and>
   (p_content_available (n_Payload (apns_notification s m)) = (p_alert (n_Payload (apns_notification s m)) = None)) \<and>
   p_mutable_content (n_Payload (apns_notification s m))"
  by (cases "m_Kind m") (simp_all add: apns_notification_simps)

text \<open>
  C31: \<open>Send\<close> answers one result per message, in order and under the message's token. A token is
  reported as unregistered exactly when the gateway answered that it is unregistered, bad or
  expired; every other failure, and every error of the client, is an error the caller may
  retry.
\<close>

theorem apns_prunes_only_dead:
  "map r_Token (fst (apns_Send s a ms)) = map m_Token ms \<and>
   map r_Status (fst (apns_Send s a ms)) = map (\<lambda>i. case a i of
      PushFailed \<Rightarrow> StatusError
    | PushAnswered True _ \<Rightarrow> StatusDelivered
    | PushAnswered False reason \<Rightarrow>
        (if reason \<in> {ReasonUnregistered, ReasonBadDeviceToken, ReasonExpiredToken} then StatusUnregistered else StatusError))
     [0..<length ms]"
proof -
  have st: "apns_status x = (case x of
      PushFailed \<Rightarrow> StatusError
    | PushAnswered True _ \<Rightarrow> StatusDelivered
    | PushAnswered False reason \<Rightarrow>
        (if reason \<in> {ReasonUnregistered, ReasonBadDeviceToken, ReasonExpiredToken} then StatusUnregistered else StatusError))" for x
    by (auto split: apns_answer.split bool.split)
  have "map r_Status (fst (apns_Send s a ms)) = map (\<lambda>i. apns_status (a i)) [0..<length ms]"
    by (rule apns_Send_statuses)
  then show ?thesis unfolding st using apns_Send_tokens by blast
qed

end
