(* ===== verification/Go_Utf8.thy ===== *)
theory Go_Utf8
  imports Go_Strings
begin

text \<open>
  UTF-8 as \<open>unicode/utf8\<close> reads and writes it, and the string syntax of \<open>encoding/json\<close> on
  top: \<open>quote_body\<close> is \<open>appendString\<close> with HTML escaping, \<open>unquote_body\<close> is
  \<open>unquoteBytes\<close>, both without the enclosing quotes. The first writes any byte string, the
  second yields valid UTF-8 whatever it reads, and reading back what was written returns the
  string with every ill-formed byte replaced by U+FFFD (\<open>unquote_quote\<close>).
\<close>

section \<open>Well-formed sequences\<close>

definition between :: "nat \<Rightarrow> nat \<Rightarrow> char \<Rightarrow> bool" where
  "between lo hi c \<longleftrightarrow> lo \<le> byte_of c \<and> byte_of c \<le> hi"

text \<open>The \<open>n\<close> bytes after a lead byte, the first of them in a range of its own.\<close>

definition conts :: "nat \<Rightarrow> nat \<Rightarrow> nat \<Rightarrow> bytes \<Rightarrow> bool" where
  "conts lo hi n cs \<longleftrightarrow> n \<le> length cs \<and> between lo hi (hd cs) \<and> list_all (between 128 191) (take (n - 1) (tl cs))"

text \<open>
  What a lead byte promises, as the tables \<open>first\<close> and \<open>acceptRanges\<close> have it: the range of
  the second byte and the number of bytes to follow.
\<close>

definition lead_class :: "char \<Rightarrow> (nat \<times> nat \<times> nat) option" where
  "lead_class c =
     (let b = byte_of c in
      if b < 194 then None
      else if b < 224 then Some (128, 191, 1)
      else if b = 224 then Some (160, 191, 2)
      else if b = 237 then Some (128, 159, 2)
      else if b < 240 then Some (128, 191, 2)
      else if b = 240 then Some (144, 191, 3)
      else if b < 244 then Some (128, 191, 3)
      else if b = 244 then Some (128, 143, 3)
      else None)"

text \<open>
  \<open>DecodeRune\<close> on the lead byte \<open>c\<close> followed by \<open>cs\<close>: how many bytes follow the lead, or
  \<open>None\<close> where it returns the error rune of width one.
\<close>

definition utf8_more :: "char \<Rightarrow> bytes \<Rightarrow> nat option" where
  "utf8_more c cs = (case lead_class c of
      None \<Rightarrow> None
    | Some (lo, hi, n) \<Rightarrow> if conts lo hi n cs then Some n else None)"

abbreviation ascii :: "char \<Rightarrow> bool" where
  "ascii c \<equiv> byte_of c < 128"

definition rune_error :: bytes where
  "rune_error = map char_of [239, 191, 189 :: nat]"

fun utf8_ok :: "bytes \<Rightarrow> bool" where
  "utf8_ok [] \<longleftrightarrow> True"
| "utf8_ok (c # cs) \<longleftrightarrow>
     (if ascii c then utf8_ok cs
      else case utf8_more c cs of None \<Rightarrow> False | Some n \<Rightarrow> utf8_ok (drop n cs))"

text \<open>Every ill-formed byte replaced by the encoding of U+FFFD.\<close>

fun to_valid :: "bytes \<Rightarrow> bytes" where
  "to_valid [] = []"
| "to_valid (c # cs) =
     (if ascii c then c # to_valid cs
      else case utf8_more c cs of
             None \<Rightarrow> rune_error @ to_valid cs
           | Some n \<Rightarrow> c # take n cs @ to_valid (drop n cs))"

definition encode_rune :: "nat \<Rightarrow> bytes" where
  "encode_rune r = map char_of
     (if r < 128 then [r]
      else if r < 2048 then [192 + r div 64, 128 + r mod 64]
      else if r < 65536 then [224 + r div 4096, 128 + r div 64 mod 64, 128 + r mod 64]
      else [240 + r div 262144, 128 + r div 4096 mod 64, 128 + r div 64 mod 64, 128 + r mod 64])"

section \<open>The string syntax of JSON\<close>

abbreviation bslash :: char where "bslash \<equiv> CHR 0x5C"
abbreviation dquote :: char where "dquote \<equiv> CHR 0x22"

definition hex_digit :: "nat \<Rightarrow> char" where
  "hex_digit d = ''0123456789abcdef'' ! d"

definition esc_ascii :: "char \<Rightarrow> bytes" where
  "esc_ascii c =
     (if c = bslash \<or> c = dquote then [bslash, c]
      else if byte_of c = 8 then [bslash, CHR ''b'']
      else if byte_of c = 12 then [bslash, CHR ''f'']
      else if byte_of c = 10 then [bslash, CHR ''n'']
      else if byte_of c = 13 then [bslash, CHR ''r'']
      else if byte_of c = 9 then [bslash, CHR ''t'']
      else if byte_of c < 32 \<or> c \<in> {CHR ''<'', CHR ''>'', CHR ''&''}
      then [bslash, CHR ''u'', CHR ''0'', CHR ''0'', hex_digit (byte_of c div 16), hex_digit (byte_of c mod 16)]
      else [c])"

definition line_sep :: "bytes \<Rightarrow> bytes option" where
  "line_sep s =
     (if s = map char_of [226, 128, 168 :: nat] then Some (bslash # ''u2028'')
      else if s = map char_of [226, 128, 169 :: nat] then Some (bslash # ''u2029'')
      else None)"

fun quote_body :: "bytes \<Rightarrow> bytes" where
  "quote_body [] = []"
| "quote_body (c # cs) =
     (if ascii c then esc_ascii c @ quote_body cs
      else case utf8_more c cs of
             None \<Rightarrow> bslash # ''ufffd'' @ quote_body cs
           | Some n \<Rightarrow>
               (case line_sep (c # take n cs) of Some e \<Rightarrow> e | None \<Rightarrow> c # take n cs) @ quote_body (drop n cs))"

definition is_hex :: "char \<Rightarrow> bool" where
  "is_hex c \<longleftrightarrow> is_digit c \<or> between 97 102 c \<or> between 65 70 c"

definition hex_val :: "char \<Rightarrow> nat" where
  "hex_val c = (if is_digit c then byte_of c - 48 else if between 97 102 c then byte_of c - 87
     else if between 65 70 c then byte_of c - 55 else 0)"

definition hex4 :: "bytes \<Rightarrow> nat" where
  "hex4 s = foldl (\<lambda>v c. 16 * v + hex_val c) 0 (take 4 s)"

definition simple_escape :: "char \<Rightarrow> bytes" where
  "simple_escape e =
     (if e = CHR ''b'' then [char_of (8 :: nat)] else if e = CHR ''f'' then [char_of (12 :: nat)]
      else if e = CHR ''n'' then [char_of (10 :: nat)] else if e = CHR ''r'' then [char_of (13 :: nat)]
      else if e = CHR ''t'' then [char_of (9 :: nat)]
      else if e \<in> {dquote, bslash, CHR ''/''} then [e] else [])"

text \<open>
  The escape whose four digits open \<open>r\<close>: the bytes it stands for, and how many bytes after
  the backslash it takes. A high surrogate followed by an escaped low one is one code point;
  any other surrogate is U+FFFD.
\<close>

definition u_escape :: "bytes \<Rightarrow> bytes \<times> nat" where
  "u_escape r =
     (let u = hex4 r; q = drop 4 r; u2 = hex4 (drop 2 q) in
      if 55296 \<le> u \<and> u < 57344 then
        if u < 56320 \<and> 6 \<le> length q \<and> q ! 0 = bslash \<and> q ! 1 = CHR ''u'' \<and> list_all is_hex (take 4 (drop 2 q))
           \<and> 56320 \<le> u2 \<and> u2 < 57344
        then (encode_rune (65536 + (u - 55296) * 1024 + (u2 - 56320)), 11)
        else (rune_error, 5)
      else (encode_rune u, 5))"

definition next_piece :: "char \<Rightarrow> bytes \<Rightarrow> bytes \<times> nat" where
  "next_piece c cs =
     (if c = bslash then
        (case cs of
           [] \<Rightarrow> ([], 0)
         | e # r \<Rightarrow> if e = CHR ''u'' then u_escape r else (simple_escape e, 1))
      else if ascii c then ([c], 0)
      else case utf8_more c cs of None \<Rightarrow> (rune_error, 0) | Some n \<Rightarrow> (c # take n cs, n))"

fun unquote_body :: "bytes \<Rightarrow> bytes" where
  "unquote_body [] = []"
| "unquote_body (c # cs) = fst (next_piece c cs) @ unquote_body (drop (snd (next_piece c cs)) cs)"

declare unquote_body.simps(2) [simp del] quote_body.simps(2) [simp del]

section \<open>Lemmas\<close>

lemma byte_of_char_of [simp]: "n < 256 \<Longrightarrow> byte_of (char_of n :: char) = n"
  by simp

lemma between_char_of [simp]: "n < 256 \<Longrightarrow> between lo hi (char_of n) \<longleftrightarrow> lo \<le> n \<and> n \<le> hi"
  by (simp add: between_def)

lemma conts_append: "conts lo hi n cs \<Longrightarrow> 0 < n \<Longrightarrow> conts lo hi n (take n cs @ ds)"
  by (cases cs; cases n) (auto simp: conts_def)

lemma lead_class_bounds:
  assumes "lead_class c = Some (lo, hi, n)"
  shows "0 < n" "n \<le> 3" "128 \<le> lo" "194 \<le> byte_of c"
  using assms by (auto simp: lead_class_def Let_def split: if_splits)

lemma utf8_more_SomeE:
  assumes "utf8_more c cs = Some n"
  obtains lo hi where "lead_class c = Some (lo, hi, n)" "conts lo hi n cs"
  using assms that by (auto simp: utf8_more_def split: option.splits if_splits)

lemma utf8_more_bounds: "utf8_more c cs = Some n \<Longrightarrow> 0 < n \<and> n \<le> 3 \<and> n \<le> length cs"
  by (elim utf8_more_SomeE) (auto simp: conts_def dest: lead_class_bounds)

lemma utf8_more_not_ascii: "utf8_more c cs = Some n \<Longrightarrow> 194 \<le> byte_of c"
  by (elim utf8_more_SomeE) (rule lead_class_bounds)

text \<open>Only the bytes of the sequence itself are looked at.\<close>

lemma utf8_more_local: "utf8_more c cs = Some n \<Longrightarrow> utf8_more c (take n cs @ ds) = Some n"
  by (elim utf8_more_SomeE) (auto simp: utf8_more_def conts_append dest: lead_class_bounds)

lemma utf8_more_append: "utf8_more c cs = Some n \<Longrightarrow> utf8_more c (cs @ ds) = Some n"
  using utf8_more_local[of c cs n "drop n cs @ ds"] by (simp flip: append_assoc)

lemma conts_upper: "conts lo hi n cs \<Longrightarrow> 128 \<le> lo \<Longrightarrow> 0 < n \<Longrightarrow> d \<in> set (take n cs) \<Longrightarrow> 128 \<le> byte_of d"
  by (cases cs; cases n) (auto simp: conts_def between_def list_all_iff)

lemma utf8_more_upper: "utf8_more c cs = Some n \<Longrightarrow> d \<in> set (take n cs) \<Longrightarrow> 128 \<le> byte_of d"
  by (elim utf8_more_SomeE) (meson conts_upper lead_class_bounds)

lemma utf8_ok_append: "utf8_ok s \<Longrightarrow> utf8_ok t \<Longrightarrow> utf8_ok (s @ t)"
proof (induction s rule: utf8_ok.induct)
  case (2 c cs)
  show ?case
  proof (cases "ascii c")
    case False
    then obtain n where n: "utf8_more c cs = Some n" "utf8_ok (drop n cs)"
      using "2.prems" by (auto split: option.splits)
    then show ?thesis using False "2.IH"(2)[OF False n(1)] "2.prems" utf8_more_append[OF n(1)] utf8_more_bounds[OF n(1)]
      by simp
  qed (use 2 in simp)
qed simp

lemma utf8_ok_seq: "utf8_more c cs = Some n \<Longrightarrow> utf8_ok (c # take n cs)"
  using utf8_more_local[of c cs n "[]"] utf8_more_not_ascii[of c cs n] by simp

lemma to_valid_id: "utf8_ok s \<Longrightarrow> to_valid s = s"
  by (induction s rule: utf8_ok.induct) (auto split: option.splits)

lemma rune_error_ok [simp]: "utf8_ok rune_error"
  by (simp add: rune_error_def utf8_more_def lead_class_def conts_def)

lemma to_valid_ok: "utf8_ok (to_valid s)"
proof (induction s rule: to_valid.induct)
  case (2 c cs)
  then show ?case
    using utf8_ok_append[OF utf8_ok_seq] utf8_ok_append[OF rune_error_ok] by (fastforce split: option.split)
qed simp

lemma mod64: "(q :: nat) div 64 = k \<Longrightarrow> q mod 64 = q - 64 * k \<and> 64 * k \<le> q \<and> q < 64 * k + 64"
  by (metis add_diff_cancel_left' dividend_less_times_div le_add1 mult_div_mod_eq mult_Suc_right add.commute zero_less_numeral)

lemma utf8_seq2: "2 \<le> a \<Longrightarrow> a < 32 \<Longrightarrow> x < 64 \<Longrightarrow> utf8_ok (map char_of [192 + a, 128 + x :: nat])"
  by (simp add: utf8_more_def lead_class_def conts_def)

lemma utf8_seq3:
  assumes "a < 16" "x < 64" "y < 64" "a = 0 \<longrightarrow> 32 \<le> x" "a = 13 \<longrightarrow> x < 32"
  shows "utf8_ok (map char_of [224 + a, 128 + x, 128 + y :: nat])"
  using assms by (auto simp: utf8_more_def lead_class_def conts_def Let_def)

lemma utf8_seq4:
  assumes "a < 5" "x < 64" "y < 64" "z < 64" "a = 0 \<longrightarrow> 16 \<le> x" "a = 4 \<longrightarrow> x < 16"
  shows "utf8_ok (map char_of [240 + a, 128 + x, 128 + y, 128 + z :: nat])"
  using assms by (auto simp: utf8_more_def lead_class_def conts_def Let_def)

lemma encode_rune_ok:
  assumes "r < 1114112" "\<not> (55296 \<le> r \<and> r < 57344)"
  shows "utf8_ok (encode_rune r)"
proof -
  consider "r < 128" | "128 \<le> r" "r < 2048" | "2048 \<le> r" "r < 65536" | "65536 \<le> r" by linarith
  then show ?thesis
  proof cases
    case 2
    then show ?thesis using utf8_seq2[of "r div 64" "r mod 64"] by (simp add: encode_rune_def)
  next
    case 3
    have q: "r div 4096 = r div 64 div 64" by (simp add: div_mult2_eq[symmetric])
    have "32 \<le> r div 64" "r div 64 < 864 \<or> 896 \<le> r div 64" using 3 assms(2) by auto
    then have "r div 4096 = 0 \<longrightarrow> 32 \<le> r div 64 mod 64" "r div 4096 = 13 \<longrightarrow> r div 64 mod 64 < 32"
      using mod64[of "r div 64" 0] mod64[of "r div 64" 13] unfolding q by auto
    then show ?thesis
      using utf8_seq3[of "r div 4096" "r div 64 mod 64" "r mod 64"] 3 by (simp add: encode_rune_def)
  next
    case 4
    have q: "r div 262144 = r div 4096 div 64" by (simp add: div_mult2_eq[symmetric])
    have "16 \<le> r div 4096" "r div 4096 < 272" using 4 assms(1) by auto
    then have "r div 262144 = 0 \<longrightarrow> 16 \<le> r div 4096 mod 64" "r div 262144 = 4 \<longrightarrow> r div 4096 mod 64 < 16"
      using mod64[of "r div 4096" 0] mod64[of "r div 4096" 4] unfolding q by auto
    then show ?thesis
      using utf8_seq4[of "r div 262144" "r div 4096 mod 64" "r div 64 mod 64" "r mod 64"] 4 assms(1)
      by (simp add: encode_rune_def)
  qed (simp add: encode_rune_def)
qed

section \<open>Reading a string\<close>

lemma hex_val_bound: "hex_val c < 16"
  by (auto simp: hex_val_def is_digit_def between_def)

lemma hex4_bound: "hex4 s < 65536"
proof -
  have f: "foldl (\<lambda>v c. 16 * v + hex_val c) v t < (v + 1) * 16 ^ length t" for v t
  proof (induction t arbitrary: v)
    case (Cons c t)
    have "foldl (\<lambda>v c. 16 * v + hex_val c) (16 * v + hex_val c) t < (16 * v + hex_val c + 1) * 16 ^ length t"
      by (rule Cons.IH)
    also have "\<dots> \<le> ((v + 1) * 16) * 16 ^ length t" using hex_val_bound[of c] by (intro mult_right_mono) auto
    finally show ?case by (simp add: algebra_simps)
  qed simp
  have "hex4 s < 16 ^ length (take 4 s)" using f[of 0 "take 4 s"] by (simp add: hex4_def)
  also have "\<dots> \<le> 16 ^ 4" by (intro power_increasing) auto
  finally show ?thesis by simp
qed

lemma u_escape_ok: "utf8_ok (fst (u_escape r))"
proof -
  define u where "u = hex4 r"
  define v where "v = hex4 (drop 2 (drop 4 r))"
  have "utf8_ok (encode_rune u)" if "\<not> (55296 \<le> u \<and> u < 57344)"
    using that hex4_bound[of r] by (intro encode_rune_ok) (auto simp: u_def)
  moreover have "utf8_ok (encode_rune (65536 + (u - 55296) * 1024 + (v - 56320)))"
    if "55296 \<le> u" "u < 56320" "56320 \<le> v" "v < 57344"
    using that by (intro encode_rune_ok) auto
  ultimately show ?thesis unfolding u_escape_def Let_def u_def[symmetric] v_def[symmetric] by simp
qed

lemma simple_escape_ok: "utf8_ok (simple_escape e)"
  by (simp add: simple_escape_def)

lemma next_piece_ok: "utf8_ok (fst (next_piece c cs))"
proof (cases "c = bslash")
  case True
  then show ?thesis by (cases cs) (simp_all add: next_piece_def u_escape_ok simple_escape_ok)
next
  case False
  then show ?thesis
    using utf8_ok_seq[of c cs] by (cases "utf8_more c cs") (simp_all add: next_piece_def)
qed

lemma unquote_ok: "utf8_ok (unquote_body s)"
  by (induction s rule: unquote_body.induct) (simp_all add: unquote_body.simps(2) utf8_ok_append next_piece_ok)

section \<open>Reading back what was written\<close>

lemma unquote_seq:
  assumes "utf8_more c cs = Some n"
  shows "unquote_body (c # take n cs @ t) = c # take n cs @ unquote_body t"
proof -
  have "\<not> ascii c" using utf8_more_not_ascii[OF assms] by simp
  then have "c \<noteq> bslash" by auto
  then have "next_piece c (take n cs @ t) = (c # take n cs, n)"
    using \<open>\<not> ascii c\<close> utf8_more_local[OF assms] utf8_more_bounds[OF assms] by (simp add: next_piece_def)
  then show ?thesis using utf8_more_bounds[OF assms] by (simp add: unquote_body.simps(2))
qed

lemma unquote_u:
  assumes "length d = 4" "\<not> (55296 \<le> hex4 d \<and> hex4 d < 57344)"
  shows "unquote_body (bslash # CHR ''u'' # d @ t) = encode_rune (hex4 d) @ unquote_body t"
proof -
  have "hex4 (d @ t) = hex4 d" using assms(1) by (simp add: hex4_def)
  then have "next_piece bslash (CHR ''u'' # d @ t) = (encode_rune (hex4 d), 5)"
    using assms(2) by (auto simp: next_piece_def u_escape_def Let_def)
  then show ?thesis using assms(1) by (simp add: unquote_body.simps(2))
qed

lemma unquote_simple: "e \<noteq> CHR ''u'' \<Longrightarrow> unquote_body (bslash # e # t) = simple_escape e @ unquote_body t"
  by (simp add: unquote_body.simps(2) next_piece_def)

lemma unquote_plain: "ascii c \<Longrightarrow> c \<noteq> bslash \<Longrightarrow> unquote_body (c # t) = c # unquote_body t"
  by (simp add: unquote_body.simps(2) next_piece_def)

lemma hex_digits_vals: "map hex_val ''0123456789abcdef'' = [0..<16]"
  by (simp add: hex_val_def is_digit_def between_def upt_rec)

lemma hex_digit_val:
  assumes "d < 16"
  shows "hex_val (hex_digit d) = d"
proof -
  have "hex_val (hex_digit d) = map hex_val ''0123456789abcdef'' ! d"
    unfolding hex_digit_def using assms by (intro nth_map[symmetric]) simp
  also have "\<dots> = d" unfolding hex_digits_vals using assms by simp
  finally show ?thesis .
qed

lemma unquote_hex:
  assumes "ascii c"
  shows "unquote_body ([bslash, CHR ''u'', CHR ''0'', CHR ''0'', hex_digit (byte_of c div 16), hex_digit (byte_of c mod 16)] @ t)
    = c # unquote_body t"
proof -
  let ?d = "[CHR ''0'', CHR ''0'', hex_digit (byte_of c div 16), hex_digit (byte_of c mod 16)]"
  have "hex_val CHR ''0'' = 0" by (simp add: hex_val_def is_digit_def)
  then have "hex4 ?d = byte_of c" using assms by (simp add: hex4_def hex_digit_val)
  then show ?thesis using unquote_u[of ?d t] assms by (simp add: encode_rune_def)
qed

lemma char_by_code: "byte_of c = n \<Longrightarrow> char_of n = c"
  by auto

lemma unquote_esc: "ascii c \<Longrightarrow> unquote_body (esc_ascii c @ t) = c # unquote_body t"
  using unquote_hex[of c t]
  by (auto simp: esc_ascii_def unquote_simple simple_escape_def unquote_plain char_by_code)

lemma unquote_line_sep: "line_sep s = Some e \<Longrightarrow> unquote_body (e @ t) = s @ unquote_body t"
  using unquote_u[of "''2028''" t] unquote_u[of "''2029''" t]
  by (auto simp: line_sep_def hex4_def hex_val_def is_digit_def encode_rune_def split: if_splits)

lemma unquote_quote: "unquote_body (quote_body s) = to_valid s"
proof (induction s rule: to_valid.induct)
  case (2 c cs)
  consider "ascii c" | "\<not> ascii c" "utf8_more c cs = None"
    | n where "\<not> ascii c" "utf8_more c cs = Some n" by (cases "utf8_more c cs") auto
  then show ?case
  proof cases
    case 1
    then show ?thesis using 2 by (simp add: quote_body.simps(2) unquote_esc)
  next
    case 2
    then show ?thesis using "2.IH"(2) unquote_u[of "''fffd''" "quote_body cs"]
      by (simp add: quote_body.simps(2) hex4_def hex_val_def is_digit_def between_def encode_rune_def rune_error_def)
  next
    case (3 n)
    then show ?thesis using "2.IH" unquote_line_sep[of "c # take n cs"] unquote_seq[OF 3(2)]
      by (cases "line_sep (c # take n cs)") (simp_all add: quote_body.simps(2))
  qed
qed simp

end
