(* ===== verification/Go_Json.thy ===== *)
theory Go_Json
  imports Go_Utf8
begin

text \<open>
  \<open>encoding/json\<close> as the relay uses it.

  \<^item> \<open>jstep\<close> is the scanner, one byte at a time over a stack of open brackets, with the
    states of \<open>scanner.go\<close>; it builds the value while it reads. \<open>json_decode\<close> is one
    \<open>Decoder.Decode\<close> over a body cut off by \<open>http.MaxBytesReader\<close>, \<open>json_value\<close> the
    syntax check of \<open>json.Unmarshal\<close>.
  \<^item> \<open>fill\<close> stores a value into a Go variable of strings, structs and slices, described by
    a \<open>schema\<close>: field names match exactly or by case folding, \<open>null\<close> leaves strings and
    structs alone, a repeated field is stored over what the first one left, and a slice
    reuses the elements it already has.
  \<^item> \<open>json_text\<close> is the compact text \<open>Marshal\<close> writes, HTML escaping included.
\<close>

datatype json =
    JNull
  | JBool bool
  | JNum bytes
  | JStr bytes
  | JArr "json list"
  | JObj "(bytes \<times> json) list"

section \<open>The scanner\<close>

datatype frame =
    ObjectKey "(bytes \<times> json) list"
  | ObjectValue "(bytes \<times> json) list" bytes
  | ArrayValue "json list"

datatype num_state = NumNeg | Num1 | Num0 | NumDot | NumDot0 | NumE | NumESign | NumE0

datatype scan_state =
    BeginValue
  | BeginValueOrEmpty
  | BeginString
  | BeginStringOrEmpty
  | EndValue json
  | InString bytes
  | InStringEsc bytes
  | InStringEscU nat bytes
  | InNumber num_state bytes
  | InLiteral bytes json

datatype scan_result =
    More scan_state "frame list"
  | Closed json
  | Ended json
  | ScanError

definition is_space :: "char \<Rightarrow> bool" where
  "is_space c \<longleftrightarrow> byte_of c \<in> {32, 9, 13, 10}"

definition maxNestingDepth :: nat where "maxNestingDepth = 10000"

definition pushParseState :: "frame \<Rightarrow> scan_state \<Rightarrow> frame list \<Rightarrow> scan_result" where
  "pushParseState f s stk = (if length stk < maxNestingDepth then More s (f # stk) else ScanError)"

definition popParseState :: "json \<Rightarrow> frame list \<Rightarrow> scan_result" where
  "popParseState v stk = (if stk = [] then Closed v else More (EndValue v) stk)"

fun stateEndValue :: "char \<Rightarrow> json \<Rightarrow> frame list \<Rightarrow> scan_result" where
  "stateEndValue c v [] = Ended v"
| "stateEndValue c v (f # stk) =
     (if is_space c then More (EndValue v) (f # stk)
      else case f of
             ObjectKey ms \<Rightarrow>
               (case v of JStr k \<Rightarrow> if c = CHR '':'' then More BeginValue (ObjectValue ms k # stk) else ScanError
                | _ \<Rightarrow> ScanError)
           | ObjectValue ms k \<Rightarrow>
               if c = CHR '','' then More BeginString (ObjectKey (ms @ [(k, v)]) # stk)
               else if c = CHR ''}'' then popParseState (JObj (ms @ [(k, v)])) stk
               else ScanError
           | ArrayValue vs \<Rightarrow>
               if c = CHR '','' then More BeginValue (ArrayValue (vs @ [v]) # stk)
               else if c = CHR '']'' then popParseState (JArr (vs @ [v])) stk
               else ScanError)"

definition stateBeginString :: "char \<Rightarrow> frame list \<Rightarrow> scan_result" where
  "stateBeginString c stk =
     (if is_space c then More BeginString stk
      else if c = dquote then More (InString []) stk
      else ScanError)"

definition stateBeginValue :: "char \<Rightarrow> frame list \<Rightarrow> scan_result" where
  "stateBeginValue c stk =
     (if is_space c then More BeginValue stk
      else if c = CHR ''{'' then pushParseState (ObjectKey []) BeginStringOrEmpty stk
      else if c = CHR ''['' then pushParseState (ArrayValue []) BeginValueOrEmpty stk
      else if c = dquote then More (InString []) stk
      else if c = CHR ''-'' then More (InNumber NumNeg [c]) stk
      else if c = CHR ''0'' then More (InNumber Num0 [c]) stk
      else if c = CHR ''t'' then More (InLiteral ''rue'' (JBool True)) stk
      else if c = CHR ''f'' then More (InLiteral ''alse'' (JBool False)) stk
      else if c = CHR ''n'' then More (InLiteral ''ull'' JNull) stk
      else if is_digit c then More (InNumber Num1 [c]) stk
      else ScanError)"

text \<open>One byte of a number: it goes on, the byte is the first behind it, or the number is cut short.\<close>

datatype num_step = NumGo num_state | NumStop | NumError

fun number_step :: "num_state \<Rightarrow> char \<Rightarrow> num_step" where
  "number_step NumNeg c = (if c = CHR ''0'' then NumGo Num0 else if is_digit c then NumGo Num1 else NumError)"
| "number_step Num1 c = (if is_digit c then NumGo Num1 else if c = CHR ''.'' then NumGo NumDot
     else if c = CHR ''e'' \<or> c = CHR ''E'' then NumGo NumE else NumStop)"
| "number_step Num0 c = (if c = CHR ''.'' then NumGo NumDot
     else if c = CHR ''e'' \<or> c = CHR ''E'' then NumGo NumE else NumStop)"
| "number_step NumDot c = (if is_digit c then NumGo NumDot0 else NumError)"
| "number_step NumDot0 c = (if is_digit c then NumGo NumDot0
     else if c = CHR ''e'' \<or> c = CHR ''E'' then NumGo NumE else NumStop)"
| "number_step NumE c = (if c = CHR ''+'' \<or> c = CHR ''-'' then NumGo NumESign
     else if is_digit c then NumGo NumE0 else NumError)"
| "number_step NumESign c = (if is_digit c then NumGo NumE0 else NumError)"
| "number_step NumE0 c = (if is_digit c then NumGo NumE0 else NumStop)"

fun jstep :: "char \<Rightarrow> scan_state \<Rightarrow> frame list \<Rightarrow> scan_result" where
  "jstep c BeginValue stk = stateBeginValue c stk"
| "jstep c BeginValueOrEmpty stk =
     (if is_space c then More BeginValueOrEmpty stk
      else if c = CHR '']'' then popParseState (JArr []) (tl stk)
      else stateBeginValue c stk)"
| "jstep c BeginString stk = stateBeginString c stk"
| "jstep c BeginStringOrEmpty stk =
     (if is_space c then More BeginStringOrEmpty stk
      else if c = CHR ''}'' then popParseState (JObj []) (tl stk)
      else stateBeginString c stk)"
| "jstep c (EndValue v) stk = stateEndValue c v stk"
| "jstep c (InString raw) stk =
     (if c = dquote then More (EndValue (JStr (unquote_body raw))) stk
      else if c = bslash then More (InStringEsc (raw @ [c])) stk
      else if byte_of c < 32 then ScanError
      else More (InString (raw @ [c])) stk)"
| "jstep c (InStringEsc raw) stk =
     (if c \<in> {CHR ''b'', CHR ''f'', CHR ''n'', CHR ''r'', CHR ''t'', bslash, CHR ''/'', dquote}
      then More (InString (raw @ [c])) stk
      else if c = CHR ''u'' then More (InStringEscU 3 (raw @ [c])) stk
      else ScanError)"
| "jstep c (InStringEscU n raw) stk =
     (if is_hex c
      then More (case n of 0 \<Rightarrow> InString (raw @ [c]) | Suc m \<Rightarrow> InStringEscU m (raw @ [c])) stk
      else ScanError)"
| "jstep c (InNumber s raw) stk =
     (case number_step s c of
        NumGo s' \<Rightarrow> More (InNumber s' (raw @ [c])) stk
      | NumStop \<Rightarrow> stateEndValue c (JNum raw) stk
      | NumError \<Rightarrow> ScanError)"
| "jstep c (InLiteral [] v) stk = ScanError"
| "jstep c (InLiteral [x] v) stk = (if c = x then More (EndValue v) stk else ScanError)"
| "jstep c (InLiteral (x # y # r) v) stk = (if c = x then More (InLiteral (y # r) v) stk else ScanError)"

text \<open>
  The scanner over a text: a complete value and the bytes after it, a syntax error, or the
  state it is left in when the text ends first. A top-level object or array is complete at
  its closing bracket, any other top-level value at the first byte behind it.
\<close>

datatype scan_out = Value json bytes | Pending scan_state "frame list" | SyntaxError

fun jrun :: "bytes \<Rightarrow> scan_state \<Rightarrow> frame list \<Rightarrow> scan_out" where
  "jrun [] s stk = Pending s stk"
| "jrun (c # cs) s stk = (case jstep c s stk of
     More s' stk' \<Rightarrow> jrun cs s' stk'
   | Closed v \<Rightarrow> Value v cs
   | Ended v \<Rightarrow> Value v (c # cs)
   | ScanError \<Rightarrow> SyntaxError)"

text \<open>At the end of the text the scanner is fed one more space.\<close>

definition at_eof :: "scan_state \<Rightarrow> frame list \<Rightarrow> json option" where
  "at_eof s stk = (case jstep CHR '' '' s stk of Ended v \<Rightarrow> Some v | _ \<Rightarrow> None)"

datatype decode_error = EOF | Malformed

text \<open>
  \<open>Decoder.Decode\<close>, up to the value: of \<open>body\<close> only the first \<open>maxBytes\<close> bytes are seen. If
  the value is not complete within them, an \<open>io.EOF\<close> of the reader ends it; a longer body
  makes \<open>MaxBytesReader\<close> fail there instead, and a broken connection (\<open>broken\<close>) is another
  error. Nothing but white space before a clean end is \<open>io.EOF\<close>.
\<close>

definition json_decode :: "nat \<Rightarrow> bool \<Rightarrow> bytes \<Rightarrow> decode_error + json" where
  "json_decode maxBytes broken body =
     (let seen = take maxBytes body in
      case jrun seen BeginValue [] of
        Value v _ \<Rightarrow> Inr v
      | SyntaxError \<Rightarrow> Inl Malformed
      | Pending s stk \<Rightarrow>
          if broken \<or> maxBytes < length body then Inl Malformed
          else (case at_eof s stk of
                  Some v \<Rightarrow> Inr v
                | None \<Rightarrow> if list_all is_space seen then Inl EOF else Inl Malformed))"

text \<open>\<open>json.Unmarshal\<close>, up to the value: only white space may follow it.\<close>

definition json_value :: "bytes \<Rightarrow> json option" where
  "json_value text = (case jrun text BeginValue [] of
      Value v rest \<Rightarrow> if list_all is_space rest then Some v else None
    | SyntaxError \<Rightarrow> None
    | Pending s stk \<Rightarrow> at_eof s stk)"

section \<open>Storing into Go variables\<close>

datatype schema = SString | SStruct "(bytes \<times> schema) list" | SSlice schema

text \<open>
  The value of a variable. A slice has its backing elements and its length: elements past
  the length keep what was stored there before.
\<close>

datatype gval = GString bytes | GStruct "gval list" | GSlice "gval list" nat

fun zero_of :: "schema \<Rightarrow> gval" where
  "zero_of SString = GString []"
| "zero_of (SStruct fs) = GStruct (map (\<lambda>(_, s). zero_of s) fs)"
| "zero_of (SSlice e) = GSlice [] 0"

text \<open>
  \<open>foldName\<close>, as far as it decides equality with an ASCII name: ASCII letters go to upper
  case, and of the other runes only the Kelvin sign and the long s fold to ASCII letters.
\<close>

fun foldName :: "bytes \<Rightarrow> bytes" where
  "foldName [] = []"
| "foldName (c # cs) =
     (if between 97 122 c then char_of (byte_of c - 32) # foldName cs
      else if map byte_of (c # take 2 cs) = [226, 132, 170] then CHR ''K'' # foldName (drop 2 cs)
      else if map byte_of (c # take 1 cs) = [197, 191] then CHR ''S'' # foldName (drop 1 cs)
      else c # foldName cs)"

fun index_where :: "('a \<Rightarrow> bool) \<Rightarrow> 'a list \<Rightarrow> nat option" where
  "index_where P [] = None"
| "index_where P (x # xs) = (if P x then Some 0 else map_option Suc (index_where P xs))"

definition field_of :: "(bytes \<times> schema) list \<Rightarrow> bytes \<Rightarrow> nat option" where
  "field_of fs key = (case index_where (\<lambda>(n, _). n = key) fs of
      Some i \<Rightarrow> Some i
    | None \<Rightarrow> index_where (\<lambda>(n, _). foldName n = foldName key) fs)"

text \<open>
  \<open>d.value\<close>: \<open>None\<close> when an error is reported, for a value of the wrong type or, with
  \<open>DisallowUnknownFields\<close> (\<open>strict\<close>), for a name that is no field.
\<close>

fun fill :: "bool \<Rightarrow> schema \<Rightarrow> json \<Rightarrow> gval \<Rightarrow> gval option"
  and fill_members :: "bool \<Rightarrow> (bytes \<times> schema) list \<Rightarrow> (bytes \<times> json) list \<Rightarrow> gval list \<Rightarrow> gval list option"
  and fill_elems :: "bool \<Rightarrow> schema \<Rightarrow> json list \<Rightarrow> gval list \<Rightarrow> gval list option"
where
  "fill strict (SSlice e) JNull g = Some (GSlice [] 0)"
| "fill strict t JNull g = Some g"
| "fill strict SString (JStr s) g = Some (GString s)"
| "fill strict (SStruct fs) (JObj ms) (GStruct vs) = map_option GStruct (fill_members strict fs ms vs)"
| "fill strict (SSlice e) (JArr []) g = Some (GSlice [] 0)"
| "fill strict (SSlice e) (JArr (j # js)) (GSlice old n) =
     map_option (\<lambda>vs. GSlice vs (Suc (length js))) (fill_elems strict e (j # js) old)"
| "fill strict t j g = None"
| "fill_members strict fs [] vs = Some vs"
| "fill_members strict fs ((k, j) # ms) vs = (case field_of fs k of
     None \<Rightarrow> if strict then None else fill_members strict fs ms vs
   | Some i \<Rightarrow>
       (case fill strict (snd (fs ! i)) j (vs ! i) of
          None \<Rightarrow> None
        | Some v \<Rightarrow> fill_members strict fs ms (vs[i := v])))"
| "fill_elems strict e [] old = Some old"
| "fill_elems strict e (j # js) old =
     (case fill strict e j (case old of [] \<Rightarrow> zero_of e | v # _ \<Rightarrow> v) of
        None \<Rightarrow> None
      | Some v \<Rightarrow> map_option (\<lambda>vs. v # vs) (fill_elems strict e js (tl old)))"

text \<open>\<open>json.Unmarshal\<close> into a fresh variable.\<close>

definition unmarshal :: "schema \<Rightarrow> bytes \<Rightarrow> gval option" where
  "unmarshal t text = (case json_value text of None \<Rightarrow> None | Some j \<Rightarrow> fill False t j (zero_of t))"

text \<open>Reading a variable back.\<close>

fun g_string :: "gval \<Rightarrow> bytes" where
  "g_string (GString s) = s"
| "g_string _ = []"

fun g_field :: "nat \<Rightarrow> gval \<Rightarrow> gval" where
  "g_field i (GStruct vs) = vs ! i"
| "g_field i g = g"

fun g_slice :: "gval \<Rightarrow> gval list" where
  "g_slice (GSlice vs n) = take n vs"
| "g_slice _ = []"

section \<open>Writing\<close>

definition quoted :: "bytes \<Rightarrow> bytes" where
  "quoted s = dquote # quote_body s @ [dquote]"

fun commas :: "bytes list \<Rightarrow> bytes" where
  "commas [] = []"
| "commas [x] = x"
| "commas (x # y # r) = x @ CHR '','' # commas (y # r)"

fun json_text :: "json \<Rightarrow> bytes" where
  "json_text JNull = ''null''"
| "json_text (JBool b) = (if b then ''true'' else ''false'')"
| "json_text (JNum t) = t"
| "json_text (JStr s) = quoted s"
| "json_text (JArr vs) = CHR ''['' # commas (map json_text vs) @ '']''"
| "json_text (JObj ms) = CHR ''{'' # commas (map (\<lambda>(k, v). quoted k @ CHR '':'' # json_text v) ms) @ ''}''"

section \<open>Scanning what was written\<close>

definition in_string :: "bytes \<Rightarrow> bool" where
  "in_string p \<longleftrightarrow> (\<forall>raw rest stk. jrun (p @ rest) (InString raw) stk = jrun rest (InString (raw @ p)) stk)"

lemma in_string_append: "in_string p \<Longrightarrow> in_string q \<Longrightarrow> in_string (p @ q)"
  by (simp add: in_string_def)

lemma in_string_Nil [simp]: "in_string []"
  by (simp add: in_string_def)

lemma in_string_plain: "32 \<le> byte_of c \<Longrightarrow> c \<noteq> dquote \<Longrightarrow> c \<noteq> bslash \<Longrightarrow> in_string [c]"
  by (simp add: in_string_def)

lemma in_string_upper: "(\<And>c. c \<in> set p \<Longrightarrow> 128 \<le> byte_of c) \<Longrightarrow> in_string p"
proof (induction p)
  case (Cons c p)
  have "128 \<le> byte_of c" using Cons.prems by simp
  then have "in_string [c]" by (intro in_string_plain) auto
  then show ?case using Cons in_string_append[of "[c]" p] by simp
qed simp

lemma in_string_esc: "c \<in> {CHR ''b'', CHR ''f'', CHR ''n'', CHR ''r'', CHR ''t'', bslash, dquote} \<Longrightarrow> in_string [bslash, c]"
  by (auto simp: in_string_def)

lemma in_string_u:
  "is_hex a \<Longrightarrow> is_hex b \<Longrightarrow> is_hex c \<Longrightarrow> is_hex d \<Longrightarrow> in_string [bslash, CHR ''u'', a, b, c, d]"
  by (simp add: in_string_def numeral_3_eq_3)

lemma is_hex_digits: "list_all is_hex ''0123456789abcdef''"
  by (simp add: is_hex_def is_digit_def between_def)

lemma is_hex_digit: "d < 16 \<Longrightarrow> is_hex (hex_digit d)"
  using is_hex_digits unfolding list_all_length hex_digit_def by simp

lemma is_hex_consts: "is_hex CHR ''0''" "is_hex CHR ''2''" "is_hex CHR ''8''" "is_hex CHR ''9''" "is_hex CHR ''f''" "is_hex CHR ''d''"
  by (simp_all add: is_hex_def is_digit_def between_def)

lemma in_string_ascii: "ascii c \<Longrightarrow> in_string (esc_ascii c)"
  unfolding esc_ascii_def by (auto intro!: in_string_esc in_string_u in_string_plain is_hex_consts is_hex_digit)

lemma in_string_quote: "in_string (quote_body s)"
proof (induction s rule: quote_body.induct)
  case (2 c cs)
  show ?case
  proof (cases "ascii c")
    case True
    then show ?thesis using 2 by (simp add: quote_body.simps(2) in_string_append in_string_ascii)
  next
    case False
    then show ?thesis
    proof (cases "utf8_more c cs")
      case None
      then show ?thesis
        using False "2.IH"(2) in_string_append[OF in_string_u, of "CHR ''f''" "CHR ''f''" "CHR ''f''" "CHR ''d''" "quote_body cs"]
        by (simp add: quote_body.simps(2) is_hex_consts)
    next
      case (Some n)
      have "in_string (c # take n cs)" using False utf8_more_upper[OF Some] by (intro in_string_upper) auto
      moreover have "in_string e" if "line_sep (c # take n cs) = Some e" for e
        using that by (auto simp: line_sep_def is_hex_consts intro!: in_string_u split: if_splits)
      ultimately show ?thesis
        using False Some "2.IH"(3) by (simp add: quote_body.simps(2) in_string_append split: option.split)
    qed
  qed
qed simp

lemma jrun_quoted:
  assumes "s \<in> {BeginValue, BeginString, BeginStringOrEmpty, BeginValueOrEmpty}"
  shows "jrun (quoted t @ rest) s stk = jrun rest (EndValue (JStr (to_valid t))) stk"
proof -
  have "jrun (quoted t @ rest) s stk = jrun (quote_body t @ dquote # rest) (InString []) stk"
    using assms by (auto simp: quoted_def stateBeginValue_def stateBeginString_def is_space_def)
  also have "\<dots> = jrun (dquote # rest) (InString (quote_body t)) stk"
    using in_string_quote unfolding in_string_def by simp
  finally show ?thesis by (simp add: unquote_quote)
qed

text \<open>A value as it reads back: ill-formed bytes of its strings and names replaced.\<close>

fun cleaned :: "json \<Rightarrow> json" where
  "cleaned (JStr s) = JStr (to_valid s)"
| "cleaned (JArr vs) = JArr (map cleaned vs)"
| "cleaned (JObj ms) = JObj (map (\<lambda>(k, v). (to_valid k, cleaned v)) ms)"
| "cleaned v = v"

fun depth :: "json \<Rightarrow> nat" where
  "depth (JArr vs) = Suc (fold max (map depth vs) 0)"
| "depth (JObj ms) = Suc (fold max (map (\<lambda>(_, v). depth v) ms) 0)"
| "depth _ = 0"

text \<open>The numbers the relay writes are decimal integers.\<close>

fun writable :: "json \<Rightarrow> bool" where
  "writable (JNum t) \<longleftrightarrow> (\<exists>n. t = FormatInt n)"
| "writable (JArr vs) \<longleftrightarrow> list_all writable vs"
| "writable (JObj ms) \<longleftrightarrow> list_all (\<lambda>(_, v). writable v) ms"
| "writable _ \<longleftrightarrow> True"

fun bracketed :: "json \<Rightarrow> bool" where
  "bracketed (JArr _) = True"
| "bracketed (JObj _) = True"
| "bracketed _ = False"

abbreviation is_num :: "json \<Rightarrow> bool" where
  "is_num v \<equiv> \<exists>t. v = JNum t"

definition finish :: "json \<Rightarrow> frame list \<Rightarrow> bytes \<Rightarrow> scan_out" where
  "finish v stk rest = (if stk = [] \<and> bracketed v then Value v rest else jrun rest (EndValue v) stk)"

definition delim :: "bytes \<Rightarrow> bool" where
  "delim rest \<longleftrightarrow> rest \<noteq> [] \<and> hd rest \<in> {CHR '','', CHR '']'', CHR ''}''}"

abbreviation begins :: "scan_state set" where
  "begins \<equiv> {BeginValue, BeginValueOrEmpty}"

definition scans :: "json \<Rightarrow> bool" where
  "scans v \<longleftrightarrow> (\<forall>s rest stk. s \<in> begins \<longrightarrow> depth v + length stk \<le> maxNestingDepth \<longrightarrow>
     (is_num v \<longrightarrow> delim rest) \<longrightarrow> jrun (json_text v @ rest) s stk = finish (cleaned v) stk rest)"

lemma delimI [simp]: "delim (CHR '','' # r)" "delim (CHR '']'' # r)" "delim (CHR ''}'' # r)"
  by (simp_all add: delim_def)

lemma is_space_brackets [simp]:
  "\<not> is_space CHR '',''" "\<not> is_space CHR '']''" "\<not> is_space CHR ''}''" "\<not> is_space CHR '':''"
  "\<not> is_space CHR ''[''" "\<not> is_space CHR ''{''" "\<not> is_space dquote"
  by (simp_all add: is_space_def)

lemma jrun_pop: "bracketed v \<Longrightarrow> (case popParseState v stk of More s' stk' \<Rightarrow> jrun rest s' stk' | Closed v \<Rightarrow> Value v rest
   | Ended v \<Rightarrow> Value v (c # rest) | ScanError \<Rightarrow> SyntaxError) = finish v stk rest"
  by (simp add: popParseState_def finish_def)

lemma finish_open [simp]: "finish v (f # stk) rest = jrun rest (EndValue v) (f # stk)"
  by (simp add: finish_def)

text \<open>Numbers.\<close>

lemma nat_digits_hd: "0 < n \<Longrightarrow> hd (nat_digits n) \<noteq> CHR ''0''"
proof (induction n rule: nat_digits.induct)
  case (1 n)
  show ?case
  proof (cases "n < 10")
    case True
    have "byte_of (digit_char n) \<noteq> 48" using True "1.prems" by simp
    then have "digit_char n \<noteq> CHR ''0''" by auto
    then show ?thesis using True by (simp add: nat_digits.simps[of n])
  next
    case False
    then show ?thesis using 1 by (simp add: nat_digits.simps[of n])
  qed
qed

lemma jrun_digits:
  "list_all is_digit ds \<Longrightarrow> jrun (ds @ rest) (InNumber Num1 raw) stk = jrun rest (InNumber Num1 (raw @ ds)) stk"
  by (induction ds arbitrary: raw) auto

lemma jrun_number_end:
  assumes "delim rest" "st = Num1 \<or> st = Num0"
  shows "jrun rest (InNumber st raw) stk = jrun rest (EndValue (JNum raw)) stk"
  using assms by (cases rest) (auto simp: delim_def is_digit_def)

lemma jrun_nat:
  assumes "delim rest" "s \<in> begins"
  shows "jrun (nat_digits n @ rest) s stk = jrun rest (EndValue (JNum (nat_digits n))) stk"
    and "jrun (nat_digits n @ rest) (InNumber NumNeg raw) stk = jrun rest (EndValue (JNum (raw @ nat_digits n))) stk"
proof -
  obtain d ds where nd: "nat_digits n = d # ds" by (cases "nat_digits n") auto
  have dig: "is_digit d" "list_all is_digit ds" using nat_digits_digits[of n] nd by auto
  have sp: "\<not> is_space d" "d \<noteq> CHR '']''" "d \<noteq> CHR ''{''" "d \<noteq> CHR ''[''" "d \<noteq> dquote" "d \<noteq> CHR ''-''"
    "d \<noteq> CHR ''t''" "d \<noteq> CHR ''f''" "d \<noteq> CHR ''n''"
    using dig(1) by (auto simp: is_space_def is_digit_def)
  have z: "d = CHR ''0'' \<Longrightarrow> ds = []"
    using nat_digits_hd[of n] nd by (cases "n = 0") (auto simp: nat_digits.simps[of 0])
  have "jrun (ds @ rest) (InNumber (if d = CHR ''0'' then Num0 else Num1) (raw @ [d])) stk
      = jrun rest (EndValue (JNum (raw @ d # ds))) stk" for raw
    using z jrun_digits[OF dig(2), of rest "raw @ [d]" stk] jrun_number_end[OF assms(1)] by auto
  from this[of "[]"] this[of raw]
  show "jrun (nat_digits n @ rest) s stk = jrun rest (EndValue (JNum (nat_digits n))) stk"
    and "jrun (nat_digits n @ rest) (InNumber NumNeg raw) stk = jrun rest (EndValue (JNum (raw @ nat_digits n))) stk"
    using assms(2) dig(1) sp unfolding nd by (auto simp: stateBeginValue_def split: if_splits)
qed

lemma scans_number: "scans (JNum (FormatInt n))"
  using jrun_nat(1) jrun_nat(2)[of _ BeginValue _ "''-''"]
  by (auto simp: scans_def FormatInt_def finish_def stateBeginValue_def is_space_def)

text \<open>Arrays and objects.\<close>

lemma jrun_elems:
  assumes "vs \<noteq> []" "s \<in> begins" "\<forall>v \<in> set vs. scans v \<and> depth v + Suc (length stk) \<le> maxNestingDepth"
  shows "jrun (commas (map json_text vs) @ CHR '']'' # rest) s (ArrayValue acc # stk) = finish (JArr (acc @ map cleaned vs)) stk rest"
  using assms
proof (induction vs arbitrary: s acc rule: induct_list012)
  case (2 v)
  then have "jrun (json_text v @ CHR '']'' # rest) s (ArrayValue acc # stk) = finish (cleaned v) (ArrayValue acc # stk) (CHR '']'' # rest)"
    unfolding scans_def by (metis delimI(2) length_Cons list.set_intros(1))
  then show ?case by (simp add: jrun_pop)
next
  case (3 v w vs)
  then have "jrun (json_text v @ (CHR '','' # commas (map json_text (w # vs)) @ CHR '']'' # rest)) s (ArrayValue acc # stk)
      = finish (cleaned v) (ArrayValue acc # stk) (CHR '','' # commas (map json_text (w # vs)) @ CHR '']'' # rest)"
    unfolding scans_def by (metis delimI(1) length_Cons list.set_intros(1))
  then show ?case using 3 by simp
qed simp

definition member_text :: "bytes \<times> json \<Rightarrow> bytes" where
  "member_text m = (case m of (k, v) \<Rightarrow> quoted k @ CHR '':'' # json_text v)"

lemma jrun_member:
  assumes "s \<in> {BeginString, BeginStringOrEmpty}" "scans v" "depth v + Suc (length stk) \<le> maxNestingDepth" "delim rest"
  shows "jrun (member_text (k, v) @ rest) s (ObjectKey acc # stk)
    = jrun rest (EndValue (cleaned v)) (ObjectValue acc (to_valid k) # stk)"
proof -
  have "jrun (member_text (k, v) @ rest) s (ObjectKey acc # stk)
      = jrun (json_text v @ rest) BeginValue (ObjectValue acc (to_valid k) # stk)"
    using assms(1) jrun_quoted[of s k "CHR '':'' # json_text v @ rest"] by (auto simp: member_text_def)
  also have "\<dots> = finish (cleaned v) (ObjectValue acc (to_valid k) # stk) rest"
    using assms(2-4) unfolding scans_def by (metis insertI1 length_Cons)
  finally show ?thesis by simp
qed

abbreviation clean_member :: "bytes \<times> json \<Rightarrow> bytes \<times> json" where
  "clean_member \<equiv> \<lambda>(k, v). (to_valid k, cleaned v)"

lemma jrun_members:
  assumes "ms \<noteq> []" "s \<in> {BeginString, BeginStringOrEmpty}"
    "\<forall>m \<in> set ms. scans (snd m) \<and> depth (snd m) + Suc (length stk) \<le> maxNestingDepth"
  shows "jrun (commas (map member_text ms) @ CHR ''}'' # rest) s (ObjectKey acc # stk) = finish (JObj (acc @ map clean_member ms)) stk rest"
  using assms
proof (induction ms arbitrary: s acc rule: induct_list012)
  case (2 m)
  obtain k v where m: "m = (k, v)" by (cases m)
  with 2 show ?case by (simp add: jrun_member jrun_pop)
next
  case (3 m n ms)
  obtain k v where m: "m = (k, v)" by (cases m)
  have "jrun (commas (map member_text (m # n # ms)) @ CHR ''}'' # rest) s (ObjectKey acc # stk)
      = jrun (commas (map member_text (n # ms)) @ CHR ''}'' # rest) BeginString (ObjectKey (acc @ [clean_member m]) # stk)"
    using 3(4,5) m jrun_member[of s v stk "CHR '','' # commas (map member_text (n # ms)) @ CHR ''}'' # rest" k acc] by simp
  then show ?case using 3 by simp
qed simp

lemma fold_max: "fold max xs (a :: nat) \<le> n \<longleftrightarrow> a \<le> n \<and> (\<forall>x \<in> set xs. x \<le> n)"
  by (induction xs arbitrary: a) auto

lemma scans_array: "(\<And>v. v \<in> set vs \<Longrightarrow> scans v) \<Longrightarrow> scans (JArr vs)"
proof -
  assume vs: "\<And>v. v \<in> set vs \<Longrightarrow> scans v"
  have "jrun (json_text (JArr vs) @ rest) s stk = finish (cleaned (JArr vs)) stk rest"
    if s: "s \<in> begins" and d: "depth (JArr vs) + length stk \<le> maxNestingDepth" for s rest stk
  proof -
    have el: "depth v + Suc (length stk) \<le> maxNestingDepth" if "v \<in> set vs" for v
    proof -
      have "depth v \<le> fold max (map depth vs) 0" using fold_max[of "map depth vs" 0 "fold max (map depth vs) 0"] that by auto
      then show ?thesis using d by simp
    qed
    have "jrun (json_text (JArr vs) @ rest) s stk = jrun (commas (map json_text vs) @ CHR '']'' # rest) BeginValueOrEmpty (ArrayValue [] # stk)"
      using s d by (auto simp: stateBeginValue_def pushParseState_def)
    then show ?thesis using jrun_elems[of vs BeginValueOrEmpty stk rest "[]"] vs el by (cases "vs = []") (simp_all add: jrun_pop)
  qed
  then show ?thesis unfolding scans_def by blast
qed

lemma scans_object: "(\<And>m. m \<in> set ms \<Longrightarrow> scans (snd m)) \<Longrightarrow> scans (JObj ms)"
proof -
  assume ms: "\<And>m. m \<in> set ms \<Longrightarrow> scans (snd m)"
  have tx: "json_text (JObj ms) = CHR ''{'' # commas (map member_text ms) @ ''}''" by (simp add: member_text_def[abs_def])
  have "jrun (json_text (JObj ms) @ rest) s stk = finish (cleaned (JObj ms)) stk rest"
    if s: "s \<in> begins" and d: "depth (JObj ms) + length stk \<le> maxNestingDepth" for s rest stk
  proof -
    have el: "depth (snd m) + Suc (length stk) \<le> maxNestingDepth" if "m \<in> set ms" for m
    proof -
      have "depth (snd m) \<le> fold max (map (\<lambda>(_, v). depth v) ms) 0"
        using fold_max[of "map (\<lambda>(_, v). depth v) ms" 0 "fold max (map (\<lambda>(_, v). depth v) ms) 0"] that by (auto simp: case_prod_unfold)
      then show ?thesis using d by simp
    qed
    have "jrun (json_text (JObj ms) @ rest) s stk = jrun (commas (map member_text ms) @ CHR ''}'' # rest) BeginStringOrEmpty (ObjectKey [] # stk)"
      using s d unfolding tx by (auto simp: stateBeginValue_def pushParseState_def)
    then show ?thesis using jrun_members[of ms BeginStringOrEmpty stk rest "[]"] ms el by (cases "ms = []") (simp_all add: jrun_pop)
  qed
  then show ?thesis unfolding scans_def by blast
qed

lemma scans_all: "writable v \<Longrightarrow> scans v"
proof (induction v)
  case (JNum t)
  then show ?case using scans_number by auto
next
  case (JStr s)
  have "jrun (json_text (JStr s) @ rest) st stk = finish (cleaned (JStr s)) stk rest" if "st \<in> begins" for st rest stk
    using that jrun_quoted[of st s rest stk] by (auto simp: finish_def)
  then show ?case unfolding scans_def by blast
next
  case (JArr vs)
  then show ?case by (intro scans_array) (auto simp: list_all_iff)
next
  case (JObj ms)
  then show ?case by (intro scans_object) (fastforce simp: list_all_iff)
qed (auto simp: scans_def finish_def stateBeginValue_def is_space_def)

text \<open>Scanning the text of an object or an array yields the value and leaves what follows.\<close>

lemma jrun_text:
  "writable v \<Longrightarrow> bracketed v \<Longrightarrow> depth v \<le> maxNestingDepth \<Longrightarrow> jrun (json_text v @ rest) BeginValue [] = Value (cleaned v) rest"
  using scans_all[of v] by (cases v) (auto simp: scans_def finish_def)

section \<open>What the scanner yields\<close>

text \<open>Strings and names of a scanned value are valid UTF-8, whatever the bytes of the text.\<close>

fun utf8_json :: "json \<Rightarrow> bool" where
  "utf8_json (JStr s) \<longleftrightarrow> utf8_ok s"
| "utf8_json (JArr vs) \<longleftrightarrow> list_all utf8_json vs"
| "utf8_json (JObj ms) \<longleftrightarrow> list_all (\<lambda>(k, v). utf8_ok k \<and> utf8_json v) ms"
| "utf8_json _ \<longleftrightarrow> True"

abbreviation utf8_members :: "(bytes \<times> json) list \<Rightarrow> bool" where
  "utf8_members \<equiv> list_all (\<lambda>(k, v). utf8_ok k \<and> utf8_json v)"

fun utf8_frame :: "frame \<Rightarrow> bool" where
  "utf8_frame (ObjectKey ms) \<longleftrightarrow> utf8_members ms"
| "utf8_frame (ObjectValue ms k) \<longleftrightarrow> utf8_members ms \<and> utf8_ok k"
| "utf8_frame (ArrayValue vs) \<longleftrightarrow> list_all utf8_json vs"

fun utf8_state :: "scan_state \<Rightarrow> bool" where
  "utf8_state (EndValue v) \<longleftrightarrow> utf8_json v"
| "utf8_state (InLiteral _ v) \<longleftrightarrow> utf8_json v"
| "utf8_state _ \<longleftrightarrow> True"

fun utf8_result :: "scan_result \<Rightarrow> bool" where
  "utf8_result (More s stk) \<longleftrightarrow> utf8_state s \<and> list_all utf8_frame stk"
| "utf8_result (Closed v) \<longleftrightarrow> utf8_json v"
| "utf8_result (Ended v) \<longleftrightarrow> utf8_json v"
| "utf8_result ScanError \<longleftrightarrow> True"

lemma utf8_pop: "utf8_json v \<Longrightarrow> list_all utf8_frame stk \<Longrightarrow> utf8_result (popParseState v stk)"
  by (simp add: popParseState_def)

lemma utf8_end: "utf8_json v \<Longrightarrow> list_all utf8_frame stk \<Longrightarrow> utf8_result (stateEndValue c v stk)"
  by (cases stk) (auto simp: utf8_pop split: frame.split json.split)

lemma utf8_begin: "list_all utf8_frame stk \<Longrightarrow> utf8_result (stateBeginValue c stk)"
  by (simp add: stateBeginValue_def pushParseState_def)

lemma utf8_begin_string: "list_all utf8_frame stk \<Longrightarrow> utf8_result (stateBeginString c stk)"
  by (simp add: stateBeginString_def)

lemma list_all_tl: "list_all P xs \<Longrightarrow> list_all P (tl xs)"
  by (cases xs) auto

lemma utf8_step: "utf8_state s \<Longrightarrow> list_all utf8_frame stk \<Longrightarrow> utf8_result (jstep c s stk)"
  by (induction c s stk rule: jstep.induct)
    (auto simp: utf8_end utf8_begin utf8_begin_string utf8_pop list_all_tl unquote_ok split: num_step.split nat.split)

lemma utf8_run_value:
  "utf8_state s \<Longrightarrow> list_all utf8_frame stk \<Longrightarrow> jrun cs s stk = Value v rest \<Longrightarrow> utf8_json v"
proof (induction cs arbitrary: s stk)
  case (Cons c cs)
  then show ?case using utf8_step[of s stk c] by (auto split: scan_result.splits)
qed simp

lemma utf8_run_pending:
  "utf8_state s \<Longrightarrow> list_all utf8_frame stk \<Longrightarrow> jrun cs s stk = Pending s' stk' \<Longrightarrow> utf8_state s' \<and> list_all utf8_frame stk'"
proof (induction cs arbitrary: s stk)
  case (Cons c cs)
  then show ?case using utf8_step[of s stk c] by (auto split: scan_result.splits)
qed simp

lemmas utf8_run = utf8_run_value[of BeginValue "[]", simplified] utf8_run_pending[of BeginValue "[]", simplified]

lemma utf8_eof: "utf8_state s \<Longrightarrow> list_all utf8_frame stk \<Longrightarrow> at_eof s stk = Some v \<Longrightarrow> utf8_json v"
  using utf8_step[of s stk "CHR '' ''"] by (auto simp: at_eof_def split: scan_result.splits)

lemma json_decode_utf8: "json_decode n broken body = Inr v \<Longrightarrow> utf8_json v"
  using utf8_run utf8_eof
  by (fastforce simp: json_decode_def Let_def split: scan_out.splits if_splits option.splits)

lemma json_value_utf8: "json_value text = Some v \<Longrightarrow> utf8_json v"
  using utf8_run utf8_eof
  by (fastforce simp: json_value_def split: scan_out.splits if_splits)

lemma cleaned_id: "utf8_json v \<Longrightarrow> cleaned v = v"
proof (induction v)
  case (JArr vs)
  then show ?case by (auto simp: list_all_iff intro: map_idI)
next
  case (JObj ms)
  have "map clean_member ms = ms"
    using JObj by (intro map_idI) (fastforce simp: list_all_iff to_valid_id)
  then show ?case by simp
qed (auto simp: to_valid_id)

lemma json_value_text:
  "writable v \<Longrightarrow> bracketed v \<Longrightarrow> depth v \<le> maxNestingDepth \<Longrightarrow> list_all is_space ws \<Longrightarrow> json_value (json_text v @ ws) = Some (cleaned v)"
  using jrun_text[of v ws] by (simp add: json_value_def)

lemma json_decode_text:
  assumes "writable v" "bracketed v" "depth v \<le> maxNestingDepth" "length (json_text v) \<le> n"
  shows "json_decode n broken (json_text v @ rest) = Inr (cleaned v)"
  using jrun_text[OF assms(1-3), of "take (n - length (json_text v)) rest"] assms(4) by (simp add: json_decode_def)

text \<open>No byte behind the limit is ever looked at.\<close>

lemma json_decode_limit:
  "n < length body \<Longrightarrow> n < length body' \<Longrightarrow> take n body = take n body' \<Longrightarrow> json_decode n b body = json_decode n b body'"
  by (simp add: json_decode_def Let_def split: scan_out.split)

lemma jrun_spaces: "list_all is_space ws \<Longrightarrow> jrun (ws @ cs) BeginValue [] = jrun cs BeginValue []"
  by (induction ws) (auto simp: stateBeginValue_def)

lemma json_decode_EOF: "json_decode n broken body = Inl EOF \<longleftrightarrow> \<not> broken \<and> length body \<le> n \<and> list_all is_space body"
proof -
  have sp: "jrun body BeginValue [] = Pending BeginValue []" if "list_all is_space body"
    using jrun_spaces[OF that, of "[]"] by simp
  have "at_eof BeginValue [] = None" by (simp add: at_eof_def stateBeginValue_def is_space_def)
  then show ?thesis using sp
    by (auto simp: json_decode_def Let_def split: scan_out.splits option.splits)
qed

section \<open>The values stored\<close>

text \<open>
  The type of a variable: its fields and elements have their types, a slice is no longer
  than its elements, and every string is valid UTF-8.
\<close>

fun fits :: "schema \<Rightarrow> gval \<Rightarrow> bool"
  and fits_fields :: "(bytes \<times> schema) list \<Rightarrow> gval list \<Rightarrow> bool"
where
  "fits SString (GString s) \<longleftrightarrow> utf8_ok s"
| "fits (SStruct fs) (GStruct vs) \<longleftrightarrow> fits_fields fs vs"
| "fits (SSlice e) (GSlice vs n) \<longleftrightarrow> n \<le> length vs \<and> list_all (fits e) vs"
| "fits _ _ \<longleftrightarrow> False"
| "fits_fields [] [] \<longleftrightarrow> True"
| "fits_fields (f # fs) (v # vs) \<longleftrightarrow> fits (snd f) v \<and> fits_fields fs vs"
| "fits_fields _ _ \<longleftrightarrow> False"

lemma fits_fields_list: "fits_fields fs vs \<longleftrightarrow> list_all2 (\<lambda>f v. fits (snd f) v) fs vs"
  by (induction fs vs rule: list_induct2') auto

lemma fits_simps:
  "fits SString g \<longleftrightarrow> (\<exists>s. g = GString s \<and> utf8_ok s)"
  "fits (SStruct fs) g \<longleftrightarrow> (\<exists>vs. g = GStruct vs \<and> fits_fields fs vs)"
  "fits (SSlice e) g \<longleftrightarrow> (\<exists>vs n. g = GSlice vs n \<and> n \<le> length vs \<and> list_all (fits e) vs)"
  "fits_fields [] vs \<longleftrightarrow> vs = []"
  "fits_fields (f # fs) vs \<longleftrightarrow> (\<exists>v vs'. vs = v # vs' \<and> fits (snd f) v \<and> fits_fields fs vs')"
  by (cases g; simp)+ (cases vs; simp)+

lemma fits_zero: "fits t (zero_of t)"
proof (induction t rule: zero_of.induct)
  case (2 fs)
  have "fits (snd (fs ! i)) (zero_of (snd (fs ! i)))" if "i < length fs" for i
    using 2[of "fs ! i" "fst (fs ! i)"] that by simp
  then show ?case by (simp add: fits_fields_list list_all2_conv_all_nth case_prod_unfold)
qed auto

lemma index_where_nth: "index_where P xs = Some i \<Longrightarrow> i < length xs \<and> P (xs ! i)"
  by (induction xs arbitrary: i) (auto split: if_splits)

lemma field_of_length: "field_of fs k = Some i \<Longrightarrow> i < length fs"
  using index_where_nth by (fastforce simp: field_of_def split: option.splits)

lemma fits_fields_nth: "fits_fields fs vs \<Longrightarrow> i < length fs \<Longrightarrow> fits (snd (fs ! i)) (vs ! i)"
  by (simp add: fits_fields_list list_all2_conv_all_nth)

lemma fits_fields_upd: "fits_fields fs vs \<Longrightarrow> fits (snd (fs ! i)) v \<Longrightarrow> fits_fields fs (vs[i := v])"
  by (simp add: fits_fields_list list_all2_conv_all_nth) (metis nth_list_update_eq nth_list_update_neq)

lemma fits_reused: "list_all (fits e) old \<Longrightarrow> fits e (case old of [] \<Rightarrow> zero_of e | v # _ \<Rightarrow> v)"
  by (cases old) (auto simp: fits_zero)

lemma fill_fits:
  "utf8_json j \<Longrightarrow> fits t g \<Longrightarrow> fill strict t j g = Some g' \<Longrightarrow> fits t g'"
  "utf8_members ms \<Longrightarrow> fits_fields fs vs \<Longrightarrow> fill_members strict fs ms vs = Some vs' \<Longrightarrow> fits_fields fs vs'"
  "list_all utf8_json js \<Longrightarrow> list_all (fits e) old \<Longrightarrow> fill_elems strict e js old = Some new
     \<Longrightarrow> list_all (fits e) new \<and> length js \<le> length new"
  by (induction strict t j g and strict fs ms vs and strict e js old arbitrary: g' and vs' and new
      rule: fill_fill_members_fill_elems.induct)
    (auto simp: fits_fields_nth fits_fields_upd fits_reused list_all_tl field_of_length split: option.splits if_splits)

text \<open>How long the text of a string is.\<close>

lemma esc_ascii_length: "length (esc_ascii c) \<le> 6"
  by (simp add: esc_ascii_def)

lemma quote_body_length: "length (quote_body s) \<le> 6 * length s"
proof (induction s rule: quote_body.induct)
  case (2 c cs)
  consider "ascii c" | "\<not> ascii c" "utf8_more c cs = None" | n where "\<not> ascii c" "utf8_more c cs = Some n"
    by (cases "utf8_more c cs") auto
  then show ?case
  proof cases
    case (3 n)
    define piece where "piece = (case line_sep (c # take n cs) of None \<Rightarrow> c # take n cs | Some e \<Rightarrow> e)"
    have "length piece \<le> 6 * Suc n"
      using utf8_more_bounds[OF 3(2)] by (auto simp: piece_def line_sep_def split: option.split if_splits)
    moreover have "quote_body (c # cs) = piece @ quote_body (drop n cs)"
      using 3 by (simp add: quote_body.simps(2) piece_def)
    ultimately show ?thesis using "2.IH"(3)[OF 3] utf8_more_bounds[OF 3(2)] by auto
  qed (use 2 esc_ascii_length[of c] in \<open>auto simp: quote_body.simps(2)\<close>)
qed simp

lemma quoted_length: "length (quoted s) \<le> 6 * length s + 2"
  using quote_body_length[of s] by (simp add: quoted_def)

section \<open>A text that is cut short\<close>

lemma jrun_append:
  "jrun (xs @ ys) s stk = (case jrun xs s stk of
      Value v rest \<Rightarrow> Value v (rest @ ys) | SyntaxError \<Rightarrow> SyntaxError | Pending s' stk' \<Rightarrow> jrun ys s' stk')"
  by (induction xs arbitrary: s stk) (auto split: scan_result.split)

text \<open>Inside a bracket the scanner stays inside one until the last bracket closes.\<close>

fun inside :: "scan_result \<Rightarrow> bool" where
  "inside (More _ stk) \<longleftrightarrow> stk \<noteq> []"
| "inside (Ended _) \<longleftrightarrow> False"
| "inside _ \<longleftrightarrow> True"

lemma inside_pop: "inside (popParseState v stk)"
  by (simp add: popParseState_def)

lemma inside_end: "stk \<noteq> [] \<Longrightarrow> inside (stateEndValue c v stk)"
  by (cases stk) (auto simp: inside_pop split: frame.split json.split)

lemma inside_begin: "stk \<noteq> [] \<Longrightarrow> inside (stateBeginValue c stk)" "stk \<noteq> [] \<Longrightarrow> inside (stateBeginString c stk)"
  by (simp_all add: stateBeginValue_def stateBeginString_def pushParseState_def)

lemma inside_step: "stk \<noteq> [] \<Longrightarrow> inside (jstep c s stk)"
  by (induction c s stk rule: jstep.induct) (auto simp: inside_pop inside_end inside_begin split: num_step.split)

lemma inside_run: "stk \<noteq> [] \<Longrightarrow> jrun cs s stk = Pending s' stk' \<Longrightarrow> stk' \<noteq> []"
proof (induction cs arbitrary: s stk)
  case (Cons c cs)
  then show ?case using inside_step[OF Cons.prems(1), of c s] by (auto split: scan_result.splits)
qed simp

lemma inside_eof: "stk \<noteq> [] \<Longrightarrow> at_eof s stk = None"
  using inside_step[of stk "CHR '' ''" s] by (auto simp: at_eof_def split: scan_result.split)

lemma json_value_cut:
  assumes "writable v" "bracketed v" "depth v \<le> maxNestingDepth" "n < length (json_text v)"
  shows "json_value (take n (json_text v)) = None"
proof -
  let ?t = "json_text v"
  have whole: "jrun (take n ?t @ drop n ?t) BeginValue [] = Value (cleaned v) []"
    using jrun_text[OF assms(1-3), of "[]"] by simp
  have more: "drop n ?t \<noteq> []" using assms(4) by simp
  show ?thesis
  proof (cases "jrun (take n ?t) BeginValue []")
    case (Pending s stk)
    have "at_eof s stk = None"
    proof (cases n)
      case 0
      then show ?thesis using Pending by (auto simp: at_eof_def stateBeginValue_def is_space_def)
    next
      case (Suc m)
      obtain c cs f s1 where "?t = c # cs" "jstep c BeginValue [] = More s1 [f]"
        using assms(2) by (cases v) (auto simp: stateBeginValue_def pushParseState_def maxNestingDepth_def)
      then have "stk \<noteq> []" using Pending Suc inside_run[of "[f]" "take m cs" s1] by simp
      then show ?thesis by (rule inside_eof)
    qed
    then show ?thesis using Pending by (simp add: json_value_def)
  qed (use whole[unfolded jrun_append] more in \<open>auto simp: json_value_def\<close>)
qed

end
