(* ===== verification/Fcm.thy ===== *)
theory Fcm
  imports Push_Vocab Go_Json
begin

text \<open>
  \<open>internal/fcm\<close>: the request \<open>sendOne\<close> posts, the access-token race before it, and the
  status made of the answer. The OAuth library and the HTTP round trip are arguments:
  \<open>token_race\<close> is what the race of the token fetch against the request's context yields,
  \<open>fcm_answer\<close> what the HTTP client returns. Bodies are the bytes on the wire, written and
  read by the model of \<open>encoding/json\<close>.
\<close>

definition fcm_scope :: bytes where "fcm_scope = ''https://www.googleapis.com/auth/firebase.messaging''"

definition fcm_endpoint :: bytes where "fcm_endpoint = ''https://fcm.googleapis.com''"

definition maxErrorBodyBytes :: nat where "maxErrorBodyBytes = 16 * 1024"

record FcmSender =
  fs_projectID :: bytes
  fs_endpoint :: bytes

datatype fcm_new_error = BadCredentials | MissingProjectID

text \<open>
  \<open>New\<close>: \<open>creds\<close> is what \<open>google.CredentialsFromJSON\<close> makes of the file, the project id
  or an error.
\<close>

definition fcm_New :: "bytes option \<Rightarrow> fcm_new_error + FcmSender" where
  "fcm_New creds = (case creds of
      None \<Rightarrow> Inl BadCredentials
    | Some pid \<Rightarrow>
        if pid = [] then Inl MissingProjectID
        else Inr \<lparr>fs_projectID = pid, fs_endpoint = fcm_endpoint\<rparr>)"

definition ProjectID :: "FcmSender \<Rightarrow> bytes" where
  "ProjectID s = fs_projectID s"

text \<open>The race in \<open>token\<close>: the fetch returned first, or the context was done first.\<close>

datatype token_race = Fetched bytes | FetchFailed | FetchCtxDone

fun fcm_token :: "token_race \<Rightarrow> bytes option" where
  "fcm_token (Fetched tok) = Some tok"
| "fcm_token FetchFailed = None"
| "fcm_token FetchCtxDone = None"

datatype fcm_answer = RequestInvalid | HttpFailed | HttpAnswered (http_code: int) (http_body: bytes)

record fcmErrorDetail =
  fd_ErrorCode :: bytes
  fd_FieldViolations :: "bytes list"

definition fcmErrorDetail_schema :: schema where
  "fcmErrorDetail_schema = SStruct [(''errorCode'', SString),
     (''fieldViolations'', SSlice (SStruct [(''field'', SString)]))]"

definition fcmErrorDetail_of :: "gval \<Rightarrow> fcmErrorDetail" where
  "fcmErrorDetail_of g = \<lparr>fd_ErrorCode = g_string (g_field 0 g),
     fd_FieldViolations = map (\<lambda>v. g_string (g_field 0 v)) (g_slice (g_field 1 g))\<rparr>"

definition errorCode_schema :: schema where
  "errorCode_schema = SStruct [(''error'', SStruct [(''status'', SString), (''details'', SSlice fcmErrorDetail_schema)])]"

definition errorCode :: "bytes \<Rightarrow> bytes" where
  "errorCode body = (case unmarshal errorCode_schema body of
      None \<Rightarrow> []
    | Some resp \<Rightarrow>
        (let e = g_field 0 resp; details = map fcmErrorDetail_of (g_slice (g_field 1 e)) in
         case find (\<lambda>d. fd_ErrorCode d \<noteq> []) details of
           Some d \<Rightarrow> fd_ErrorCode d
         | None \<Rightarrow> g_string (g_field 0 e)))"

definition violation_schema :: schema where
  "violation_schema = SStruct [(''error'', SStruct [(''details'', SSlice fcmErrorDetail_schema)])]"

definition tokenFieldViolation :: "bytes \<Rightarrow> bool" where
  "tokenFieldViolation body = (case unmarshal violation_schema body of
      None \<Rightarrow> False
    | Some resp \<Rightarrow>
        list_ex (\<lambda>d. list_ex (\<lambda>v. v = ''message.token'') (fd_FieldViolations d))
          (map fcmErrorDetail_of (g_slice (g_field 0 (g_field 0 resp)))))"

record fcm_request =
  fq_url :: bytes
  fq_authorization :: bytes
  fq_content_type :: bytes
  fq_body :: bytes

definition fcm_body :: "Message \<Rightarrow> json" where
  "fcm_body m = JObj [(''message'', JObj [
     (''android'', JObj [(''priority'', JStr ''high'')]),
     (''data'', JObj [(''kind'', JStr (kind_str (m_Kind m))), (''payload'', JStr (m_Payload m))]),
     (''token'', JStr (m_Token m))])]"

definition fcm_url :: "FcmSender \<Rightarrow> bytes" where
  "fcm_url s = fs_endpoint s @ ''/v1/projects/'' @ fs_projectID s @ ''/messages:send''"

definition fcm_post :: "bytes \<Rightarrow> bytes \<Rightarrow> Message \<Rightarrow> fcm_request" where
  "fcm_post url access m = \<lparr>fq_url = url, fq_authorization = ''Bearer '' @ access,
     fq_content_type = ''application/json'', fq_body = json_text (fcm_body m)\<rparr>"

fun fcm_status :: "fcm_answer \<Rightarrow> Status" where
  "fcm_status RequestInvalid = StatusError"
| "fcm_status HttpFailed = StatusError"
| "fcm_status (HttpAnswered code body) =
     (if code < 300 then StatusDelivered
      else let raw = take maxErrorBodyBytes body in
        if code = 400 \<and> tokenFieldViolation raw then StatusUnregistered
        else if errorCode raw = ''UNREGISTERED'' then StatusUnregistered
        else StatusError)"

text \<open>A request that cannot be built is not posted.\<close>

definition fcm_sendOne :: "bytes \<Rightarrow> bytes \<Rightarrow> fcm_answer \<Rightarrow> Message \<Rightarrow> Status \<times> fcm_request list" where
  "fcm_sendOne url access a m =
     (fcm_status a, if a = RequestInvalid then [] else [fcm_post url access m])"

fun fcm_sends :: "bytes \<Rightarrow> bytes \<Rightarrow> (nat \<Rightarrow> fcm_answer) \<Rightarrow> Message list
    \<Rightarrow> Result list \<times> fcm_request list" where
  "fcm_sends url access a [] = ([], [])"
| "fcm_sends url access a (m # ms) =
     (case fcm_sendOne url access (a 0) m of (st, q) \<Rightarrow>
        case fcm_sends url access (\<lambda>i. a (Suc i)) ms of (rs, qs) \<Rightarrow>
          (\<lparr>r_Token = m_Token m, r_Status = st\<rparr> # rs, q @ qs))"

definition fcm_Send :: "FcmSender \<Rightarrow> token_race \<Rightarrow> (nat \<Rightarrow> fcm_answer) \<Rightarrow> Message list
    \<Rightarrow> Result list \<times> fcm_request list" where
  "fcm_Send s race a ms = (case fcm_token race of
      None \<Rightarrow> (map (\<lambda>m. \<lparr>r_Token = m_Token m, r_Status = StatusError\<rparr>) ms, [])
    | Some access \<Rightarrow> fcm_sends (fcm_url s) access a ms)"

lemma fcm_status_provider [simp]: "provider_status (fcm_status a)"
  by (cases a) (auto simp: Let_def)

lemma fcm_sends_tokens: "map r_Token (fst (fcm_sends url access a ms)) = map m_Token ms"
  by (induction ms arbitrary: a) (auto simp: fcm_sendOne_def case_prod_unfold)

lemma fcm_sends_provider: "r \<in> set (fst (fcm_sends url access a ms)) \<Longrightarrow> provider_status (r_Status r)"
  by (induction ms arbitrary: a) (auto simp: fcm_sendOne_def case_prod_unfold)

lemma fcm_sends_requests: "set (snd (fcm_sends url access a ms)) \<subseteq> fcm_post url access ` set ms"
proof (induction ms arbitrary: a)
  case (Cons m ms)
  then show ?case using Cons[of "\<lambda>i. a (Suc i)"] by (auto simp: fcm_sendOne_def case_prod_unfold)
qed simp

lemma fcm_sends_posts:
  "snd (fcm_sends url access a ms) =
     map (\<lambda>i. fcm_post url access (ms ! i)) (filter (\<lambda>i. a i \<noteq> RequestInvalid) [0..<length ms])"
proof (induction ms arbitrary: a)
  case (Cons m ms)
  have "[0..<length (m # ms)] = 0 # map Suc [0..<length ms]" by (simp add: upt_conv_Cons map_Suc_upt del: upt_Suc)
  then show ?case by (simp add: fcm_sendOne_def case_prod_unfold Cons.IH comp_def filter_map del: upt_Suc)
qed simp

lemma fcm_Send_tokens: "map r_Token (fst (fcm_Send s race a ms)) = map m_Token ms"
  by (simp add: fcm_Send_def fcm_sends_tokens split: option.split)

lemma fcm_Send_provider: "r \<in> set (fst (fcm_Send s race a ms)) \<Longrightarrow> provider_status (r_Status r)"
  by (auto simp: fcm_Send_def dest: fcm_sends_provider split: option.splits)

section \<open>Error documents\<close>

text \<open>
  The error documents of FCM v1: a numeric code, a message, the generic status and a list of
  details, each with its type and either the specific error code or the violated fields with
  their descriptions.
\<close>

datatype fcm_detail = FcmError bytes bytes | BadRequest bytes "(bytes \<times> bytes) list"

fun fcm_detail_json :: "fcm_detail \<Rightarrow> json" where
  "fcm_detail_json (FcmError ty code) = JObj [(''@type'', JStr ty), (''errorCode'', JStr code)]"
| "fcm_detail_json (BadRequest ty vs) = JObj [(''@type'', JStr ty), (''fieldViolations'',
     JArr (map (\<lambda>(f, d). JObj [(''field'', JStr f), (''description'', JStr d)]) vs))]"

definition fcm_error_json :: "int \<Rightarrow> bytes \<Rightarrow> bytes \<Rightarrow> fcm_detail list \<Rightarrow> json" where
  "fcm_error_json code msg st ds = JObj [(''error'', JObj [(''code'', JNum (FormatInt code)), (''message'', JStr msg),
     (''status'', JStr st), (''details'', JArr (map fcm_detail_json ds))])]"

fun fcm_detail_val :: "fcm_detail \<Rightarrow> gval" where
  "fcm_detail_val (FcmError ty code) = GStruct [GString code, GSlice [] 0]"
| "fcm_detail_val (BadRequest ty vs) =
     GStruct [GString [], GSlice (map (\<lambda>(f, _). GStruct [GString f]) vs) (length vs)]"

fun fcm_codes :: "fcm_detail list \<Rightarrow> bytes list" where
  "fcm_codes [] = []"
| "fcm_codes (FcmError ty code # ds) = (if code = [] then fcm_codes ds else code # fcm_codes ds)"
| "fcm_codes (BadRequest ty vs # ds) = fcm_codes ds"

fun fcm_fields :: "fcm_detail list \<Rightarrow> bytes list" where
  "fcm_fields [] = []"
| "fcm_fields (FcmError ty code # ds) = fcm_fields ds"
| "fcm_fields (BadRequest ty vs # ds) = map fst vs @ fcm_fields ds"

abbreviation detail_fields :: "(bytes \<times> schema) list" where
  "detail_fields \<equiv> [(''errorCode'', SString), (''fieldViolations'', SSlice (SStruct [(''field'', SString)]))]"

lemma field_of_details:
  "field_of detail_fields ''@type'' = None" "field_of detail_fields ''errorCode'' = Some 0"
  "field_of detail_fields ''fieldViolations'' = Some 1" "field_of [(''field'', SString)] ''field'' = Some 0"
  "field_of [(''field'', SString)] ''description'' = None"
  by (simp_all add: field_of_def between_def)

lemma field_of_error:
  "field_of [(''status'', SString), (''details'', t)] ''status'' = Some 0"
  "field_of [(''status'', SString), (''details'', t)] ''details'' = Some 1"
  "field_of [(''status'', SString), (''details'', t)] ''code'' = None"
  "field_of [(''status'', SString), (''details'', t)] ''message'' = None"
  "field_of [(''details'', t)] ''status'' = None" "field_of [(''details'', t)] ''code'' = None"
  "field_of [(''details'', t)] ''message'' = None" "field_of [(''details'', t)] ''details'' = Some 0"
  "field_of [(''error'', t)] ''error'' = Some 0"
  by (simp_all add: field_of_def between_def)

lemma fill_violations:
  "fill_elems False (SStruct [(''field'', SString)])
     (map (\<lambda>(f, d). JObj [(''field'', JStr f), (''description'', JStr d)]) vs) []
   = Some (map (\<lambda>(f, _). GStruct [GString f]) vs)"
  by (induction vs) (auto simp: field_of_details)

lemma fill_detail: "fill False fcmErrorDetail_schema (fcm_detail_json d) (zero_of fcmErrorDetail_schema) = Some (fcm_detail_val d)"
proof (cases d)
  case (BadRequest ty vs)
  then show ?thesis
    using fill_violations[of vs] by (cases vs) (auto simp: fcmErrorDetail_schema_def field_of_details case_prod_unfold)
qed (simp add: fcmErrorDetail_schema_def field_of_details)

lemma fill_details:
  "fill_elems False fcmErrorDetail_schema (map fcm_detail_json ds) [] = Some (map fcm_detail_val ds)"
  by (induction ds) (simp_all add: fill_detail)

lemma fill_detail_list:
  "fill False (SSlice fcmErrorDetail_schema) (JArr (map fcm_detail_json ds)) (GSlice [] 0)
     = Some (GSlice (map fcm_detail_val ds) (length ds))"
  using fill_details[of ds] by (cases ds) simp_all

lemma fill_errorCode:
  "fill False errorCode_schema (fcm_error_json code msg st ds) (zero_of errorCode_schema)
     = Some (GStruct [GStruct [GString st, GSlice (map fcm_detail_val ds) (length ds)]])"
  by (simp add: errorCode_schema_def fcm_error_json_def field_of_error fill_detail_list)

lemma fill_violation:
  "fill False violation_schema (fcm_error_json code msg st ds) (zero_of violation_schema)
     = Some (GStruct [GStruct [GSlice (map fcm_detail_val ds) (length ds)]])"
  by (simp add: violation_schema_def fcm_error_json_def field_of_error fill_detail_list)

lemma fcmErrorDetail_of_val:
  "fcmErrorDetail_of (fcm_detail_val (FcmError ty code)) = \<lparr>fd_ErrorCode = code, fd_FieldViolations = []\<rparr>"
  "fcmErrorDetail_of (fcm_detail_val (BadRequest ty vs)) = \<lparr>fd_ErrorCode = [], fd_FieldViolations = map fst vs\<rparr>"
  by (auto simp: fcmErrorDetail_of_def comp_def case_prod_unfold)

lemma find_codes:
  "(case find (\<lambda>d. fd_ErrorCode d \<noteq> []) (map (\<lambda>d. fcmErrorDetail_of (fcm_detail_val d)) ds) of
      Some d \<Rightarrow> fd_ErrorCode d | None \<Rightarrow> st) = (case fcm_codes ds of [] \<Rightarrow> st | c # _ \<Rightarrow> c)"
  by (induction ds rule: fcm_codes.induct) (simp_all add: fcmErrorDetail_of_val del: fcm_detail_val.simps)

lemma list_ex_fields:
  "list_ex (\<lambda>d. list_ex (\<lambda>v. v = f) (fd_FieldViolations d)) (map (\<lambda>d. fcmErrorDetail_of (fcm_detail_val d)) ds)
     \<longleftrightarrow> f \<in> set (fcm_fields ds)"
  by (induction ds rule: fcm_fields.induct) (auto simp: fcmErrorDetail_of_val list_ex_iff simp del: fcm_detail_val.simps)

fun utf8_detail :: "fcm_detail \<Rightarrow> bool" where
  "utf8_detail (FcmError ty code) \<longleftrightarrow> utf8_ok ty \<and> utf8_ok code"
| "utf8_detail (BadRequest ty vs) \<longleftrightarrow> utf8_ok ty \<and> list_all (\<lambda>(f, d). utf8_ok f \<and> utf8_ok d) vs"

lemma utf8_detail_json: "utf8_detail d \<Longrightarrow> utf8_json (fcm_detail_json d)"
  by (cases d) (auto simp: list_all_iff utf8_ok.simps utf8_more_def)

lemma fcm_detail_depth: "depth (fcm_detail_json d) \<le> 3"
proof (cases d)
  case (BadRequest ty vs)
  have "fold max (map depth (map (\<lambda>(f, d). JObj [(''field'', JStr f), (''description'', JStr d)]) vs)) 0 \<le> 1"
    by (auto simp: fold_max)
  then show ?thesis using BadRequest by (simp add: comp_def)
qed simp

lemma fcm_error_facts:
  assumes "utf8_ok msg" "utf8_ok st" "list_all utf8_detail ds"
  shows "writable (fcm_error_json code msg st ds)" "bracketed (fcm_error_json code msg st ds)"
    "depth (fcm_error_json code msg st ds) \<le> maxNestingDepth"
    "cleaned (fcm_error_json code msg st ds) = fcm_error_json code msg st ds"
proof -
  have "writable (fcm_detail_json d)" for d by (cases d) (auto simp: list_all_iff)
  then show "writable (fcm_error_json code msg st ds)" by (auto simp: fcm_error_json_def list_all_iff)
  have "fold max (map depth (map fcm_detail_json ds)) 0 \<le> 3" using fcm_detail_depth by (auto simp: fold_max)
  then show "depth (fcm_error_json code msg st ds) \<le> maxNestingDepth" by (simp add: fcm_error_json_def maxNestingDepth_def)
  have "utf8_json (fcm_error_json code msg st ds)"
    using assms utf8_detail_json by (auto simp: fcm_error_json_def list_all_iff)
  then show "cleaned (fcm_error_json code msg st ds) = fcm_error_json code msg st ds" by (rule cleaned_id)
qed (simp add: fcm_error_json_def)

lemma fcm_error_read:
  assumes "utf8_ok msg" "utf8_ok st" "list_all utf8_detail ds"
  shows "errorCode (json_text (fcm_error_json code msg st ds)) = (case fcm_codes ds of [] \<Rightarrow> st | c # _ \<Rightarrow> c)"
    and "tokenFieldViolation (json_text (fcm_error_json code msg st ds)) \<longleftrightarrow> ''message.token'' \<in> set (fcm_fields ds)"
proof -
  have "json_value (json_text (fcm_error_json code msg st ds)) = Some (fcm_error_json code msg st ds)"
    using json_value_text[OF fcm_error_facts(1-3)[OF assms], of "[]"] fcm_error_facts(4)[OF assms] by simp
  then show "errorCode (json_text (fcm_error_json code msg st ds)) = (case fcm_codes ds of [] \<Rightarrow> st | c # _ \<Rightarrow> c)"
    and "tokenFieldViolation (json_text (fcm_error_json code msg st ds)) \<longleftrightarrow> ''message.token'' \<in> set (fcm_fields ds)"
    by (simp_all add: errorCode_def tokenFieldViolation_def unmarshal_def fill_errorCode fill_violation
        find_codes list_ex_fields comp_def Let_def split: list.split)
qed

lemma fcm_error_cut:
  assumes "utf8_ok msg" "utf8_ok st" "list_all utf8_detail ds" "n < length (json_text (fcm_error_json code msg st ds))"
  shows "errorCode (take n (json_text (fcm_error_json code msg st ds))) = []"
    and "\<not> tokenFieldViolation (take n (json_text (fcm_error_json code msg st ds)))"
  using json_value_cut[OF fcm_error_facts(1-3)[OF assms(1-3)] assms(4)]
  by (simp_all add: errorCode_def tokenFieldViolation_def unmarshal_def)

section \<open>The posted document\<close>

lemma kind_str_utf8: "utf8_ok (kind_str k)"
  by (cases k) simp_all

lemma fcm_body_reads_back:
  assumes "utf8_ok (m_Token m)" "utf8_ok (m_Payload m)"
  shows "json_value (json_text (fcm_body m)) = Some (fcm_body m)"
proof -
  have "utf8_json (fcm_body m)" using assms by (simp add: fcm_body_def kind_str_utf8)
  then show ?thesis
    using json_value_text[of "fcm_body m" "[]"] by (simp add: cleaned_id) (simp add: fcm_body_def maxNestingDepth_def)
qed

section \<open>Properties\<close>


text \<open>The length of the example document is bounded through that of its strings.\<close>

definition ex_detail :: fcm_detail where
  "ex_detail = FcmError ''t'' ''UNREGISTERED''"

lemma ex_error_length: "length (json_text (fcm_error_json 404 ''gone'' ''NOT_FOUND'' [ex_detail])) \<le> 16384"
proof -
  have "length (FormatInt 404) \<le> 1000" by (simp add: FormatInt_def nat_digits.simps)
  then show ?thesis
    using quoted_length[of "''error''"] quoted_length[of "''code''"] quoted_length[of "''message''"] quoted_length[of "''status''"]
      quoted_length[of "''details''"] quoted_length[of "''gone''"] quoted_length[of "''NOT_FOUND''"] quoted_length[of "''@type''"]
      quoted_length[of "''t''"] quoted_length[of "''errorCode''"] quoted_length[of "''UNREGISTERED''"]
    by (simp add: fcm_error_json_def ex_detail_def)
qed



lemma quote_letters: "list_all (\<lambda>c. ascii c \<and> esc_ascii c = [c]) s \<Longrightarrow> quote_body s = s"
  by (induction s) (simp_all add: quote_body.simps(2))

lemma utf8_letters: "list_all ascii s \<Longrightarrow> utf8_ok s"
  by (induction s) simp_all


text \<open>
  C34: without an access token nothing is posted and every message is an error. With one, each
  message whose request can be built is posted once, in order, to the project's endpoint
  with the bearer token. The text posted for a message of valid UTF-8 reads back as a data
  message of high priority that carries the token, the kind and the untouched payload and
  no notification text.
\<close>

theorem fcm_send_posts:
  "(case fcm_token race of
      None \<Rightarrow> snd (fcm_Send s race a ms) = [] \<and> (\<forall>r \<in> set (fst (fcm_Send s race a ms)). r_Status r = StatusError)
    | Some access \<Rightarrow> (\<exists>text. snd (fcm_Send s race a ms) =
        map (\<lambda>i. \<lparr>fq_url = fs_endpoint s @ ''/v1/projects/'' @ fs_projectID s @ ''/messages:send'',
                  fq_authorization = ''Bearer '' @ access, fq_content_type = ''application/json'', fq_body = text (ms ! i)\<rparr>)
          (filter (\<lambda>i. a i \<noteq> RequestInvalid) [0..<length ms]) \<and>
        (\<forall>m. utf8_ok (m_Token m) \<and> utf8_ok (m_Payload m) \<longrightarrow> json_value (text m) = Some
           (JObj [(''message'', JObj [
              (''android'', JObj [(''priority'', JStr ''high'')]),
              (''data'', JObj [(''kind'', JStr (kind_str (m_Kind m))), (''payload'', JStr (m_Payload m))]),
              (''token'', JStr (m_Token m))])])))) \<and>
   map r_Token (fst (fcm_Send s race a ms)) = map m_Token ms"
proof -
  have p: "fcm_post (fcm_url s) access m = \<lparr>fq_url = fs_endpoint s @ ''/v1/projects/'' @ fs_projectID s @ ''/messages:send'',
      fq_authorization = ''Bearer '' @ access, fq_content_type = ''application/json'', fq_body = json_text (fcm_body m)\<rparr>" for access m
    by (simp add: fcm_post_def fcm_url_def)
  have t: "json_value (json_text (fcm_body m)) = Some (JObj [(''message'', JObj [
      (''android'', JObj [(''priority'', JStr ''high'')]),
      (''data'', JObj [(''kind'', JStr (kind_str (m_Kind m))), (''payload'', JStr (m_Payload m))]),
      (''token'', JStr (m_Token m))])])" if "utf8_ok (m_Token m)" "utf8_ok (m_Payload m)" for m
    by (simp only: fcm_body_reads_back[OF that] option.inject) (rule fcm_body_def)
  show ?thesis
  proof (cases "fcm_token race")
    case None
    then show ?thesis using fcm_Send_tokens by (auto simp: fcm_Send_def)
  next
    case (Some access)
    show ?thesis unfolding Some option.case
      by (intro conjI exI[of _ "\<lambda>m. json_text (fcm_body m)"] allI impI)
        (auto simp: fcm_Send_def Some fcm_sends_posts p fcm_sends_tokens t simp del: json_text.simps)
  qed
qed

theorem fcm_send_posts_witness:
  "fst (fcm_Send \<lparr>fs_projectID = ''p'', fs_endpoint = fcm_endpoint\<rparr> FetchFailed (\<lambda>_. HttpFailed)
     [\<lparr>m_Token = ''t'', m_Kind = KindWake, m_Payload = ''x''\<rparr>]) = [\<lparr>r_Token = ''t'', r_Status = StatusError\<rparr>]"
  using fcm_send_posts[where race = FetchFailed and ms = "[\<lparr>m_Token = ''t'', m_Kind = KindWake, m_Payload = ''x''\<rparr>]"
      and s = "\<lparr>fs_projectID = ''p'', fs_endpoint = fcm_endpoint\<rparr>" and a = "\<lambda>_. HttpFailed"]
  by (simp add: fcm_Send_def)
end
