(* ===== verification/Senders.thy ===== *)
theory Senders
  imports Apns Fcm
begin

text \<open>
  The \<open>push.Sender\<close> interface and its three implementations. Beside its results a call to
  \<open>Send\<close> has effects the relay's guarantees speak of: what it hands to a provider and what it
  logs, once per request and platform for an unconfigured provider. They are kept in a
  \<open>sctx\<close>, which also holds the dedupe map \<open>WithRequestScope\<close> puts into the context.
\<close>

datatype provider_call = ApnsPush Notification | FcmPost fcm_request

record sctx =
  c_scope :: "bytes list option"
  c_log :: "log_line list"
  c_calls :: "provider_call list"

definition WithRequestScope :: "sctx \<Rightarrow> sctx" where
  "WithRequestScope c = c\<lparr>c_scope := Some []\<rparr>"

text \<open>What the surroundings answer during one call to \<open>Send\<close>.\<close>

record answer =
  an_apns :: "nat \<Rightarrow> apns_answer"
  an_token :: token_race
  an_fcm :: "nat \<Rightarrow> fcm_answer"

definition logRejection :: "bytes \<Rightarrow> sctx \<Rightarrow> sctx" where
  "logRejection platform c = (case c_scope c of
      None \<Rightarrow> c\<lparr>c_log := c_log c @ [LogNotConfigured platform False]\<rparr>
    | Some seen \<Rightarrow>
        if platform \<in> set seen then c
        else c\<lparr>c_scope := Some (platform # seen),
               c_log := c_log c @ [LogNotConfigured platform True]\<rparr>)"

definition unconfigured_Send :: "bytes \<Rightarrow> Message list \<Rightarrow> sctx \<Rightarrow> Result list \<times> sctx" where
  "unconfigured_Send platform ms c =
     (map (\<lambda>m. \<lparr>r_Token = m_Token m, r_Status = StatusError\<rparr>) ms,
      if ms \<noteq> [] then logRejection platform c else c)"

datatype Sender = SApns ApnsSender | SFcm FcmSender | SUnconfigured bytes

fun Send :: "Sender \<Rightarrow> answer \<Rightarrow> Message list \<Rightarrow> sctx \<Rightarrow> Result list \<times> sctx" where
  "Send (SApns s) an ms c =
     (case apns_Send s (an_apns an) ms of (rs, ns) \<Rightarrow> (rs, c\<lparr>c_calls := c_calls c @ map ApnsPush ns\<rparr>))"
| "Send (SFcm s) an ms c =
     (case fcm_Send s (an_token an) (an_fcm an) ms of
        (rs, qs) \<Rightarrow> (rs, c\<lparr>c_calls := c_calls c @ map FcmPost qs\<rparr>))"
| "Send (SUnconfigured p) an ms c = unconfigured_Send p ms c"

section \<open>The contract of a sender\<close>

locale push_sender =
  fixes send :: "'e \<Rightarrow> Message list \<Rightarrow> sctx \<Rightarrow> Result list \<times> sctx"
  assumes send_tokens: "map r_Token (fst (send e ms c)) = map m_Token ms"
    and send_provider: "r \<in> set (fst (send e ms c)) \<Longrightarrow> provider_status (r_Status r)"
begin

lemma send_length: "length (fst (send e ms c)) = length ms"
  using arg_cong[OF send_tokens[of e ms c], of length] by simp

lemma send_one: "\<exists>st. fst (send e [m] c) = [\<lparr>r_Token = m_Token m, r_Status = st\<rparr>] \<and> provider_status st"
proof -
  obtain r where r: "fst (send e [m] c) = [r]"
    using send_length[of e "[m]" c] by (cases "fst (send e [m] c)") auto
  then have "r_Token r = m_Token m" "provider_status (r_Status r)"
    using send_tokens[of e "[m]" c] send_provider[of r e "[m]" c] by simp_all
  then show ?thesis using r by (metis (full_types) Result.surjective old.unit.exhaust)
qed

end

interpretation apns: push_sender "\<lambda>an ms c. Send (SApns s) an ms c" for s
  using apns_Send_tokens apns_Send_provider by unfold_locales (auto simp: case_prod_unfold)

interpretation fcm: push_sender "\<lambda>an ms c. Send (SFcm s) an ms c" for s
  using fcm_Send_tokens fcm_Send_provider by unfold_locales (auto simp: case_prod_unfold)

interpretation unconf: push_sender "\<lambda>an ms c. Send (SUnconfigured p) an ms c" for p
  by unfold_locales (auto simp: unconfigured_Send_def)

interpretation sender: push_sender "Send s" for s
proof unfold_locales
  fix e ms c r
  show "map r_Token (fst (Send s e ms c)) = map m_Token ms"
    by (cases s) (simp_all only: apns.send_tokens fcm.send_tokens unconf.send_tokens)
  show "r \<in> set (fst (Send s e ms c)) \<Longrightarrow> provider_status (r_Status r)"
    by (cases s) (auto simp del: Send.simps intro: apns.send_provider fcm.send_provider unconf.send_provider)
qed

section \<open>Effects\<close>

text \<open>What one call hands to the provider names only the messages it was given.\<close>

fun call_of :: "Sender \<Rightarrow> Message \<Rightarrow> provider_call \<Rightarrow> bool" where
  "call_of (SApns s) m (ApnsPush n) \<longleftrightarrow> n = apns_notification s m"
| "call_of (SFcm s) m (FcmPost q) \<longleftrightarrow> (\<exists>access. q = fcm_post (fcm_url s) access m)"
| "call_of _ _ _ \<longleftrightarrow> False"

lemma Send_calls:
  "\<exists>cs. c_calls (snd (Send s an ms c)) = c_calls c @ cs \<and> (\<forall>x \<in> set cs. \<exists>m \<in> set ms. call_of s m x)"
proof (cases s)
  case (SApns a)
  then show ?thesis by (auto simp: case_prod_unfold apns_Send_notifications)
next
  case (SFcm f)
  have "\<forall>x \<in> set (map FcmPost (snd (fcm_Send f (an_token an) (an_fcm an) ms))). \<exists>m \<in> set ms. call_of s m x"
    using SFcm fcm_sends_requests[of "fcm_url f" _ "an_fcm an" ms]
    by (fastforce simp: fcm_Send_def split: option.splits)
  then show ?thesis using SFcm by (auto simp: case_prod_unfold)
next
  case (SUnconfigured p)
  then show ?thesis by (auto simp: unconfigured_Send_def logRejection_def split: option.splits)
qed

lemma Send_one_call:
  "\<exists>cs. c_calls (snd (Send s an [m] c)) = c_calls c @ cs \<and> length cs \<le> 1 \<and> (\<forall>x \<in> set cs. call_of s m x)"
proof -
  obtain cs where cs: "c_calls (snd (Send s an [m] c)) = c_calls c @ cs" "\<forall>x \<in> set cs. call_of s m x"
    using Send_calls[of s an "[m]" c] by auto
  have "length (c_calls (snd (Send s an [m] c))) \<le> length (c_calls c) + 1"
    by (cases s) (auto simp: case_prod_unfold apns_Send_notifications fcm_Send_def fcm_sendOne_def
        unconfigured_Send_def logRejection_def split: option.split)
  then show ?thesis using cs by auto
qed

text \<open>
  Inside a request scope an unconfigured platform is logged at most once, and every line
  logged is for a platform of the scope.
\<close>

definition scope_ok :: "sctx \<Rightarrow> bool" where
  "scope_ok c \<longleftrightarrow> (\<exists>seen. c_scope c = Some seen \<and> distinct seen \<and>
     c_log c = map (\<lambda>p. LogNotConfigured p True) (rev seen))"

lemma Send_scope_ok: "scope_ok c \<Longrightarrow> scope_ok (snd (Send s an ms c))"
  by (cases s) (auto simp: scope_ok_def unconfigured_Send_def logRejection_def case_prod_unfold)

section \<open>Properties\<close>

text \<open>
  Whichever provider is behind it, and whatever it answers, a call to \<open>Send\<close> returns one result
  per message, in order and under the message's token, each delivered, unregistered or an
  error; and what it hands to the provider is the push of a message of the call, for this
  sender's own provider.
\<close>

lemma sender_contract:
  "map r_Token (fst (Send s an ms c)) = map m_Token ms \<and>
   (\<forall>r \<in> set (fst (Send s an ms c)). r_Status r \<in> {StatusDelivered, StatusUnregistered, StatusError}) \<and>
   (\<exists>cs. c_calls (snd (Send s an ms c)) = c_calls c @ cs \<and> (\<forall>x \<in> set cs. \<exists>m \<in> set ms. call_of s m x))"
  using sender.send_tokens sender.send_provider Send_calls by (simp add: provider_status_def)

end
