(* ===== verification/Dispatch.thy ===== *)
theory Dispatch
  imports Senders
begin

text \<open>
  \<open>dispatch\<close> of \<open>internal/api/send.go\<close>: the bounded worker pool, as a state machine. The
  feed loop hands indices of \<open>items\<close> over an unbuffered channel to the workers, which call
  their item's sender and write its slot of \<open>results\<close>; the request's context may be done at
  any moment, after which the feed may stop, and must stop once no worker takes an index
  any more. A step of the machine is one event; which event comes next is the scheduler's
  choice, so a run is a list of events, and a theorem about every list holds for every
  interleaving.
\<close>

record dispatchItem =
  di_resultIdx :: nat
  di_sender :: Sender
  di_msg :: Message

text \<open>A worker: waiting to receive from the channel, inside \<open>Send\<close> with an item, or returned.\<close>

datatype worker = Ready | is_Sending: Sending nat | Exited

record pool =
  po_next :: nat
  po_closed :: bool
  po_done :: bool
  po_workers :: "worker list"
  po_results :: "Result list"
  po_ctx :: sctx

text \<open>
  The events: worker \<open>w\<close> receives the next index (\<open>work <- idx\<close>), the context becomes
  done, the feed loop takes its \<open>ctx.Done()\<close> case and closes the channel, the feed loop
  runs out of items and closes the channel, worker \<open>w\<close>'s call to \<open>Send\<close> returns, worker
  \<open>w\<close> sees the closed channel and returns.
\<close>

datatype pool_event =
    Hand nat
  | CtxDone
  | FeedBreak
  | FeedEnd
  | Finish nat answer
  | Leave nat

definition worker_result :: "dispatchItem \<Rightarrow> answer \<Rightarrow> sctx \<Rightarrow> Result \<times> sctx" where
  "worker_result item an c =
     (case Send (di_sender item) an [di_msg item] c of (out, c') \<Rightarrow>
        (\<lparr>r_Token = m_Token (di_msg item),
          r_Status = (case out of [] \<Rightarrow> StatusError | r # _ \<Rightarrow> r_Status r)\<rparr>, c'))"

fun pool_step :: "dispatchItem list \<Rightarrow> pool_event \<Rightarrow> pool \<Rightarrow> pool option" where
  "pool_step items (Hand w) p =
     (if \<not> po_closed p \<and> po_next p < length items \<and> w < length (po_workers p) \<and> po_workers p ! w = Ready
      then Some (p\<lparr>po_next := Suc (po_next p), po_workers := (po_workers p)[w := Sending (po_next p)]\<rparr>)
      else None)"
| "pool_step items CtxDone p = (if po_done p then None else Some (p\<lparr>po_done := True\<rparr>))"
| "pool_step items FeedBreak p =
     (if \<not> po_closed p \<and> po_done p \<and> po_next p < length items then Some (p\<lparr>po_closed := True\<rparr>) else None)"
| "pool_step items FeedEnd p =
     (if \<not> po_closed p \<and> po_next p = length items then Some (p\<lparr>po_closed := True\<rparr>) else None)"
| "pool_step items (Finish w an) p =
     (if w < length (po_workers p)
      then (case po_workers p ! w of
              Sending i \<Rightarrow>
                (case worker_result (items ! i) an (po_ctx p) of (r, c) \<Rightarrow>
                   Some (p\<lparr>po_workers := (po_workers p)[w := Ready],
                           po_results := (po_results p)[di_resultIdx (items ! i) := r], po_ctx := c\<rparr>))
            | _ \<Rightarrow> None)
      else None)"
| "pool_step items (Leave w) p =
     (if po_closed p \<and> w < length (po_workers p) \<and> po_workers p ! w = Ready
      then Some (p\<lparr>po_workers := (po_workers p)[w := Exited]\<rparr>) else None)"

fun pool_run :: "dispatchItem list \<Rightarrow> pool_event list \<Rightarrow> pool \<Rightarrow> pool option" where
  "pool_run items [] p = Some p"
| "pool_run items (e # es) p = (case pool_step items e p of None \<Rightarrow> None | Some p' \<Rightarrow> pool_run items es p')"

text \<open>\<open>wg.Wait()\<close> returns once the channel is closed and every worker has returned.\<close>

definition pool_quiet :: "pool \<Rightarrow> bool" where
  "pool_quiet p \<longleftrightarrow> po_closed p \<and> list_all (\<lambda>w. w = Exited) (po_workers p)"

definition worker_count :: "int \<Rightarrow> nat \<Rightarrow> nat" where
  "worker_count concurrency n =
     (let workers = (if concurrency \<le> 0 then 1 else concurrency)
      in if int n < workers then n else nat workers)"

text \<open>
  \<open>context.WithTimeout\<close> with a timeout that is not positive is done at once; the product
  with \<open>time.Second\<close> is an int64 and wraps.
\<close>

definition born_done :: "int \<Rightarrow> bool \<Rightarrow> bool" where
  "born_done timeout parent_done \<longleftrightarrow>
     parent_done \<or> 0 < timeout \<and> wrap64 (timeout * second_ns) \<le> 0"

definition pool_start :: "int \<Rightarrow> int \<Rightarrow> bool \<Rightarrow> dispatchItem list \<Rightarrow> Result list \<Rightarrow> sctx \<Rightarrow> pool" where
  "pool_start concurrency timeout parent_done items results c =
     \<lparr>po_next = 0, po_closed = False, po_done = born_done timeout parent_done,
      po_workers = replicate (worker_count concurrency (length items)) Ready,
      po_results = results, po_ctx = WithRequestScope c\<rparr>"

fun mark_not_attempted :: "dispatchItem list \<Rightarrow> Result list \<Rightarrow> Result list" where
  "mark_not_attempted [] rs = rs"
| "mark_not_attempted (i # is) rs =
     mark_not_attempted is
       (if r_Status (rs ! di_resultIdx i) = StatusUnset
        then rs[di_resultIdx i := \<lparr>r_Token = m_Token (di_msg i), r_Status = StatusNotAttempted\<rparr>]
        else rs)"

text \<open>The whole of \<open>dispatch\<close> along a schedule: \<open>None\<close> while the schedule does not complete it.\<close>

definition dispatch :: "int \<Rightarrow> int \<Rightarrow> bool \<Rightarrow> pool_event list \<Rightarrow> dispatchItem list \<Rightarrow> Result list \<Rightarrow> sctx
    \<Rightarrow> (Result list \<times> sctx) option" where
  "dispatch concurrency timeout parent_done sched items results c =
     (if items = [] then Some (results, c)
      else case pool_run items sched (pool_start concurrency timeout parent_done items results c) of
             None \<Rightarrow> None
           | Some p \<Rightarrow>
               if pool_quiet p then Some (mark_not_attempted items (po_results p), po_ctx p) else None)"

section \<open>The invariant of the pool\<close>

definition one_each :: "worker list \<Rightarrow> bool" where
  "one_each ws \<longleftrightarrow> (\<forall>v w i. v < length ws \<longrightarrow> w < length ws \<longrightarrow> ws ! v = Sending i \<longrightarrow> ws ! w = Sending i \<longrightarrow> v = w)"

lemma sending_hand:
  "w < length ws \<Longrightarrow> ws ! w = Ready \<Longrightarrow> Sending j \<in> set (ws[w := Sending n]) \<longleftrightarrow> j = n \<or> Sending j \<in> set ws"
  by (auto simp: in_set_conv_nth nth_list_update split: if_splits) (metis worker.distinct(1))

lemma sending_leave:
  "w < length ws \<Longrightarrow> ws ! w = Ready \<Longrightarrow> Sending j \<in> set (ws[w := Exited]) \<longleftrightarrow> Sending j \<in> set ws"
  by (auto simp: in_set_conv_nth nth_list_update split: if_splits) (metis worker.distinct(1))

lemma sending_finish:
  assumes "w < length ws" "ws ! w = Sending i" "one_each ws"
  shows "Sending j \<in> set (ws[w := Ready]) \<longleftrightarrow> j \<noteq> i \<and> Sending j \<in> set ws"
proof
  assume "Sending j \<in> set (ws[w := Ready])"
  then obtain v where v: "v < length ws" "ws[w := Ready] ! v = Sending j" by (auto simp: in_set_conv_nth)
  then have n: "v \<noteq> w" "ws ! v = Sending j" using assms(1) by (auto simp: nth_list_update split: if_splits)
  then have "j \<noteq> i" using assms v(1) unfolding one_each_def by metis
  then show "j \<noteq> i \<and> Sending j \<in> set ws" using v(1) n(2) by (metis nth_mem)
next
  assume j: "j \<noteq> i \<and> Sending j \<in> set ws"
  then obtain v where v: "v < length ws" "ws ! v = Sending j" by (auto simp: in_set_conv_nth)
  then have "v \<noteq> w" using j assms(2) by auto
  then have "ws[w := Ready] ! v = Sending j" using v(2) by simp
  then show "Sending j \<in> set (ws[w := Ready])" using v(1) by (metis length_list_update nth_mem)
qed

lemma one_eachD: "one_each ws \<Longrightarrow> v < length ws \<Longrightarrow> w < length ws \<Longrightarrow> ws ! v = Sending i \<Longrightarrow> ws ! w = Sending i \<Longrightarrow> v = w"
  unfolding one_each_def by metis

lemma one_each_hand: "one_each ws \<Longrightarrow> Sending n \<notin> set ws \<Longrightarrow> one_each (ws[w := Sending n])"
  unfolding one_each_def length_list_update by (metis nth_list_update_eq nth_list_update_neq nth_mem worker.inject)

lemma one_each_clear: "one_each ws \<Longrightarrow> (\<And>i. x \<noteq> Sending i) \<Longrightarrow> one_each (ws[w := x])"
  unfolding one_each_def length_list_update by (metis nth_list_update_eq nth_list_update_neq)

definition filled :: "dispatchItem \<Rightarrow> Result \<Rightarrow> bool" where
  "filled item r \<longleftrightarrow> r_Token r = m_Token (di_msg item) \<and> provider_status (r_Status r)"

definition items_ok :: "dispatchItem list \<Rightarrow> Result list \<Rightarrow> bool" where
  "items_ok items rs \<longleftrightarrow> distinct (map di_resultIdx items) \<and>
     (\<forall>i \<in> set items. di_resultIdx i < length rs \<and> r_Status (rs ! di_resultIdx i) = StatusUnset)"

definition pool_inv :: "dispatchItem list \<Rightarrow> Result list \<Rightarrow> pool \<Rightarrow> bool" where
  "pool_inv items rs p \<longleftrightarrow>
     length (po_results p) = length rs \<and> po_next p \<le> length items \<and>
     (\<forall>i. Sending i \<in> set (po_workers p) \<longrightarrow> i < po_next p) \<and> one_each (po_workers p) \<and>
     (\<forall>i < length items. if i < po_next p \<and> Sending i \<notin> set (po_workers p)
        then filled (items ! i) (po_results p ! di_resultIdx (items ! i))
        else po_results p ! di_resultIdx (items ! i) = rs ! di_resultIdx (items ! i)) \<and>
     (\<forall>j < length rs. j \<notin> di_resultIdx ` set items \<longrightarrow> po_results p ! j = rs ! j) \<and>
     (po_closed p \<longrightarrow> po_next p = length items \<or> po_done p)"

lemma worker_result_filled: "filled item (fst (worker_result item an c))"
proof -
  obtain st where "fst (Send (di_sender item) an [di_msg item] c) = [\<lparr>r_Token = m_Token (di_msg item), r_Status = st\<rparr>]"
    "provider_status st"
    using sender.send_one by blast
  then show ?thesis by (simp add: worker_result_def filled_def case_prod_unfold)
qed

lemma items_idx_inj:
  "items_ok items rs \<Longrightarrow> i < length items \<Longrightarrow> j < length items \<Longrightarrow>
     di_resultIdx (items ! i) = di_resultIdx (items ! j) \<longleftrightarrow> i = j"
  by (metis items_ok_def length_map nth_eq_iff_index_eq nth_map)

lemma pool_inv_step:
  assumes ok: "items_ok items rs" and inv: "pool_inv items rs p" and st: "pool_step items e p = Some p'"
  shows "pool_inv items rs p'"
proof (cases e)
  case (Hand w)
  then have h: "\<not> po_closed p" "po_next p < length items" "w < length (po_workers p)" "po_workers p ! w = Ready"
    and p': "p' = p\<lparr>po_next := Suc (po_next p), po_workers := (po_workers p)[w := Sending (po_next p)]\<rparr>"
    using st by (auto split: if_splits)
  have fresh: "Sending (po_next p) \<notin> set (po_workers p)" using inv by (auto simp: pool_inv_def)
  show ?thesis
    using inv h fresh unfolding p' pool_inv_def
    by (auto simp: sending_hand one_each_hand less_Suc_eq split: if_splits)
next
  case (Finish w an)
  then obtain i r c where h: "w < length (po_workers p)" "po_workers p ! w = Sending i"
    and r: "worker_result (items ! i) an (po_ctx p) = (r, c)"
    and p': "p' = p\<lparr>po_workers := (po_workers p)[w := Ready],
        po_results := (po_results p)[di_resultIdx (items ! i) := r], po_ctx := c\<rparr>"
    using st by (auto split: if_splits worker.splits prod.splits)
  have i: "Sending i \<in> set (po_workers p)" using h nth_mem by metis
  then have il: "i < po_next p" "i < length items" using inv by (auto simp: pool_inv_def)
  have idx: "di_resultIdx (items ! i) < length (po_results p)"
    using ok inv il by (auto simp: items_ok_def pool_inv_def)
  have one: "one_each (po_workers p)" using inv by (simp add: pool_inv_def)
  have fr: "filled (items ! i) r" using worker_result_filled[of "items ! i" an "po_ctx p"] r by simp
  note sf = sending_finish[OF h one]
  show ?thesis
    unfolding p' pool_inv_def
  proof (intro conjI allI impI, goal_cases)
    case (5 j)
    show ?case
    proof (cases "j = i")
      case True
      then show ?thesis using fr il idx sf by simp
    next
      case False
      then have "di_resultIdx (items ! j) \<noteq> di_resultIdx (items ! i)"
        using items_idx_inj[OF ok 5 il(2)] by simp
      then show ?thesis using inv 5 False sf by (auto simp: pool_inv_def)
    qed
  qed (use inv idx sf il one_each_clear[OF one] in \<open>auto simp: pool_inv_def nth_list_update\<close>)
next
  case (Leave w)
  then have h: "w < length (po_workers p)" "po_workers p ! w = Ready"
    and p': "p' = p\<lparr>po_workers := (po_workers p)[w := Exited]\<rparr>"
    using st by (auto split: if_splits)
  show ?thesis
    using inv h one_each_clear unfolding p' pool_inv_def by (auto simp: sending_leave)
qed (use st inv in \<open>auto simp: pool_inv_def split: if_splits\<close>)

lemma pool_inv_run: "items_ok items rs \<Longrightarrow> pool_inv items rs p \<Longrightarrow> pool_run items es p = Some p' \<Longrightarrow> pool_inv items rs p'"
  by (induction es arbitrary: p) (auto split: option.splits intro: pool_inv_step)

lemma pool_inv_start: "pool_inv items rs (pool_start conc tmo pd items rs c)"
  by (auto simp: pool_inv_def pool_start_def one_each_def)

section \<open>What a completed dispatch returns\<close>

lemma mark_length [simp]: "length (mark_not_attempted items rs) = length rs"
  by (induction items rs rule: mark_not_attempted.induct) auto

lemma mark_other: "j \<notin> di_resultIdx ` set items \<Longrightarrow> mark_not_attempted items rs ! j = rs ! j"
  by (induction items rs rule: mark_not_attempted.induct) auto

lemma mark_item:
  "distinct (map di_resultIdx items) \<Longrightarrow> i \<in> set items \<Longrightarrow> di_resultIdx i < length rs \<Longrightarrow>
     mark_not_attempted items rs ! di_resultIdx i =
       (if r_Status (rs ! di_resultIdx i) = StatusUnset
        then \<lparr>r_Token = m_Token (di_msg i), r_Status = StatusNotAttempted\<rparr> else rs ! di_resultIdx i)"
proof (induction items rs rule: mark_not_attempted.induct)
  case (2 a items rs)
  show ?case
  proof (cases "i = a")
    case True
    then have "di_resultIdx i \<notin> di_resultIdx ` set items" using 2(2) by simp
    then show ?thesis using 2(4) True by (simp add: mark_other)
  next
    case False
    then have i: "i \<in> set items" "di_resultIdx a \<noteq> di_resultIdx i" using 2(2,3) by auto
    then show ?thesis using 2(1)[OF _ i(1)] 2(2,4) by simp
  qed
qed simp

lemma pool_done_run:
  "pool_run items es p = Some p' \<Longrightarrow> po_done p' \<longleftrightarrow> po_done p \<or> CtxDone \<in> set es"
proof (induction es arbitrary: p)
  case (Cons e es)
  then obtain q where q: "pool_step items e p = Some q" "pool_run items es q = Some p'" by (auto split: option.splits)
  then have "po_done q \<longleftrightarrow> po_done p \<or> e = CtxDone"
    by (cases e) (auto split: if_splits worker.splits prod.splits)
  then show ?case using Cons.IH[OF q(2)] by auto
qed simp

definition attempted :: "dispatchItem list \<Rightarrow> nat \<Rightarrow> Result list \<Rightarrow> Result list \<Rightarrow> bool" where
  "attempted items k rs rs' \<longleftrightarrow>
     k \<le> length items \<and> length rs' = length rs \<and>
     (\<forall>i < k. filled (items ! i) (rs' ! di_resultIdx (items ! i))) \<and>
     (\<forall>i < length items. k \<le> i \<longrightarrow>
        rs' ! di_resultIdx (items ! i) = \<lparr>r_Token = m_Token (di_msg (items ! i)), r_Status = StatusNotAttempted\<rparr>) \<and>
     (\<forall>j < length rs. j \<notin> di_resultIdx ` set items \<longrightarrow> rs' ! j = rs ! j)"

lemma quiet_no_sending: "pool_quiet p \<Longrightarrow> Sending i \<notin> set (po_workers p)"
  by (auto simp: pool_quiet_def list_all_iff)

lemma pool_attempted:
  assumes ok: "items_ok items rs" and inv: "pool_inv items rs p" and q: "pool_quiet p"
  shows "attempted items (po_next p) rs (mark_not_attempted items (po_results p))"
proof -
  have d: "distinct (map di_resultIdx items)" using ok by (simp add: items_ok_def)
  have len: "length (po_results p) = length rs" using inv by (simp add: pool_inv_def)
  have at: "mark_not_attempted items (po_results p) ! di_resultIdx (items ! i) =
      (if r_Status (po_results p ! di_resultIdx (items ! i)) = StatusUnset
       then \<lparr>r_Token = m_Token (di_msg (items ! i)), r_Status = StatusNotAttempted\<rparr>
       else po_results p ! di_resultIdx (items ! i))" if "i < length items" for i
    using ok that len by (intro mark_item[OF d]) (auto simp: items_ok_def)
  have slot: "if i < po_next p then filled (items ! i) (po_results p ! di_resultIdx (items ! i))
      else r_Status (po_results p ! di_resultIdx (items ! i)) = StatusUnset" if "i < length items" for i
    using inv quiet_no_sending[OF q, of i] that ok by (auto simp: pool_inv_def items_ok_def)
  have le: "po_next p \<le> length items" using inv by (simp add: pool_inv_def)
  show ?thesis
    unfolding attempted_def
  proof (intro conjI allI impI)
    fix i assume "i < po_next p"
    then show "filled (items ! i) (mark_not_attempted items (po_results p) ! di_resultIdx (items ! i))"
      using at[of i] slot[of i] le by (auto simp: filled_def)
  next
    fix i assume "i < length items" "po_next p \<le> i"
    then show "mark_not_attempted items (po_results p) ! di_resultIdx (items ! i) =
        \<lparr>r_Token = m_Token (di_msg (items ! i)), r_Status = StatusNotAttempted\<rparr>"
      using at[of i] slot[of i] by auto
  next
    fix j assume "j < length rs" "j \<notin> di_resultIdx ` set items"
    then show "mark_not_attempted items (po_results p) ! j = rs ! j"
      using inv by (simp add: mark_other pool_inv_def)
  qed (use le len in simp_all)
qed

lemma dispatch_pool:
  assumes "dispatch conc tmo pd sched items rs c = Some (rs', c')" "items \<noteq> []"
  obtains p where "pool_run items sched (pool_start conc tmo pd items rs c) = Some p" "pool_quiet p"
    "rs' = mark_not_attempted items (po_results p)" "c' = po_ctx p"
  using assms by (auto simp: dispatch_def split: if_splits option.splits)

lemma dispatch_results:
  assumes "dispatch conc tmo pd sched items rs c = Some (rs', c')" and ok: "items_ok items rs"
  shows "\<exists>k. attempted items k rs rs' \<and> (k < length items \<longrightarrow> born_done tmo pd \<or> CtxDone \<in> set sched)"
proof (cases "items = []")
  case True
  then show ?thesis using assms by (auto simp: dispatch_def attempted_def)
next
  case False
  then obtain p where p: "pool_run items sched (pool_start conc tmo pd items rs c) = Some p" "pool_quiet p"
    "rs' = mark_not_attempted items (po_results p)"
    using dispatch_pool[OF assms(1)] by metis
  have inv: "pool_inv items rs p" using pool_inv_run[OF ok pool_inv_start p(1)] .
  have "po_next p < length items \<Longrightarrow> po_done p" using inv p(2) by (auto simp: pool_inv_def pool_quiet_def)
  then show ?thesis
    using pool_attempted[OF ok inv p(2)] pool_done_run[OF p(1)] p(3) by (auto simp: pool_start_def)
qed

section \<open>Bounded, terminating, and free of deadlock\<close>

definition in_flight :: "pool \<Rightarrow> nat" where
  "in_flight p = length (filter is_Sending (po_workers p))"

lemma pool_workers_run: "pool_run items es p = Some p' \<Longrightarrow> length (po_workers p') = length (po_workers p)"
proof (induction es arbitrary: p)
  case (Cons e es)
  then obtain q where q: "pool_step items e p = Some q" "pool_run items es q = Some p'" by (auto split: option.splits)
  then have "length (po_workers q) = length (po_workers p)"
    by (cases e) (auto split: if_splits worker.splits prod.splits)
  then show ?case using Cons.IH[OF q(2)] by simp
qed simp

lemma worker_count_le: "int (worker_count conc n) \<le> max 1 conc"
  by (auto simp: worker_count_def Let_def)

lemma worker_count_pos: "0 < n \<Longrightarrow> 0 < worker_count conc n"
  by (auto simp: worker_count_def Let_def)

fun worker_weight :: "worker \<Rightarrow> nat" where
  "worker_weight Ready = 1"
| "worker_weight (Sending _) = 2"
| "worker_weight Exited = 0"

definition pool_weight :: "dispatchItem list \<Rightarrow> pool \<Rightarrow> nat" where
  "pool_weight items p = 2 * (length items - po_next p) + sum_list (map worker_weight (po_workers p))
     + (if po_closed p then 0 else 1) + (if po_done p then 0 else 1)"

lemma weight_update:
  "w < length ws \<Longrightarrow>
     sum_list (map worker_weight (ws[w := x])) + worker_weight (ws ! w) = sum_list (map worker_weight ws) + worker_weight x"
proof (induction ws arbitrary: w)
  case (Cons a ws)
  then show ?case by (cases w) auto
qed simp

lemma pool_step_weight: "pool_step items e p = Some p' \<Longrightarrow> pool_weight items p' < pool_weight items p"
proof (cases e)
  case (Hand w)
  assume "pool_step items e p = Some p'"
  then show ?thesis using Hand weight_update[of w "po_workers p" "Sending (po_next p)"]
    by (auto simp: pool_weight_def split: if_splits)
next
  case (Finish w an)
  assume "pool_step items e p = Some p'"
  then show ?thesis using Finish weight_update[of w "po_workers p" Ready]
    by (auto simp: pool_weight_def split: if_splits worker.splits prod.splits)
next
  case (Leave w)
  assume "pool_step items e p = Some p'"
  then show ?thesis using Leave weight_update[of w "po_workers p" Exited]
    by (auto simp: pool_weight_def split: if_splits)
qed (auto simp: pool_weight_def split: if_splits)

lemma pool_run_weight: "pool_run items es p = Some p' \<Longrightarrow> length es + pool_weight items p' \<le> pool_weight items p"
proof (induction es arbitrary: p)
  case (Cons e es)
  then obtain q where q: "pool_step items e p = Some q" "pool_run items es q = Some p'" by (auto split: option.splits)
  show ?case using pool_step_weight[OF q(1)] Cons.IH[OF q(2)] by simp
qed simp

lemma pool_start_weight:
  "pool_weight items (pool_start conc tmo pd items rs c) \<le> 2 * length items + worker_count conc (length items) + 2"
  by (simp add: pool_weight_def pool_start_def sum_list_replicate)

definition pool_live :: "pool \<Rightarrow> bool" where
  "pool_live p \<longleftrightarrow> po_workers p \<noteq> [] \<and> (\<not> po_closed p \<longrightarrow> Exited \<notin> set (po_workers p))"

lemma pool_live_step: "pool_live p \<Longrightarrow> pool_step items e p = Some p' \<Longrightarrow> pool_live p'"
  by (cases e) (auto simp: pool_live_def dest!: set_update_subset_insert[THEN subsetD]
      split: if_splits worker.splits prod.splits)

lemma pool_live_run: "pool_live p \<Longrightarrow> pool_run items es p = Some p' \<Longrightarrow> pool_live p'"
  by (induction es arbitrary: p) (auto split: option.splits dest: pool_live_step)

lemma pool_live_start: "items \<noteq> [] \<Longrightarrow> pool_live (pool_start conc tmo pd items rs c)"
  using worker_count_pos[of "length items" conc] by (auto simp: pool_live_def pool_start_def)

lemma finish_enabled:
  "w < length (po_workers p) \<Longrightarrow> po_workers p ! w = Sending i \<Longrightarrow> \<exists>p'. pool_step items (Finish w an) p = Some p'"
  by (auto split: prod.splits)

lemma pool_progress:
  assumes "pool_live p" "po_next p \<le> length items" "\<not> pool_quiet p"
  shows "\<exists>e p'. e \<noteq> CtxDone \<and> pool_step items e p = Some p'"
proof (cases "po_closed p")
  case True
  then obtain w where w: "w < length (po_workers p)" "po_workers p ! w \<noteq> Exited"
    using assms(3) by (auto simp: pool_quiet_def list_all_iff in_set_conv_nth)
  show ?thesis
  proof (cases "po_workers p ! w")
    case Ready
    then have "\<exists>p'. pool_step items (Leave w) p = Some p'" using w True by simp
    then show ?thesis by blast
  next
    case (Sending i)
    then show ?thesis using finish_enabled[OF w(1)] by blast
  qed (use w in simp)
next
  case False
  obtain w where w: "w < length (po_workers p)" "po_workers p ! w \<noteq> Exited"
    using assms(1) False by (metis length_greater_0_conv nth_mem pool_live_def)
  show ?thesis
  proof (cases "po_workers p ! w")
    case Ready
    have "\<exists>p'. pool_step items FeedEnd p = Some p' \<or> pool_step items (Hand w) p = Some p'"
      using False assms(2) w Ready by auto
    then show ?thesis by blast
  next
    case (Sending i)
    then show ?thesis using finish_enabled[OF w(1)] by blast
  qed (use w in simp)
qed

lemma pool_run_append: "pool_run items (es @ fs) p = Option.bind (pool_run items es p) (pool_run items fs)"
  by (induction es arbitrary: p) (auto split: option.split)

lemma pool_next_le: "pool_step items e p = Some p' \<Longrightarrow> po_next p \<le> length items \<Longrightarrow> po_next p' \<le> length items"
  by (cases e) (auto split: if_splits worker.splits prod.splits)

lemma pool_next_le_run: "pool_run items es p = Some p' \<Longrightarrow> po_next p \<le> length items \<Longrightarrow> po_next p' \<le> length items"
  by (induction es arbitrary: p) (auto split: option.splits dest: pool_next_le)

lemma pool_completes:
  assumes "pool_live p" "po_next p \<le> length items"
  shows "\<exists>es p'. CtxDone \<notin> set es \<and> pool_run items es p = Some p' \<and> pool_quiet p'"
  using assms
proof (induction "pool_weight items p" arbitrary: p rule: less_induct)
  case less
  show ?case
  proof (cases "pool_quiet p")
    case True
    then show ?thesis by (intro exI[of _ "[]"]) auto
  next
    case False
    then obtain e q where e: "e \<noteq> CtxDone" "pool_step items e p = Some q"
      using pool_progress[OF less.prems] by blast
    obtain es p' where "CtxDone \<notin> set es" "pool_run items es q = Some p'" "pool_quiet p'"
      using less.hyps[OF pool_step_weight[OF e(2)]] pool_live_step[OF less.prems(1) e(2)]
        pool_next_le[OF e(2) less.prems(2)] by blast
    then show ?thesis using e by (intro exI[of _ "e # es"]) auto
  qed
qed

lemma dispatch_extends:
  assumes "items \<noteq> []" "pool_run items es (pool_start conc tmo pd items rs c) = Some p"
  shows "\<exists>fs out. CtxDone \<notin> set fs \<and> dispatch conc tmo pd (es @ fs) items rs c = Some out"
proof -
  have live: "pool_live p" using pool_live_run[OF pool_live_start[OF assms(1)] assms(2)] .
  have "po_next p \<le> length items"
    using pool_next_le_run[OF assms(2)] by (simp add: pool_start_def)
  then obtain fs p' where f: "CtxDone \<notin> set fs" "pool_run items fs p = Some p'" "pool_quiet p'"
    using pool_completes[OF live] by blast
  then show ?thesis
    using assms by (intro exI[of _ fs]) (simp add: dispatch_def pool_run_append)
qed

section \<open>What a dispatch hands to the providers and logs\<close>

definition calls_inv :: "dispatchItem list \<Rightarrow> sctx \<Rightarrow> pool \<Rightarrow> bool" where
  "calls_inv items c p \<longleftrightarrow>
     (\<exists>is cs. c_calls (po_ctx p) = c_calls c @ cs \<and> distinct is \<and>
        (\<forall>i \<in> set is. i < po_next p \<and> Sending i \<notin> set (po_workers p)) \<and>
        list_all2 (\<lambda>i x. call_of (di_sender (items ! i)) (di_msg (items ! i)) x) is cs)"

lemma worker_calls:
  "\<exists>cs. c_calls (snd (worker_result item an c)) = c_calls c @ cs \<and> length cs \<le> 1 \<and>
     (\<forall>x \<in> set cs. call_of (di_sender item) (di_msg item) x)"
  using Send_one_call[of "di_sender item" an "di_msg item" c] by (simp add: worker_result_def case_prod_unfold)

lemma calls_inv_step:
  assumes inv: "pool_inv items rs p" and ci: "calls_inv items c p" and st: "pool_step items e p = Some p'"
  shows "calls_inv items c p'"
proof (cases e)
  case (Hand w)
  then show ?thesis using st ci inv
    by (auto simp: calls_inv_def sending_hand pool_inv_def split: if_splits) (metis less_SucI less_irrefl)
next
  case (Leave w)
  then show ?thesis using st ci by (auto simp: calls_inv_def sending_leave split: if_splits)
next
  case (Finish w an)
  then obtain i r c2 where h: "w < length (po_workers p)" "po_workers p ! w = Sending i"
    and r: "worker_result (items ! i) an (po_ctx p) = (r, c2)"
    and p': "p' = p\<lparr>po_workers := (po_workers p)[w := Ready],
        po_results := (po_results p)[di_resultIdx (items ! i) := r], po_ctx := c2\<rparr>"
    using st by (auto split: if_splits worker.splits prod.splits)
  have i: "Sending i \<in> set (po_workers p)" "i < po_next p" "one_each (po_workers p)"
    using inv h(2) nth_mem[OF h(1)] unfolding pool_inv_def by auto
  obtain cs where cs: "c_calls c2 = c_calls (po_ctx p) @ cs" "length cs \<le> 1"
      "\<forall>x \<in> set cs. call_of (di_sender (items ! i)) (di_msg (items ! i)) x"
    using worker_calls[of "items ! i" an "po_ctx p"] r by auto
  obtain js ds where ds: "c_calls (po_ctx p) = c_calls c @ ds" "distinct js"
      "\<forall>j \<in> set js. j < po_next p \<and> Sending j \<notin> set (po_workers p)"
      "list_all2 (\<lambda>i x. call_of (di_sender (items ! i)) (di_msg (items ! i)) x) js ds"
    using ci by (auto simp: calls_inv_def)
  have "i \<notin> set js" using i(1) ds(3) by blast
  moreover have "cs = [] \<or> (\<exists>x. cs = [x])" using cs(2) by (cases cs) auto
  ultimately show ?thesis
    unfolding calls_inv_def p'
    using cs ds i sending_finish[OF h i(3)]
    by (intro exI[of _ "js @ (if cs = [] then [] else [i])"] exI[of _ "ds @ cs"]) (auto intro: list_all2_appendI)
qed (use st ci in \<open>auto simp: calls_inv_def split: if_splits\<close>)

lemma calls_inv_run:
  "items_ok items rs \<Longrightarrow> pool_inv items rs p \<Longrightarrow> calls_inv items c p \<Longrightarrow> pool_run items es p = Some p' \<Longrightarrow> calls_inv items c p'"
  by (induction es arbitrary: p) (auto split: option.splits intro: pool_inv_step calls_inv_step)

lemma calls_inv_start: "calls_inv items c (pool_start conc tmo pd items rs c)"
  unfolding calls_inv_def by (rule exI[of _ "[]"], rule exI[of _ "[]"]) (simp add: pool_start_def WithRequestScope_def)

lemma scope_ok_step: "scope_ok (po_ctx p) \<Longrightarrow> pool_step items e p = Some p' \<Longrightarrow> scope_ok (po_ctx p')"
  by (cases e) (auto simp: worker_result_def case_prod_unfold intro: Send_scope_ok
      split: if_splits worker.splits prod.splits)

lemma scope_ok_run: "scope_ok (po_ctx p) \<Longrightarrow> pool_run items es p = Some p' \<Longrightarrow> scope_ok (po_ctx p')"
  by (induction es arbitrary: p) (auto split: option.splits dest: scope_ok_step)

lemma dispatch_log:
  assumes "dispatch conc tmo pd sched items rs c = Some (rs', c')" "c_log c = []"
  shows "\<exists>seen. distinct seen \<and> c_log c' = map (\<lambda>p. LogNotConfigured p True) seen"
proof (cases "items = []")
  case True
  then show ?thesis using assms by (auto simp: dispatch_def)
next
  case False
  then obtain p where p: "pool_run items sched (pool_start conc tmo pd items rs c) = Some p" "c' = po_ctx p"
    using dispatch_pool[OF assms(1)] by metis
  have "scope_ok (po_ctx (pool_start conc tmo pd items rs c))"
    using assms(2) by (simp add: pool_start_def WithRequestScope_def scope_ok_def)
  from scope_ok_run[OF this p(1)] show ?thesis using p(2) unfolding scope_ok_def by (metis distinct_rev)
qed

lemma Send_log:
  "l \<in> set (c_log (snd (Send s an ms c))) \<Longrightarrow> l \<in> set (c_log c) \<or> (\<exists>q b. s = SUnconfigured q \<and> l = LogNotConfigured q b)"
  by (cases s) (auto simp: unconfigured_Send_def logRejection_def case_prod_unfold split: if_splits option.splits)

definition log_inv :: "dispatchItem list \<Rightarrow> pool \<Rightarrow> bool" where
  "log_inv items p \<longleftrightarrow> (\<forall>l \<in> set (c_log (po_ctx p)). \<exists>i \<in> set items. \<exists>q b. di_sender i = SUnconfigured q \<and> l = LogNotConfigured q b)"

lemma log_inv_step:
  assumes inv: "pool_inv items rs p" and li: "log_inv items p" and st: "pool_step items e p = Some p'"
  shows "log_inv items p'"
proof (cases e)
  case (Finish w an)
  then obtain i r c2 where h: "w < length (po_workers p)" "po_workers p ! w = Sending i"
    and r: "worker_result (items ! i) an (po_ctx p) = (r, c2)" and p': "po_ctx p' = c2"
    using st by (auto split: if_splits worker.splits prod.splits)
  have i: "items ! i \<in> set items" using inv h(2) nth_mem[OF h(1)] unfolding pool_inv_def by auto
  have c2: "c2 = snd (Send (di_sender (items ! i)) an [di_msg (items ! i)] (po_ctx p))"
    using r by (auto simp: worker_result_def case_prod_unfold)
  show ?thesis using li i Send_log unfolding log_inv_def p' c2 by blast
qed (use st li in \<open>auto simp: log_inv_def split: if_splits\<close>)

lemma log_inv_run:
  "items_ok items rs \<Longrightarrow> pool_inv items rs p \<Longrightarrow> log_inv items p \<Longrightarrow> pool_run items es p = Some p' \<Longrightarrow> log_inv items p'"
  by (induction es arbitrary: p) (auto split: option.splits intro: pool_inv_step log_inv_step)

lemma dispatch_log_platforms:
  assumes "dispatch conc tmo pd sched items rs c = Some (rs', c')" "c_log c = []" "items_ok items rs"
    and "l \<in> set (c_log c')"
  shows "\<exists>i \<in> set items. \<exists>q b. di_sender i = SUnconfigured q \<and> l = LogNotConfigured q b"
proof (cases "items = []")
  case True
  then show ?thesis using assms by (auto simp: dispatch_def)
next
  case False
  then obtain p where p: "pool_run items sched (pool_start conc tmo pd items rs c) = Some p" "c' = po_ctx p"
    using dispatch_pool[OF assms(1)] by metis
  have "log_inv items (pool_start conc tmo pd items rs c)"
    using assms(2) by (simp add: log_inv_def pool_start_def WithRequestScope_def)
  from log_inv_run[OF assms(3) pool_inv_start this p(1)] show ?thesis using p(2) assms(4) by (simp add: log_inv_def)
qed

text \<open>
  The calls of a completed dispatch: at most one per item, and only for items whose slot
  holds a provider's answer.
\<close>

lemma dispatch_calls:
  assumes "dispatch conc tmo pd sched items rs c = Some (rs', c')" and ok: "items_ok items rs"
  shows "\<exists>k is cs. attempted items k rs rs' \<and> c_calls c' = c_calls c @ cs \<and> distinct is \<and> set is \<subseteq> {..<k} \<and>
     list_all2 (\<lambda>i x. call_of (di_sender (items ! i)) (di_msg (items ! i)) x) is cs"
proof (cases "items = []")
  case True
  then show ?thesis using assms by (auto simp: dispatch_def attempted_def)
next
  case False
  then obtain p where p: "pool_run items sched (pool_start conc tmo pd items rs c) = Some p" "pool_quiet p"
    "rs' = mark_not_attempted items (po_results p)" "c' = po_ctx p"
    using dispatch_pool[OF assms(1)] by metis
  have inv: "pool_inv items rs p" using pool_inv_run[OF ok pool_inv_start p(1)] .
  have "calls_inv items c p" using calls_inv_run[OF ok pool_inv_start calls_inv_start p(1)] .
  then show ?thesis
    using pool_attempted[OF ok inv p(2)] p(3,4) unfolding calls_inv_def by (metis lessThan_iff subsetI)
qed

section \<open>Properties\<close>

definition ex_items :: "dispatchItem list" where
  "ex_items = [\<lparr>di_resultIdx = 0, di_sender = SUnconfigured ''fcm'', di_msg = \<lparr>m_Token = ''a'', m_Kind = KindWake, m_Payload = []\<rparr>\<rparr>,
     \<lparr>di_resultIdx = 1, di_sender = SUnconfigured ''fcm'', di_msg = \<lparr>m_Token = ''b'', m_Kind = KindCall, m_Payload = []\<rparr>\<rparr>]"

definition ex_slots :: "Result list" where
  "ex_slots = [\<lparr>r_Token = [], r_Status = StatusUnset\<rparr>, \<lparr>r_Token = [], r_Status = StatusUnset\<rparr>]"

definition ex_ctx :: sctx where
  "ex_ctx = \<lparr>c_scope = None, c_log = [], c_calls = []\<rparr>"

definition ex_answer :: answer where
  "ex_answer = \<lparr>an_apns = (\<lambda>_. PushFailed), an_token = FetchFailed, an_fcm = (\<lambda>_. HttpFailed)\<rparr>"

text \<open>A schedule in which the deadline strikes while the first of two items is being sent.\<close>

definition ex_sched :: "pool_event list" where
  "ex_sched = [Hand 0, CtxDone, FeedBreak, Finish 0 ex_answer, Leave 0]"

lemmas pool_eval = ex_items_def ex_slots_def ex_ctx_def ex_sched_def dispatch_def pool_start_def worker_count_def born_done_def
  worker_result_def unconfigured_Send_def logRejection_def WithRequestScope_def pool_quiet_def wrap64_def

lemma ex_items_ok: "items_ok ex_items ex_slots"
  by (simp add: items_ok_def ex_items_def ex_slots_def less_Suc_eq)

lemma ex_dispatch: "dispatch 1 20 False ex_sched ex_items ex_slots ex_ctx =
   Some ([\<lparr>r_Token = ''a'', r_Status = StatusError\<rparr>, \<lparr>r_Token = ''b'', r_Status = StatusNotAttempted\<rparr>],
     \<lparr>c_scope = Some [''fcm''], c_log = [LogNotConfigured ''fcm'' True], c_calls = []\<rparr>)"
  by (simp add: pool_eval)

text \<open>
  C7: in every interleaving of the feed loop, the workers and the deadline, a dispatch that
  completes has handed out a prefix of the items: each of these has a provider's answer in
  its own slot, every later item is marked as not attempted, no other slot is touched, and
  something is left unattempted only if the context was done.
\<close>

theorem dispatch_fills_every_slot:
  assumes "dispatch conc tmo parent_done sched items rs c = Some (rs', c')" and "items_ok items rs"
  shows "\<exists>k. k \<le> length items \<and> length rs' = length rs \<and>
     (\<forall>i < k. r_Token (rs' ! di_resultIdx (items ! i)) = m_Token (di_msg (items ! i)) \<and>
        r_Status (rs' ! di_resultIdx (items ! i)) \<in> {StatusDelivered, StatusUnregistered, StatusError}) \<and>
     (\<forall>i < length items. k \<le> i \<longrightarrow> rs' ! di_resultIdx (items ! i) =
        \<lparr>r_Token = m_Token (di_msg (items ! i)), r_Status = StatusNotAttempted\<rparr>) \<and>
     (\<forall>j < length rs. j \<notin> di_resultIdx ` set items \<longrightarrow> rs' ! j = rs ! j) \<and>
     (k < length items \<longrightarrow> born_done tmo parent_done \<or> CtxDone \<in> set sched)"
  using dispatch_results[OF assms] unfolding attempted_def filled_def provider_status_def by meson

theorem dispatch_fills_every_slot_witness:
  "\<exists>rs' c' k. dispatch 1 20 False ex_sched ex_items ex_slots ex_ctx = Some (rs', c') \<and> length rs' = length ex_slots \<and>
     k \<le> length ex_items \<and> (\<forall>i < length ex_items. k \<le> i \<longrightarrow> r_Status (rs' ! di_resultIdx (ex_items ! i)) = StatusNotAttempted)"
proof -
  obtain k where "length [\<lparr>r_Token = ''a'', r_Status = StatusError\<rparr>, \<lparr>r_Token = ''b'', r_Status = StatusNotAttempted\<rparr>] = length ex_slots"
      "k \<le> length ex_items"
      "\<forall>i < length ex_items. k \<le> i \<longrightarrow>
        [\<lparr>r_Token = ''a'', r_Status = StatusError\<rparr>, \<lparr>r_Token = ''b'', r_Status = StatusNotAttempted\<rparr>] ! di_resultIdx (ex_items ! i)
        = \<lparr>r_Token = m_Token (di_msg (ex_items ! i)), r_Status = StatusNotAttempted\<rparr>"
    using dispatch_fills_every_slot[OF ex_dispatch ex_items_ok] by blast
  then show ?thesis using ex_dispatch by (metis (no_types, lifting) Result.select_convs(2))
qed

text \<open>
  C22: at every moment of every run at most the configured number of provider calls is in flight,
  one if the configured number is not positive.
\<close>

theorem dispatch_bounded_concurrency:
  assumes "pool_run items es (pool_start conc tmo parent_done items rs c) = Some p"
  shows "int (in_flight p) \<le> max 1 conc"
proof -
  have "length (po_workers p) = worker_count conc (length items)"
    using pool_workers_run[OF assms] by (simp add: pool_start_def)
  then have "in_flight p \<le> worker_count conc (length items)"
    unfolding in_flight_def by (metis length_filter_le)
  then show ?thesis using worker_count_le[of conc "length items"] by linarith
qed

theorem dispatch_bounded_concurrency_witness:
  "\<exists>p. pool_run ex_items [Hand 0] (pool_start 1 20 False ex_items ex_slots ex_ctx) = Some p \<and> int (in_flight p) \<le> 1"
proof -
  obtain p where p: "pool_run ex_items [Hand 0] (pool_start 1 20 False ex_items ex_slots ex_ctx) = Some p"
    by (simp add: pool_eval)
  show ?thesis using dispatch_bounded_concurrency[OF p] p by simp
qed

text \<open>
  C14: a run of the pool takes at most two steps per item, one per worker and two more, and from
  every state a run can reach it can be completed without any further deadline: no
  interleaving deadlocks or runs for ever.
\<close>

theorem dispatch_terminates:
  assumes "items \<noteq> []" and "pool_run items es (pool_start conc tmo parent_done items rs c) = Some p"
  shows "length es \<le> 2 * length items + worker_count conc (length items) + 2 \<and>
     (\<exists>fs out. CtxDone \<notin> set fs \<and> dispatch conc tmo parent_done (es @ fs) items rs c = Some out)"
  using pool_run_weight[OF assms(2)] pool_start_weight[of items conc tmo parent_done rs c] dispatch_extends[OF assms]
  by auto

theorem dispatch_terminates_witness:
  "\<exists>fs out. CtxDone \<notin> set fs \<and> dispatch 1 20 False ([Hand 0] @ fs) ex_items ex_slots ex_ctx = Some out"
proof -
  obtain p where p: "pool_run ex_items [Hand 0] (pool_start 1 20 False ex_items ex_slots ex_ctx) = Some p"
    by (simp add: pool_eval)
  show ?thesis using dispatch_terminates[OF _ p] by (simp add: ex_items_def)
qed

text \<open>
  However many messages a request has for a provider that is not configured, its pool logs
  the rejection at most once per platform, and only for platforms its items are sent through.
\<close>

lemma dispatch_logs_once:
  assumes "dispatch conc tmo parent_done sched items rs c = Some (rs', c')" and "items_ok items rs" and "c_log c = []"
  shows "\<exists>seen. distinct seen \<and> c_log c' = map (\<lambda>p. LogNotConfigured p True) seen \<and>
     (\<forall>p \<in> set seen. \<exists>i \<in> set items. di_sender i = SUnconfigured p)"
proof -
  obtain seen where s: "distinct seen" "c_log c' = map (\<lambda>p. LogNotConfigured p True) seen"
    using dispatch_log[OF assms(1,3)] by blast
  have "\<exists>i \<in> set items. di_sender i = SUnconfigured p" if "p \<in> set seen" for p
    using dispatch_log_platforms[OF assms(1,3,2), of "LogNotConfigured p True"] s(2) that by auto
  then show ?thesis using s by blast
qed

end
