(* ===== verification/Api_Core.thy ===== *)
theory Api_Core
  imports Config Key_Store Rate_Limit Dispatch
begin

text \<open>
  \<open>internal/api/server.go\<close> and \<open>helpers.go\<close>: the server, requests and responses, and the
  helpers the handlers share.

  A request carries its header lines in order, with canonical names, as \<open>net/http\<close> hands
  them over; \<open>Header.Get\<close> reads the first line of a name. Its body is the bytes that arrive;
  \<open>rq_broken\<close> says that the connection breaks behind them. A response is its status and the
  value \<open>writeJSON\<close> encodes.
\<close>

record Server =
  sv_cfg :: Config
  sv_ios :: Sender
  sv_android :: Sender
  sv_keys :: Store
  sv_registerLim :: Limiter
  sv_sendLim :: Limiter
  sv_callLim :: Limiter

record Request =
  rq_method :: bytes
  rq_path :: "bytes list"
  rq_headers :: "(bytes \<times> bytes) list"
  rq_RemoteAddr :: bytes
  rq_body :: bytes
  rq_broken :: bool

datatype resp_body =
    BodyError bytes
  | BodyResults "Result list"
  | BodyKey bytes
  | BodyKeys "Key list"
  | BodyStatus bytes
  | BodyText bytes
  | BodyNone

record Response =
  rs_status :: int
  rs_body :: resp_body

definition writeJSON :: "int \<Rightarrow> resp_body \<Rightarrow> Response" where
  "writeJSON status v = \<lparr>rs_status = status, rs_body = v\<rparr>"

definition writeErr :: "int \<Rightarrow> bytes \<Rightarrow> Response" where
  "writeErr status msg = writeJSON status (BodyError msg)"

lemma write_simps [simp]:
  "rs_status (writeJSON st v) = st" "rs_body (writeJSON st v) = v"
  "rs_status (writeErr st msg) = st" "rs_body (writeErr st msg) = BodyError msg"
  by (simp_all add: writeJSON_def writeErr_def)

text \<open>
  \<open>decodeJSON\<close> into a fresh variable of type \<open>t\<close>: the value, \<open>io.EOF\<close> for a body with
  nothing in it, or another error.
\<close>

datatype 'a decoded = Decoded 'a | BodyEOF | BodyInvalid

definition decodeJSON :: "schema \<Rightarrow> nat \<Rightarrow> Request \<Rightarrow> gval decoded" where
  "decodeJSON t maxBytes r = (case json_decode maxBytes (rq_broken r) (rq_body r) of
      Inl EOF \<Rightarrow> BodyEOF
    | Inl Malformed \<Rightarrow> BodyInvalid
    | Inr j \<Rightarrow> (case fill True t j (zero_of t) of None \<Rightarrow> BodyInvalid | Some g \<Rightarrow> Decoded g))"

definition header_get :: "bytes \<Rightarrow> Request \<Rightarrow> bytes" where
  "header_get name r = (case find (\<lambda>(n, _). n = name) (rq_headers r) of None \<Rightarrow> [] | Some (_, v) \<Rightarrow> v)"

definition bearer_prefix :: bytes where "bearer_prefix = ''Bearer ''"

definition bearerToken :: "Request \<Rightarrow> bytes" where
  "bearerToken r =
     (let h = header_get ''Authorization'' r in
      if length bearer_prefix < length h \<and> EqualFold (take (length bearer_prefix) h) bearer_prefix
      then TrimSpace (drop (length bearer_prefix) h) else [])"

definition clientIP :: "Config \<Rightarrow> Request \<Rightarrow> bytes" where
  "clientIP cfg r =
     (let xff = header_get ''X-Forwarded-For'' r in
      if TrustProxy cfg \<and> xff \<noteq> []
      then TrimSpace (last (Split xff CHR '',''))
      else (case SplitHostPort (rq_RemoteAddr r) of
              Some (host, _) \<Rightarrow> host
            | None \<Rightarrow> rq_RemoteAddr r))"

fun tally :: "Result list \<Rightarrow> nat \<times> nat \<times> nat \<times> nat \<times> nat" where
  "tally [] = (0, 0, 0, 0, 0)"
| "tally (r # rs) = (case tally rs of (delivered, unregistered, forbidden, notAttempted, failed) \<Rightarrow>
     (case r_Status r of
        StatusDelivered \<Rightarrow> (Suc delivered, unregistered, forbidden, notAttempted, failed)
      | StatusUnregistered \<Rightarrow> (delivered, Suc unregistered, forbidden, notAttempted, failed)
      | StatusForbidden \<Rightarrow> (delivered, unregistered, Suc forbidden, notAttempted, failed)
      | StatusNotAttempted \<Rightarrow> (delivered, unregistered, forbidden, Suc notAttempted, failed)
      | _ \<Rightarrow> (delivered, unregistered, forbidden, notAttempted, Suc failed)))"

text \<open>\<open>New\<close>: each of the three limiters reads the clock once.\<close>

definition api_New :: "Config \<Rightarrow> Sender \<Rightarrow> Sender \<Rightarrow> Store \<Rightarrow> world \<Rightarrow> Server \<times> world" where
  "api_New cfg ios android store w0 =
     (case time_now w0 of (t1, w1) \<Rightarrow>
        case time_now w1 of (t2, w2) \<Rightarrow>
          case time_now w2 of (t3, w3) \<Rightarrow>
            (\<lparr>sv_cfg = cfg, sv_ios = ios, sv_android = android, sv_keys = store,
              sv_registerLim = New_Limiter (fdiv (fl (of_int (RegisterPerHour cfg))) 60) (RegisterBurst cfg) t1,
              sv_sendLim = New_Limiter (fl (of_int (SendPerMinute cfg))) (SendBurst cfg) t2,
              sv_callLim = New_Limiter (fl (of_int (CallSendPerMinute cfg))) (CallSendBurst cfg) t3\<rparr>, w3))"

text \<open>A limiter asked by a handler: it reads the clock under its lock.\<close>

definition ask :: "bytes \<Rightarrow> Limiter \<Rightarrow> world \<Rightarrow> bool \<times> Limiter \<times> world" where
  "ask key l w0 = (case time_now w0 of (now, w1) \<Rightarrow> case Allow key now l of (ok, l') \<Rightarrow> (ok, l', w1))"

section \<open>Lemmas\<close>

text \<open>\<open>tally\<close> counts every result once.\<close>

lemma tally_counts:
  "tally rs = (length (filter (\<lambda>r. r_Status r = StatusDelivered) rs),
     length (filter (\<lambda>r. r_Status r = StatusUnregistered) rs),
     length (filter (\<lambda>r. r_Status r = StatusForbidden) rs),
     length (filter (\<lambda>r. r_Status r = StatusNotAttempted) rs),
     length (filter (\<lambda>r. r_Status r \<in> {StatusError, StatusUnset}) rs))"
  by (induction rs) (auto split: Status.split)

lemma tally_sum: "tally rs = (a, b, c, d, e) \<Longrightarrow> a + b + c + d + e = length rs"
proof (induction rs arbitrary: a b c d e)
  case (Cons r rs)
  then show ?case by (cases "tally rs") (auto split: Status.splits)
qed simp

lemma header_get_first:
  "n \<notin> fst ` set pre \<Longrightarrow> header_get n (r\<lparr>rq_headers := pre @ (n, v) # post\<rparr>) = v"
  by (induction pre) (auto simp: header_get_def)

lemma Split_last: "c \<notin> set t \<Longrightarrow> last (Split (s @ c # t) c) = t"
  by (simp add: Split_append Split_no_sep)

text \<open>The entry the last proxy appended is the one that is read.\<close>

lemma clientIP_appended:
  assumes "TrustProxy cfg" and "header_get ''X-Forwarded-For'' r = theirs @ '','' @ own" and "CHR '','' \<notin> set own"
  shows "clientIP cfg r = TrimSpace own"
  using assms by (simp add: clientIP_def Split_last)

lemma clientIP_untrusted:
  "\<not> TrustProxy cfg \<Longrightarrow> clientIP cfg (r\<lparr>rq_headers := hs\<rparr>) = clientIP cfg r"
  by (cases "SplitHostPort (rq_RemoteAddr r)") (auto simp: clientIP_def)

lemma ask_world: "ask k l w = (ok, l', w') \<Longrightarrow> w' = w\<lparr>w_cpos := Suc (w_cpos w)\<rparr> \<and> Allow k (w_clock w (w_cpos w)) l = (ok, l')"
  by (auto simp: ask_def time_now_def split: prod.splits)

section \<open>Properties\<close>

text \<open>
  C39: without \<open>RELAY_TRUST_PROXY\<close> no header a client sends changes the address its registrations
  are limited by. With it, whatever the client wrote into the header line a proxy appends
  to, the address is the entry the proxy appended.
\<close>

theorem client_ip_not_forged:
  assumes "CHR '','' \<notin> set own" and "''X-Forwarded-For'' \<notin> fst ` set pre"
  shows "(\<not> TrustProxy cfg \<longrightarrow> clientIP cfg (r\<lparr>rq_headers := hs\<rparr>) = clientIP cfg r) \<and>
    (TrustProxy cfg \<longrightarrow>
       clientIP cfg (r\<lparr>rq_headers := pre @ (''X-Forwarded-For'', theirs @ '','' @ own) # post\<rparr>) = TrimSpace own)"
  using clientIP_untrusted clientIP_appended[OF _ header_get_first[OF assms(2)] assms(1)] by blast

definition ex_body :: bytes where
  "ex_body = json_text (JObj [(''messages'', JArr [JObj [(''platform'', JStr ''ios''), (''token'', JStr ''dev''),
     (''kind'', JStr ''message''), (''payload'', JStr ''c'')]])])"

definition ex_request :: Request where
  "ex_request = \<lparr>rq_method = ''POST'', rq_path = [''v1'', ''send''], rq_headers = [(''Authorization'', ''Bearer key'')],
     rq_RemoteAddr = ''10.0.0.9:4711'', rq_body = ex_body, rq_broken = False\<rparr>"

theorem client_ip_not_forged_witness:
  "clientIP (Load (\<lambda>k. if k = ''RELAY_TRUST_PROXY'' then ''true'' else []))
     (ex_request\<lparr>rq_headers := [(''X-Forwarded-For'', ''6.6.6.6, 7.7.7.7'' @ '','' @ ''1.2.3.4'')]\<rparr>) = ''1.2.3.4''"
proof -
  have t: "TrimSpace ''1.2.3.4'' = ''1.2.3.4''" by (rule TrimSpace_visible) (simp add: visible_def)
  have c: "TrustProxy (Load (\<lambda>k. if k = ''RELAY_TRUST_PROXY'' then ''true'' else []))"
    by (simp add: Load_def getbool_def ParseBool_def)
  have "clientIP (Load (\<lambda>k. if k = ''RELAY_TRUST_PROXY'' then ''true'' else []))
      (ex_request\<lparr>rq_headers := [] @ (''X-Forwarded-For'', ''6.6.6.6, 7.7.7.7'' @ '','' @ ''1.2.3.4'') # []\<rparr>) = TrimSpace ''1.2.3.4''"
    by (rule client_ip_not_forged[THEN conjunct2, THEN mp]) (use c in simp_all)
  then show ?thesis using t by simp
qed

end
