(* ===== verification/Api_Decode.thy ===== *)
theory Api_Decode
  imports Api_Core
begin

text \<open>
  The request structs of \<open>internal/api/send.go\<close> and \<open>register.go\<close> and their decoding from the
  body of a request. A home server's request, as \<open>json_text\<close> writes it, decodes to the
  messages it was made of, and every string the relay takes from a request is valid UTF-8.
\<close>

record sendMessage =
  sm_Platform :: bytes
  sm_Token :: bytes
  sm_Kind :: bytes
  sm_Payload :: bytes

record sendReq =
  Messages :: "sendMessage list"

definition sendMessage_schema :: schema where
  "sendMessage_schema = SStruct [(''platform'', SString), (''token'', SString), (''kind'', SString), (''payload'', SString)]"

definition sendReq_schema :: schema where
  "sendReq_schema = SStruct [(''messages'', SSlice sendMessage_schema)]"

definition sendMessage_of :: "gval \<Rightarrow> sendMessage" where
  "sendMessage_of g = \<lparr>sm_Platform = g_string (g_field 0 g), sm_Token = g_string (g_field 1 g),
     sm_Kind = g_string (g_field 2 g), sm_Payload = g_string (g_field 3 g)\<rparr>"

definition sendReq_of :: "gval \<Rightarrow> sendReq" where
  "sendReq_of g = \<lparr>Messages = map sendMessage_of (g_slice (g_field 0 g))\<rparr>"

text \<open>\<open>decodeJSON(w, r, &req, 1<<20)\<close>\<close>

definition decode_sendReq :: "Request \<Rightarrow> sendReq decoded" where
  "decode_sendReq r = map_decoded sendReq_of (decodeJSON sendReq_schema (2 ^ 20) r)"

record registerReq =
  PublicURL :: bytes

definition registerReq_schema :: schema where
  "registerReq_schema = SStruct [(''publicUrl'', SString)]"

definition registerReq_of :: "gval \<Rightarrow> registerReq" where
  "registerReq_of g = \<lparr>PublicURL = g_string (g_field 0 g)\<rparr>"

text \<open>\<open>decodeJSON(w, r, &req, 4<<10)\<close>\<close>

definition decode_registerReq :: "Request \<Rightarrow> registerReq decoded" where
  "decode_registerReq r = map_decoded registerReq_of (decodeJSON registerReq_schema (4 * 1024) r)"

section \<open>What a request decodes to\<close>

definition sendMessage_json :: "sendMessage \<Rightarrow> json" where
  "sendMessage_json m = JObj [(''platform'', JStr (sm_Platform m)), (''token'', JStr (sm_Token m)),
     (''kind'', JStr (sm_Kind m)), (''payload'', JStr (sm_Payload m))]"

definition sendReq_json :: "sendReq \<Rightarrow> json" where
  "sendReq_json req = JObj [(''messages'', JArr (map sendMessage_json (Messages req)))]"

definition utf8_message :: "sendMessage \<Rightarrow> bool" where
  "utf8_message m \<longleftrightarrow> utf8_ok (sm_Platform m) \<and> utf8_ok (sm_Token m) \<and> utf8_ok (sm_Kind m) \<and> utf8_ok (sm_Payload m)"

definition sendMessage_val :: "sendMessage \<Rightarrow> gval" where
  "sendMessage_val m = GStruct [GString (sm_Platform m), GString (sm_Token m), GString (sm_Kind m), GString (sm_Payload m)]"

lemma sendMessage_of_val [simp]: "sendMessage_of (sendMessage_val m) = m"
  by (simp add: sendMessage_of_def sendMessage_val_def)

lemma fill_message:
  assumes "fits sendMessage_schema g"
  shows "fill strict sendMessage_schema (sendMessage_json m) g = Some (sendMessage_val m)"
proof -
  obtain a b c d where "g = GStruct [a, b, c, d]"
    using assms by (auto simp: sendMessage_schema_def fits_simps)
  then show ?thesis
    by (simp add: sendMessage_schema_def sendMessage_json_def sendMessage_val_def field_of_def numeral_2_eq_2 numeral_3_eq_3)
qed

lemma fill_messages:
  "list_all (fits sendMessage_schema) old \<Longrightarrow>
   fill_elems strict sendMessage_schema (map sendMessage_json ms) old = Some (map sendMessage_val ms @ drop (length ms) old)"
proof (induction ms arbitrary: old)
  case (Cons m ms)
  then show ?case using fill_message[OF fits_reused[OF Cons.prems]] by (simp add: list_all_tl drop_Suc)
qed simp

lemma fill_sendReq:
  "fill strict sendReq_schema (sendReq_json req) (zero_of sendReq_schema)
     = Some (GStruct [GSlice (map sendMessage_val (Messages req)) (length (Messages req))])"
  using fill_messages[of "[]" strict "Messages req"]
  by (cases "Messages req") (simp_all add: sendReq_schema_def sendReq_json_def field_of_def)

lemma sendReq_of_val [simp]:
  "sendReq_of (GStruct [GSlice (map sendMessage_val (Messages req)) (length (Messages req))]) = req"
  by (simp add: sendReq_of_def comp_def)

lemma sendReq_json_facts:
  assumes "list_all utf8_message (Messages req)"
  shows "writable (sendReq_json req)" "bracketed (sendReq_json req)" "depth (sendReq_json req) \<le> maxNestingDepth"
    "cleaned (sendReq_json req) = sendReq_json req"
proof -
  have u: "utf8_json (sendReq_json req)"
    using assms by (auto simp: sendReq_json_def sendMessage_json_def utf8_message_def list_all_iff)
  have d: "fold max (map depth (map sendMessage_json ms)) 0 \<le> 1" for ms
    by (simp add: fold_max sendMessage_json_def)
  show "depth (sendReq_json req) \<le> maxNestingDepth"
    using d[of "Messages req"] by (simp add: sendReq_json_def maxNestingDepth_def)
  show "cleaned (sendReq_json req) = sendReq_json req" by (rule cleaned_id[OF u])
qed (auto simp: sendReq_json_def sendMessage_json_def list_all_iff)

lemma decode_sendReq_text:
  assumes "list_all utf8_message (Messages req)" "rq_body r = json_text (sendReq_json req) @ rest"
    "length (json_text (sendReq_json req)) \<le> 2 ^ 20"
  shows "decode_sendReq r = Decoded req"
  using json_decode_text[OF sendReq_json_facts(1-3)[OF assms(1)] assms(3)] assms(2)
  by (simp add: decode_sendReq_def decodeJSON_def sendReq_json_facts(4)[OF assms(1)] fill_sendReq)

lemma decodeJSON_fits: "decodeJSON t n r = Decoded g \<Longrightarrow> fits t g"
  using fill_fits(1)[OF json_decode_utf8 fits_zero]
  by (auto simp: decodeJSON_def split: sum.splits decode_error.splits option.splits)

lemma fits_message: "fits sendMessage_schema g \<Longrightarrow> utf8_message (sendMessage_of g)"
  by (auto simp: sendMessage_schema_def utf8_message_def sendMessage_of_def fits_simps numeral_2_eq_2 numeral_3_eq_3)

lemma fits_sendReq: "fits sendReq_schema g \<Longrightarrow> list_all utf8_message (Messages (sendReq_of g))"
  by (auto simp: sendReq_schema_def sendReq_of_def fits_simps list_all_iff dest!: in_set_takeD intro: fits_message)

lemma decode_sendReq_utf8: "decode_sendReq r = Decoded req \<Longrightarrow> list_all utf8_message (Messages req)"
  using decodeJSON_fits fits_sendReq
  by (cases "decodeJSON sendReq_schema (2 ^ 20) r") (auto simp: decode_sendReq_def)

text \<open>No more than the first \<open>n\<close> bytes of a body decide, and that it is longer.\<close>

lemma decodeJSON_limit:
  assumes "n < length (rq_body r)" "tail \<noteq> []"
  shows "decodeJSON t n (r\<lparr>rq_body := take n (rq_body r) @ tail\<rparr>) = decodeJSON t n r"
  using json_decode_limit[of n "rq_body r" "take n (rq_body r) @ tail" "rq_broken r"] assms
  by (simp add: decodeJSON_def)

lemma decodeJSON_EOF: "decodeJSON t n r = BodyEOF \<longleftrightarrow> \<not> rq_broken r \<and> length (rq_body r) \<le> n \<and> list_all is_space (rq_body r)"
  using json_decode_EOF[of n "rq_broken r" "rq_body r"]
  by (auto simp: decodeJSON_def split: sum.split decode_error.split option.split)

section \<open>Properties\<close>


definition ex_batch :: "sendMessage list" where
  "ex_batch = [\<lparr>sm_Platform = ''ios'', sm_Token = ''dev'', sm_Kind = ''message'', sm_Payload = ''c''\<rparr>]"

lemma ex_body_json: "ex_body = json_text (sendReq_json \<lparr>Messages = ex_batch\<rparr>)"
  by (simp add: ex_body_def sendReq_json_def sendMessage_json_def ex_batch_def)

lemma ex_body_length: "length (json_text (sendReq_json \<lparr>Messages = ex_batch\<rparr>)) \<le> 2 ^ 20"
  using quoted_length[of "''messages''"] quoted_length[of "''platform''"] quoted_length[of "''ios''"] quoted_length[of "''token''"]
    quoted_length[of "''dev''"] quoted_length[of "''kind''"] quoted_length[of "''message''"] quoted_length[of "''payload''"]
    quoted_length[of "''c''"]
  by (simp add: sendReq_json_def sendMessage_json_def ex_batch_def)

lemma ex_batch_utf8: "list_all utf8_message (Messages \<lparr>Messages = ex_batch\<rparr>)"
  by (simp add: ex_batch_def utf8_message_def)

lemma ex_decode: "decode_sendReq (ex_request\<lparr>rq_headers := hs\<rparr>) = Decoded \<lparr>Messages = ex_batch\<rparr>"
  "decode_sendReq ex_request = Decoded \<lparr>Messages = ex_batch\<rparr>"
  using ex_body_json ex_batch_utf8 ex_body_length
  by (auto intro!: decode_sendReq_text[where rest = "[]"] simp: ex_request_def)




text \<open>
  Of a body that is longer than the limit only the bytes within it decide, so no such body
  is taken as empty, and with a limit of \<open>n\<close> bytes a body that repeats the first \<open>n\<close> bytes has
  the same outcome whatever follows. A body counts as empty exactly when it is white space
  within the limit that arrived whole.
\<close>

lemma body_limit_enforced:
  "(n < length (rq_body r) \<and> tail \<noteq> [] \<longrightarrow> decodeJSON t n (r\<lparr>rq_body := take n (rq_body r) @ tail\<rparr>) = decodeJSON t n r) \<and>
   (decodeJSON t n r = BodyEOF \<longleftrightarrow> \<not> rq_broken r \<and> length (rq_body r) \<le> n \<and> list_all is_space (rq_body r))"
  using decodeJSON_limit decodeJSON_EOF by blast

end
