(* ===== verification/Api_Send.thy ===== *)
theory Api_Send
  imports Api_Decode
begin

text \<open>
  \<open>internal/api/send.go\<close>: the \<open>/v1/send\<close> handler. The loop over the messages is
  \<open>prepare\<close>, one \<open>prepare_one\<close> per message, threading the results so far, the items for
  the pool, the store, the call limiter and the world; \<open>handleSend\<close> is the whole handler.
  It is a partial function of the schedule of its worker pool: \<open>None\<close> stands for a schedule
  that does not complete the pool, and \<open>handleSend_completes\<close> shows that every request has
  a schedule that does.
\<close>

definition maxPayloadBytes :: nat where "maxPayloadBytes = 4096"

definition parsePlatform :: "bytes \<Rightarrow> Platform option" where
  "parsePlatform s =
     (if s = platform_str PlatformIOS then Some PlatformIOS
      else if s = platform_str PlatformAndroid then Some PlatformAndroid
      else None)"

definition parseKind :: "bytes \<Rightarrow> Kind option" where
  "parseKind s = find (\<lambda>k. s = kind_str k) [KindMessage, KindMention, KindCall, KindWake]"

text \<open>\<open>time.Duration(days) * 24 * time.Hour\<close>, each product at 64 bits.\<close>

definition retention :: "Config \<Rightarrow> int" where
  "retention cfg = wrap64 (wrap64 (TokenRetentionDays cfg * 24) * hour_ns)"

definition sender_for :: "Server \<Rightarrow> Platform \<Rightarrow> Sender" where
  "sender_for srv platform = (if platform = PlatformIOS then sv_ios srv else sv_android srv)"

record prep =
  pr_results :: "Result list"
  pr_items :: "dispatchItem list"
  pr_store :: Store
  pr_callLim :: Limiter
  pr_world :: world

definition add_result :: "bytes \<Rightarrow> Status \<Rightarrow> prep \<Rightarrow> prep" where
  "add_result token st p = p\<lparr>pr_results := pr_results p @ [\<lparr>r_Token = token, r_Status = st\<rparr>]\<rparr>"

definition add_item :: "Sender \<Rightarrow> Message \<Rightarrow> prep \<Rightarrow> prep" where
  "add_item sender msg p =
     (add_result [] StatusUnset p)\<lparr>pr_items := pr_items p @
        [\<lparr>di_resultIdx = length (pr_results p), di_sender = sender, di_msg = msg\<rparr>]\<rparr>"

definition call_gate :: "int \<Rightarrow> Kind \<Rightarrow> prep \<Rightarrow> bool \<times> prep" where
  "call_gate keyID kind p =
     (if kind = KindCall
      then (case ask (FormatInt keyID) (pr_callLim p) (pr_world p) of
              (ok, l, w) \<Rightarrow> (ok, p\<lparr>pr_callLim := l, pr_world := w\<rparr>))
      else (True, p))"

definition bind_message :: "Server \<Rightarrow> int \<Rightarrow> Platform \<Rightarrow> Message \<Rightarrow> prep \<Rightarrow> prep" where
  "bind_message srv keyID platform msg p =
     (case BindToken keyID (platform_str platform) (m_Token msg) (retention (sv_cfg srv)) (pr_store p) (pr_world p) of
        (Inl _, s, w) \<Rightarrow>
          add_result (m_Token msg) StatusError (p\<lparr>pr_store := s, pr_world := log_print LogBindToken w\<rparr>)
      | (Inr owner, s, w) \<Rightarrow>
          (let p' = p\<lparr>pr_store := s, pr_world := w\<rparr> in
           if owner \<noteq> keyID then add_result (m_Token msg) StatusForbidden p'
           else add_item (sender_for srv platform) msg p'))"

definition prepare_one :: "Server \<Rightarrow> int \<Rightarrow> sendMessage \<Rightarrow> prep \<Rightarrow> prep" where
  "prepare_one srv keyID m p =
     (if sm_Token m = [] then p
      else if maxPayloadBytes < length (sm_Payload m) then add_result (sm_Token m) StatusError p
      else case parsePlatform (sm_Platform m) of
             None \<Rightarrow> add_result (sm_Token m) StatusError p
           | Some platform \<Rightarrow>
               (case parseKind (sm_Kind m) of
                  None \<Rightarrow> add_result (sm_Token m) StatusError p
                | Some kind \<Rightarrow>
                    (case call_gate keyID kind p of
                       (False, p1) \<Rightarrow> add_result (sm_Token m) StatusError p1
                     | (True, p1) \<Rightarrow>
                         bind_message srv keyID platform
                           \<lparr>m_Token = sm_Token m, m_Kind = kind, m_Payload = sm_Payload m\<rparr> p1)))"

fun prepare :: "Server \<Rightarrow> int \<Rightarrow> sendMessage list \<Rightarrow> prep \<Rightarrow> prep" where
  "prepare srv keyID [] p = p"
| "prepare srv keyID (m # ms) p = prepare srv keyID ms (prepare_one srv keyID m p)"

fun refundNotAttemptedCalls :: "int \<Rightarrow> dispatchItem list \<Rightarrow> Result list \<Rightarrow> Limiter \<Rightarrow> Limiter" where
  "refundNotAttemptedCalls keyID [] rs l = l"
| "refundNotAttemptedCalls keyID (i # items) rs l =
     refundNotAttemptedCalls keyID items rs
       (if m_Kind (di_msg i) = KindCall \<and> r_Status (rs ! di_resultIdx i) = StatusNotAttempted
        then Return (FormatInt keyID) l else l)"

text \<open>What a handler leaves: the response, the server, what went to the providers, the world.\<close>

record served =
  sd_resp :: Response
  sd_server :: Server
  sd_calls :: "provider_call list"
  sd_world :: world

definition answer_with :: "Response \<Rightarrow> Server \<Rightarrow> world \<Rightarrow> served" where
  "answer_with resp srv w = \<lparr>sd_resp = resp, sd_server = srv, sd_calls = [], sd_world = w\<rparr>"

definition no_calls :: sctx where
  "no_calls = \<lparr>c_scope = None, c_log = [], c_calls = []\<rparr>"

text \<open>From the decoded batch to the response: the loop, the pool, the refunds, the log line.\<close>

definition send_batch :: "bool \<Rightarrow> pool_event list \<Rightarrow> int \<Rightarrow> sendMessage list \<Rightarrow> Server \<Rightarrow> world \<Rightarrow> served option" where
  "send_batch ctx_done sched keyID ms srv w0 =
     (let p = prepare srv keyID ms
                \<lparr>pr_results = [], pr_items = [], pr_store = sv_keys srv, pr_callLim = sv_callLim srv, pr_world = w0\<rparr>
      in case dispatch (SendConcurrency (sv_cfg srv)) (SendTimeoutSeconds (sv_cfg srv)) ctx_done sched
                (pr_items p) (pr_results p) no_calls of
           None \<Rightarrow> None
         | Some (results, c) \<Rightarrow>
             (case tally results of (delivered, unregistered, forbidden, notAttempted, failed) \<Rightarrow>
                let w1 = (pr_world p)\<lparr>w_log := w_log (pr_world p) @ c_log c\<rparr>;
                    w2 = log_print (LogSend keyID (length results) delivered unregistered forbidden notAttempted failed) w1
                in Some \<lparr>sd_resp = writeJSON 200 (BodyResults results),
                         sd_server = srv\<lparr>sv_keys := pr_store p,
                           sv_callLim := refundNotAttemptedCalls keyID (pr_items p) results (pr_callLim p)\<rparr>,
                         sd_calls = c_calls c, sd_world = w2\<rparr>))"

definition handleSend :: "bool \<Rightarrow> pool_event list \<Rightarrow> Request \<Rightarrow> Server \<Rightarrow> world \<Rightarrow> served option" where
  "handleSend ctx_done sched r srv w0 =
     (let plain = bearerToken r in
      if plain = [] then Some (answer_with (writeErr 401 ''missing bearer key'') srv w0)
      else case Verify plain (sv_keys srv) w0 of
             (Inl e, s1, w1) \<Rightarrow>
               (let srv1 = srv\<lparr>sv_keys := s1\<rparr> in
                if e = ErrNotFound then Some (answer_with (writeErr 401 ''invalid or revoked key'') srv1 w1)
                else Some (answer_with (writeErr 500 ''server error'') srv1 (log_print LogVerifyKey w1)))
           | (Inr k, s1, w1) \<Rightarrow>
               (case ask (FormatInt (ID k)) (sv_sendLim srv) w1 of
                  (ok, l, w2) \<Rightarrow>
                    let srv2 = srv\<lparr>sv_keys := s1, sv_sendLim := l\<rparr> in
                    if \<not> ok then Some (answer_with (writeErr 429 ''rate limit exceeded'') srv2 w2)
                    else case decode_sendReq r of
                           Decoded req \<Rightarrow>
                             if MaxMessages (sv_cfg srv) < int (length (Messages req))
                             then Some (answer_with (writeErr 400 ''too many messages in one request'') srv2 w2)
                             else send_batch ctx_done sched (ID k) (Messages req) srv2 w2
                         | _ \<Rightarrow> Some (answer_with (writeErr 400 ''invalid body'') srv2 w2)))"

section \<open>The loop over the messages\<close>

definition toks :: "sendMessage list \<Rightarrow> bytes list" where
  "toks ms = filter (\<lambda>t. t \<noteq> []) (map sm_Token ms)"

lemma toks_append [simp]: "toks (xs @ ys) = toks xs @ toks ys"
  by (simp add: toks_def)

text \<open>Item \<open>i\<close> carries message \<open>m\<close>: valid platform and kind, payload within the limit, forwarded untouched.\<close>

definition carries :: "Server \<Rightarrow> Platform \<Rightarrow> sendMessage \<Rightarrow> dispatchItem \<Rightarrow> bool" where
  "carries srv platform m i \<longleftrightarrow>
     sm_Token m \<noteq> [] \<and> length (sm_Payload m) \<le> maxPayloadBytes \<and>
     parsePlatform (sm_Platform m) = Some platform \<and> parseKind (sm_Kind m) = Some (m_Kind (di_msg i)) \<and>
     di_sender i = sender_for srv platform \<and>
     m_Token (di_msg i) = sm_Token m \<and> m_Payload (di_msg i) = sm_Payload m"

definition not_foreign :: "int \<Rightarrow> Store \<Rightarrow> Platform \<Rightarrow> bytes \<Rightarrow> bool" where
  "not_foreign keyID s platform token \<longleftrightarrow> owner_of s (platform_str platform) token \<in> {None, Some keyID}"

definition prep_inv :: "Server \<Rightarrow> int \<Rightarrow> sendMessage list \<Rightarrow> prep \<Rightarrow> bool" where
  "prep_inv srv keyID ms p \<longleftrightarrow>
     tables_ok (s_db (pr_store p)) \<and>
     items_ok (pr_items p) (pr_results p) \<and>
     length (pr_results p) = length (toks ms) \<and>
     (\<forall>j < length (pr_results p). j \<notin> di_resultIdx ` set (pr_items p) \<longrightarrow>
        r_Token (pr_results p ! j) = toks ms ! j \<and> r_Status (pr_results p ! j) \<in> {StatusError, StatusForbidden}) \<and>
     (\<forall>i \<in> set (pr_items p). m_Token (di_msg i) = toks ms ! di_resultIdx i) \<and>
     (\<forall>i \<in> set (pr_items p). \<exists>m \<in> set ms. \<exists>platform. carries srv platform m i \<and>
        not_foreign keyID (pr_store p) platform (sm_Token m))"

lemma BindToken_not_foreign:
  assumes "tables_ok (s_db s)" "BindToken k p t ret s w = (r, s', w')" "owner_of s p' t' \<in> {None, Some k}"
  shows "owner_of s' p' t' \<in> {None, Some k}"
proof -
  obtain b s1 w1 where b: "bind_tx k p t s w = (b, s1, w1)" by (metis prod_cases3)
  have s1: "owner_of s1 p' t' \<in> {None, Some k}"
    using bind_tx_effect[OF b] assms(3) by (auto simp: owner_insert_token split: if_splits)
  have ok: "tables_ok (s_db s1)" using step_bind[OF b] assms(1) by (rule tables_ok_step)
  show ?thesis
  proof (cases b)
    case (Inl e)
    then show ?thesis using assms(2) b s1 by (auto simp: BindToken_def)
  next
    case (Inr ow)
    then obtain w2 where "maybePruneStaleTokens ret s1 w1 = (s', w2)"
      using assms(2) b by (auto simp: BindToken_def split: prod.splits)
    from prune_shrinks[OF ok this] have "owner_of s' p' t' \<noteq> None \<longrightarrow> owner_of s' p' t' = owner_of s1 p' t'"
      by (auto simp: map_le_def abs_bindings_def dom_def)
    then show ?thesis using s1 by auto
  qed
qed


lemma not_foreign_bind:
  "tables_ok (s_db s) \<Longrightarrow> BindToken k p t ret s w = (r, s', w') \<Longrightarrow> not_foreign k s platform token
     \<Longrightarrow> not_foreign k s' platform token"
  unfolding not_foreign_def by (rule BindToken_not_foreign)

lemma not_foreign_claimed:
  assumes "tables_ok (s_db s)" "BindToken k (platform_str platform) token ret s w = (Inr k, s', w')"
  shows "not_foreign k s' platform token"
proof -
  have "owner_of s (platform_str platform) token \<in> {None, Some k}"
    using assms(2) by (elim BindToken_Inr) (auto dest: bind_tx_owner(2))
  then show ?thesis unfolding not_foreign_def using BindToken_not_foreign[OF assms] by simp
qed

lemma prep_inv_fail:
  assumes "prep_inv srv k ms p" "sm_Token m \<noteq> []" "st \<in> {StatusError, StatusForbidden}"
  shows "prep_inv srv k (ms @ [m]) (add_result (sm_Token m) st p)"
proof -
  have len: "length (pr_results p) = length (toks ms)" and it: "items_ok (pr_items p) (pr_results p)"
    using assms(1) by (simp_all add: prep_inv_def)
  have idx: "di_resultIdx i < length (toks ms)" if "i \<in> set (pr_items p)" for i
    using it that len by (simp add: items_ok_def)
  have "items_ok (pr_items p) (pr_results p @ [x])" for x
    using it by (auto simp: items_ok_def nth_append)
  moreover have "toks [m] = [sm_Token m]" using assms(2) by (simp add: toks_def)
  ultimately show ?thesis
    using assms(1,3) len idx unfolding prep_inv_def add_result_def
    by (auto simp: nth_append less_Suc_eq)
qed

lemma prep_inv_item:
  assumes "prep_inv srv k ms p" "carries srv platform m \<lparr>di_resultIdx = n, di_sender = s, di_msg = msg\<rparr>"
    and "not_foreign k (pr_store p) platform (sm_Token m)"
  shows "prep_inv srv k (ms @ [m]) (add_item s msg p)"
proof -
  have len: "length (pr_results p) = length (toks ms)" and it: "items_ok (pr_items p) (pr_results p)"
    using assms(1) by (simp_all add: prep_inv_def)
  have idx: "di_resultIdx i < length (toks ms)" if "i \<in> set (pr_items p)" for i
    using it that len by (simp add: items_ok_def)
  have m: "sm_Token m \<noteq> []" "m_Token msg = sm_Token m" using assms(2) by (simp_all add: carries_def)
  have c: "carries srv platform m \<lparr>di_resultIdx = length (toks ms), di_sender = s, di_msg = msg\<rparr>"
    using assms(2) by (simp add: carries_def)
  have "items_ok (pr_items p @ [\<lparr>di_resultIdx = length (toks ms), di_sender = s, di_msg = msg\<rparr>])
      (pr_results p @ [\<lparr>r_Token = [], r_Status = StatusUnset\<rparr>])"
    using it idx len by (fastforce simp: items_ok_def nth_append)
  moreover have "toks [m] = [sm_Token m]" using m by (simp add: toks_def)
  ultimately show ?thesis
    using assms(1,3) len idx m c unfolding prep_inv_def add_result_def add_item_def
    by (auto simp: nth_append less_Suc_eq)
qed

lemma prep_inv_world: "prep_inv srv k ms (p\<lparr>pr_callLim := l, pr_world := w\<rparr>) = prep_inv srv k ms p"
  by (simp add: prep_inv_def)

lemma prep_inv_bound:
  assumes "prep_inv srv k ms p" "BindToken k pf t ret (pr_store p) w0 = (r, s, w')"
  shows "prep_inv srv k ms (p\<lparr>pr_store := s, pr_world := w\<rparr>)"
proof -
  have ok: "tables_ok (s_db (pr_store p))" using assms(1) by (simp add: prep_inv_def)
  have "tables_ok (s_db s)" using tables_ok_steps[OF BindToken_steps[OF assms(2)] ok] .
  then show ?thesis
    using assms(1) not_foreign_bind[OF ok assms(2)] unfolding prep_inv_def by (simp, blast)
qed

lemma prep_inv_bind_message:
  assumes inv: "prep_inv srv k ms p" and m: "sm_Token m \<noteq> []" "length (sm_Payload m) \<le> maxPayloadBytes"
    "parsePlatform (sm_Platform m) = Some platform" "parseKind (sm_Kind m) = Some kind"
  shows "prep_inv srv k (ms @ [m])
    (bind_message srv k platform \<lparr>m_Token = sm_Token m, m_Kind = kind, m_Payload = sm_Payload m\<rparr> p)"
proof -
  obtain r s w where b: "BindToken k (platform_str platform) (sm_Token m) (retention (sv_cfg srv)) (pr_store p) (pr_world p)
      = (r, s, w)" by (metis prod_cases3)
  have ok: "tables_ok (s_db (pr_store p))" using inv by (simp add: prep_inv_def)
  note b' = prep_inv_bound[OF inv b]
  show ?thesis
  proof (cases r)
    case (Inl e)
    then show ?thesis using prep_inv_fail[OF b' m(1)] b by (simp add: bind_message_def)
  next
    case (Inr ow)
    show ?thesis
    proof (cases "ow = k")
      case True
      then have "not_foreign k s platform (sm_Token m)" using not_foreign_claimed[OF ok] b Inr by simp
      then show ?thesis
        using True Inr b m prep_inv_item[OF b', of platform m 0 "sender_for srv platform"
            "\<lparr>m_Token = sm_Token m, m_Kind = kind, m_Payload = sm_Payload m\<rparr>" w]
        by (simp add: bind_message_def carries_def)
    next
      case False
      then show ?thesis using prep_inv_fail[OF b' m(1)] b Inr by (simp add: bind_message_def Let_def)
    qed
  qed
qed

lemma prep_inv_one:
  assumes inv: "prep_inv srv k ms p"
  shows "prep_inv srv k (ms @ [m]) (prepare_one srv k m p)"
proof (cases "sm_Token m = []")
  case True
  have "toks [m] = []" using True by (simp add: toks_def)
  then show ?thesis using inv True unfolding prepare_one_def prep_inv_def by auto
next
  case False
  note fail = prep_inv_fail[OF inv False]
  show ?thesis
  proof (cases "parsePlatform (sm_Platform m) = None \<or> parseKind (sm_Kind m) = None \<or> maxPayloadBytes < length (sm_Payload m)")
    case True
    then show ?thesis using False fail by (auto simp: prepare_one_def split: option.split)
  next
    case valid: False
    then obtain platform kind where pk: "parsePlatform (sm_Platform m) = Some platform" "parseKind (sm_Kind m) = Some kind"
      by auto
    obtain ok p1 where g: "call_gate k kind p = (ok, p1)" by fastforce
    then have inv1: "prep_inv srv k ms p1"
      using inv by (auto simp: call_gate_def prep_inv_world split: if_splits prod.splits)
    show ?thesis
      using prep_inv_fail[OF inv1 False] prep_inv_bind_message[OF inv1 False _ pk] valid False pk g
      by (cases ok) (auto simp: prepare_one_def)
  qed
qed

lemma prep_inv_prepare: "prep_inv srv k ms0 p \<Longrightarrow> prep_inv srv k (ms0 @ ms) (prepare srv k ms p)"
proof (induction ms arbitrary: ms0 p)
  case (Cons m ms)
  then show ?case using Cons.IH[OF prep_inv_one[OF Cons.prems]] by simp
qed simp

abbreviation prep0 :: "Server \<Rightarrow> world \<Rightarrow> prep" where
  "prep0 srv w \<equiv> \<lparr>pr_results = [], pr_items = [], pr_store = sv_keys srv, pr_callLim = sv_callLim srv, pr_world = w\<rparr>"

lemma prep_inv_start: "tables_ok (s_db (sv_keys srv)) \<Longrightarrow> prep_inv srv k ms (prepare srv k ms (prep0 srv w))"
proof -
  assume "tables_ok (s_db (sv_keys srv))"
  then have "prep_inv srv k [] (prep0 srv w)" by (simp add: prep_inv_def items_ok_def toks_def)
  from prep_inv_prepare[OF this, of ms] show ?thesis by simp
qed

section \<open>A served batch\<close>

lemma send_batch_parts:
  assumes "send_batch cd sched k ms srv w = Some d"
  defines "p \<equiv> prepare srv k ms (prep0 srv w)"
  obtains results c a b e f g where
    "dispatch (SendConcurrency (sv_cfg srv)) (SendTimeoutSeconds (sv_cfg srv)) cd sched
       (pr_items p) (pr_results p) no_calls = Some (results, c)"
    "sd_resp d = writeJSON 200 (BodyResults results)"
    "sd_server d = srv\<lparr>sv_keys := pr_store p,
       sv_callLim := refundNotAttemptedCalls k (pr_items p) results (pr_callLim p)\<rparr>"
    "sd_calls d = c_calls c"
    "tally results = (a, b, e, f, g)"
    "sd_world d = log_print (LogSend k (length results) a b e f g)
       ((pr_world p)\<lparr>w_log := w_log (pr_world p) @ c_log c\<rparr>)"
  using assms(1) unfolding send_batch_def p_def[symmetric] Let_def
  by (auto split: option.splits prod.splits)

lemma attempted_slot:
  assumes "attempted items k rs rs'" "i \<in> set items"
  shows "r_Token (rs' ! di_resultIdx i) = m_Token (di_msg i) \<and>
    (provider_status (r_Status (rs' ! di_resultIdx i)) \<or> r_Status (rs' ! di_resultIdx i) = StatusNotAttempted)"
proof -
  obtain n where n: "n < length items" "items ! n = i" using assms(2) by (auto simp: in_set_conv_nth)
  then show ?thesis using assms(1) by (cases "n < k") (auto simp: attempted_def filled_def)
qed

lemma batch_results:
  assumes inv: "prep_inv srv k ms p" and at: "attempted (pr_items p) n (pr_results p) rs"
  shows "map r_Token rs = toks ms" and "\<And>r. r \<in> set rs \<Longrightarrow> r_Status r \<noteq> StatusUnset"
proof -
  have len: "length rs = length (toks ms)" "length rs = length (pr_results p)"
    using inv at by (auto simp: prep_inv_def attempted_def)
  have slot: "r_Token (rs ! j) = toks ms ! j \<and> r_Status (rs ! j) \<noteq> StatusUnset" if j: "j < length rs" for j
  proof (cases "j \<in> di_resultIdx ` set (pr_items p)")
    case True
    then obtain i where i: "i \<in> set (pr_items p)" "j = di_resultIdx i" by auto
    have "m_Token (di_msg i) = toks ms ! j" using inv i by (auto simp: prep_inv_def)
    then show ?thesis using attempted_slot[OF at i(1)] i(2) by auto
  next
    case False
    then have "rs ! j = pr_results p ! j" using at j len by (auto simp: attempted_def)
    moreover have "r_Token (pr_results p ! j) = toks ms ! j"
        "r_Status (pr_results p ! j) \<in> {StatusError, StatusForbidden}"
      using inv False j len unfolding prep_inv_def by auto
    ultimately show ?thesis by auto
  qed
  show "map r_Token rs = toks ms" using slot len by (intro nth_equalityI) auto
  show "r \<in> set rs \<Longrightarrow> r_Status r \<noteq> StatusUnset" for r using slot by (metis in_set_conv_nth)
qed

text \<open>
  Call \<open>x\<close> is the push of a message of the batch for the token of result \<open>r\<close>, a token that
  no other key holds in store \<open>s\<close>.
\<close>

definition push_of :: "Server \<Rightarrow> int \<Rightarrow> Store \<Rightarrow> sendMessage list \<Rightarrow> Result \<Rightarrow> provider_call \<Rightarrow> bool" where
  "push_of srv keyID s ms r x \<longleftrightarrow>
     (\<exists>m \<in> set ms. \<exists>platform kind.
        parsePlatform (sm_Platform m) = Some platform \<and> parseKind (sm_Kind m) = Some kind \<and>
        length (sm_Payload m) \<le> maxPayloadBytes \<and> not_foreign keyID s platform (sm_Token m) \<and>
        call_of (sender_for srv platform) \<lparr>m_Token = sm_Token m, m_Kind = kind, m_Payload = sm_Payload m\<rparr> x \<and>
        r_Token r = sm_Token m \<and> provider_status (r_Status r))"

lemma sender_for_server [simp]: "sender_for (srv\<lparr>sv_keys := s, sv_sendLim := l\<rparr>) platform = sender_for srv platform"
  by (simp add: sender_for_def)

lemma push_of_server [simp]: "push_of (srv\<lparr>sv_keys := s, sv_sendLim := l\<rparr>) = push_of srv"
  by (simp add: push_of_def fun_eq_iff)

lemma push_of_item:
  assumes inv: "prep_inv srv k ms p" and at: "attempted (pr_items p) n (pr_results p) rs"
    and i: "i < n" and x: "call_of (di_sender (pr_items p ! i)) (di_msg (pr_items p ! i)) x"
  shows "push_of srv k (pr_store p) ms (rs ! di_resultIdx (pr_items p ! i)) x"
proof -
  let ?i = "pr_items p ! i"
  have it: "?i \<in> set (pr_items p)" and f: "filled ?i (rs ! di_resultIdx ?i)"
    using at i by (auto simp: attempted_def)
  obtain m platform where m: "m \<in> set ms" "carries srv platform m ?i" "not_foreign k (pr_store p) platform (sm_Token m)"
    using inv it unfolding prep_inv_def by blast
  have "di_msg ?i = \<lparr>m_Token = sm_Token m, m_Kind = m_Kind (di_msg ?i), m_Payload = sm_Payload m\<rparr>"
    using m(2) by (simp add: carries_def)
  then show ?thesis
    using m f x unfolding push_of_def carries_def filled_def by (metis (no_types, lifting))
qed

lemma batch_calls:
  assumes inv: "prep_inv srv k ms p"
    and ds: "dispatch conc tmo cd sched (pr_items p) (pr_results p) no_calls = Some (rs, c)"
  shows "\<exists>js. distinct js \<and> list_all2 (\<lambda>j x. j < length rs \<and> push_of srv k (pr_store p) ms (rs ! j) x) js (c_calls c)"
proof -
  have ok: "items_ok (pr_items p) (pr_results p)" using inv by (simp add: prep_inv_def)
  obtain n "is" cs where d: "attempted (pr_items p) n (pr_results p) rs" "c_calls c = cs" "distinct is"
      "set is \<subseteq> {..<n}"
      "list_all2 (\<lambda>i x. call_of (di_sender (pr_items p ! i)) (di_msg (pr_items p ! i)) x) is cs"
    using dispatch_calls[OF ds ok] by (auto simp: no_calls_def)
  let ?js = "map (\<lambda>i. di_resultIdx (pr_items p ! i)) is"
  have n: "n \<le> length (pr_items p)" "length rs = length (pr_results p)" using d(1) by (simp_all add: attempted_def)
  have "inj_on (\<lambda>i. di_resultIdx (pr_items p ! i)) (set is)"
    using items_idx_inj[OF ok] d(4) n(1) by (intro inj_onI) (metis lessThan_iff order_less_le_trans subsetD)
  then have "distinct ?js" using d(3) by (simp add: distinct_map)
  moreover have "list_all2 (\<lambda>j x. j < length rs \<and> push_of srv k (pr_store p) ms (rs ! j) x) ?js cs"
    unfolding list_all2_map1 using d(5)
  proof (rule list.rel_mono_strong)
    fix i x assume i: "i \<in> set is" and x: "call_of (di_sender (pr_items p ! i)) (di_msg (pr_items p ! i)) x"
    then have "i < n" using d(4) by auto
    moreover have "di_resultIdx (pr_items p ! i) < length rs" using ok n \<open>i < n\<close> by (simp add: items_ok_def)
    ultimately show "di_resultIdx (pr_items p ! i) < length rs \<and>
        push_of srv k (pr_store p) ms (rs ! di_resultIdx (pr_items p ! i)) x"
      using push_of_item[OF inv d(1) _ x] by blast
  qed
  ultimately show ?thesis using d(2) by blast
qed

lemma send_batch_calls:
  assumes sb: "send_batch cd sched k ms srv w = Some d" and ok: "tables_ok (s_db (sv_keys srv))"
  shows "\<exists>rs js. sd_resp d = writeJSON 200 (BodyResults rs) \<and> distinct js \<and>
     list_all2 (\<lambda>j x. j < length rs \<and> push_of srv k (sv_keys (sd_server d)) ms (rs ! j) x) js (sd_calls d)"
  using sb
proof (rule send_batch_parts)
  fix rs c a b e f g
  let ?p = "prepare srv k ms (prep0 srv w)"
  assume ds: "dispatch (SendConcurrency (sv_cfg srv)) (SendTimeoutSeconds (sv_cfg srv)) cd sched
       (pr_items ?p) (pr_results ?p) no_calls = Some (rs, c)"
    and d: "sd_resp d = writeJSON 200 (BodyResults rs)" "sd_calls d = c_calls c"
    "sd_server d = srv\<lparr>sv_keys := pr_store ?p, sv_callLim := refundNotAttemptedCalls k (pr_items ?p) rs (pr_callLim ?p)\<rparr>"
  show ?thesis using batch_calls[OF prep_inv_start[OF ok] ds] d by auto
qed

lemma send_batch_results:
  assumes sb: "send_batch cd sched k ms srv w = Some d" and ok: "tables_ok (s_db (sv_keys srv))"
  shows "\<exists>rs. sd_resp d = writeJSON 200 (BodyResults rs) \<and> map r_Token rs = toks ms \<and>
     (\<forall>x \<in> set rs. r_Status x \<noteq> StatusUnset)"
  using sb
proof (rule send_batch_parts)
  fix rs c a b e f g
  let ?p = "prepare srv k ms (prep0 srv w)"
  assume ds: "dispatch (SendConcurrency (sv_cfg srv)) (SendTimeoutSeconds (sv_cfg srv)) cd sched
       (pr_items ?p) (pr_results ?p) no_calls = Some (rs, c)"
    and d: "sd_resp d = writeJSON 200 (BodyResults rs)"
  have inv: "prep_inv srv k ms ?p" using prep_inv_start[OF ok] .
  then have "items_ok (pr_items ?p) (pr_results ?p)" by (simp add: prep_inv_def)
  from dispatch_results[OF ds this] obtain n where "attempted (pr_items ?p) n (pr_results ?p) rs" by blast
  from batch_results[OF inv this] show ?thesis using d by auto
qed

section \<open>The call budget\<close>

definition lim_now :: "nat \<Rightarrow> Limiter \<Rightarrow> world \<Rightarrow> bool" where
  "lim_now B l w \<longleftrightarrow> lim_good B (t_mono (w_clock w (w_cpos w))) l"

lemma lim_good_mono: "lim_good B T l \<Longrightarrow> T \<le> T' \<Longrightarrow> lim_good B T' l"
  unfolding lim_good_def lim_ok_def by (meson order_trans)

lemma lim_now_later: "lim_now B l w \<Longrightarrow> later L w w' \<Longrightarrow> clock_mono w \<Longrightarrow> lim_now B l w'"
  unfolding lim_now_def using lim_good_mono later_reading by blast

lemma ask_later: "ask k l w = (ok, l', w') \<Longrightarrow> later {} w w'"
  by (auto dest!: ask_world simp: later_def)

lemma ask_lim_now:
  assumes "lim_now B l w" "clock_mono w" "ask k l w = (ok, l', w')"
  shows "lim_now B l' w'"
proof -
  have w': "w' = w\<lparr>w_cpos := Suc (w_cpos w)\<rparr>" and a: "Allow k (w_clock w (w_cpos w)) l = (ok, l')"
    using ask_world[OF assms(3)] by simp_all
  have "lim_good B (t_mono (w_clock w (w_cpos w))) l'"
    using lim.good_allow[of B _ l "w_clock w (w_cpos w)" k] assms(1) a unfolding lim_now_def by fastforce
  then show ?thesis using assms(2) unfolding lim_now_def w' clock_mono_def by (auto intro: lim_good_mono)
qed

abbreviation prepare_logs :: "log_line set" where
  "prepare_logs \<equiv> {LogBindToken, LogPruneTokens}"

lemma later_log: "later L w w' \<Longrightarrow> l \<in> L \<Longrightarrow> later L w (log_print l w')"
  by (auto simp: later_def log_print_def)

text \<open>A step of the loop moves the world forward and keeps the call limiter sound.\<close>

definition prep_moves :: "prep \<Rightarrow> prep \<Rightarrow> bool" where
  "prep_moves p q \<longleftrightarrow> later prepare_logs (pr_world p) (pr_world q) \<and>
     (\<forall>B. clock_mono (pr_world p) \<longrightarrow> lim_now B (pr_callLim p) (pr_world p) \<longrightarrow> lim_now B (pr_callLim q) (pr_world q))"

lemma prep_moves_trans: "prep_moves p q \<Longrightarrow> prep_moves q r \<Longrightarrow> prep_moves p r"
  unfolding prep_moves_def by (meson later_clock later_trans)

lemma prep_moves_later:
  "later prepare_logs (pr_world p) (pr_world q) \<Longrightarrow> pr_callLim q = pr_callLim p \<Longrightarrow> prep_moves p q"
  unfolding prep_moves_def using lim_now_later by metis

lemma prep_moves_add [simp]:
  "prep_moves p (add_result t st q) = prep_moves p q" "prep_moves p (add_item s m q) = prep_moves p q"
  by (simp_all add: prep_moves_def add_item_def add_result_def)

lemma prep_moves_refl [simp]: "prep_moves p p"
  by (simp add: prep_moves_later)

lemma prep_moves_gate: "call_gate k kind p = (ok, q) \<Longrightarrow> prep_moves p q"
  using ask_lim_now later_mono[OF ask_later]
  by (fastforce simp: call_gate_def prep_moves_def split: if_splits prod.splits)

lemma prep_moves_bind: "prep_moves p (bind_message srv k platform msg p)"
proof -
  obtain r s w where b: "BindToken k (platform_str platform) (m_Token msg) (retention (sv_cfg srv)) (pr_store p) (pr_world p)
      = (r, s, w)" by (metis prod_cases3)
  have l: "later prepare_logs (pr_world p) w" using BindToken_later[OF b] by (rule later_mono) simp
  have "prep_moves p (p\<lparr>pr_store := s, pr_world := w\<rparr>)" "prep_moves p (p\<lparr>pr_store := s, pr_world := log_print LogBindToken w\<rparr>)"
    by (simp_all add: prep_moves_later l later_log)
  then show ?thesis using b by (auto simp: bind_message_def Let_def split: sum.split)
qed

lemma prep_moves_one: "prep_moves p (prepare_one srv k m p)"
proof -
  have "prep_moves p (bind_message srv k platform msg q)" if "call_gate k kind p = (ok, q)" for platform msg q kind ok
    using prep_moves_trans[OF prep_moves_gate[OF that] prep_moves_bind] .
  then show ?thesis
    using prep_moves_gate by (auto simp: prepare_one_def split: option.split prod.split bool.split)
qed

lemma prep_moves_prepare: "prep_moves p (prepare srv k ms p)"
  by (induction ms arbitrary: p) (auto intro: prep_moves_trans prep_moves_one)

section \<open>Refunds\<close>

definition unattempted_calls :: "dispatchItem list \<Rightarrow> Result list \<Rightarrow> nat" where
  "unattempted_calls items rs =
     length (filter (\<lambda>i. m_Kind (di_msg i) = KindCall \<and> r_Status (rs ! di_resultIdx i) = StatusNotAttempted) items)"

lemma refund_pow:
  "refundNotAttemptedCalls k items rs l = (Return (FormatInt k) ^^ unattempted_calls items rs) l"
proof (induction items arbitrary: l)
  case (Cons i items)
  then show ?case by (simp add: unattempted_calls_def funpow_swap1)
qed (simp add: unattempted_calls_def)

lemma batch_refunds:
  assumes sb: "send_batch cd sched k ms srv w = Some d" and clk: "clock_mono w" and lim: "lim_now B (sv_callLim srv) w"
  shows "\<exists>n rs. sd_resp d = writeJSON 200 (BodyResults rs) \<and>
     n = unattempted_calls (pr_items (prepare srv k ms (prep0 srv w))) rs \<and>
     lim_now B (sv_callLim (sd_server d)) (sd_world d) \<and> at_least (sv_callLim (sd_server d)) (FormatInt k) (min B n)"
proof -
  let ?p = "prepare srv k ms (prep0 srv w)"
  obtain rs c a b e f g where ds:
    "dispatch (SendConcurrency (sv_cfg srv)) (SendTimeoutSeconds (sv_cfg srv)) cd sched
       (pr_items ?p) (pr_results ?p) no_calls = Some (rs, c)"
    "sd_resp d = writeJSON 200 (BodyResults rs)"
    "sd_server d = srv\<lparr>sv_keys := pr_store ?p, sv_callLim := refundNotAttemptedCalls k (pr_items ?p) rs (pr_callLim ?p)\<rparr>"
    "sd_world d = log_print (LogSend k (length rs) a b e f g)
       ((pr_world ?p)\<lparr>w_log := w_log (pr_world ?p) @ c_log c\<rparr>)"
    using sb by (rule send_batch_parts) (rule that)
  have good: "lim_now B (pr_callLim ?p) (pr_world ?p)"
    using prep_moves_prepare[of "prep0 srv w" srv k ms] clk lim by (simp add: prep_moves_def)
  let ?n = "unattempted_calls (pr_items ?p) rs"
  have w: "w_clock (sd_world d) = w_clock (pr_world ?p)" "w_cpos (sd_world d) = w_cpos (pr_world ?p)"
    using ds(4) by (simp_all add: log_print_def)
  have "sv_callLim (sd_server d) = (Return (FormatInt k) ^^ ?n) (pr_callLim ?p)"
    using ds(3) by (simp add: refund_pow)
  then show ?thesis
    using lim.good_gives[of B _ "pr_callLim ?p" ?n "FormatInt k"] lim.gives_left[of B _ "pr_callLim ?p" ?n "FormatInt k"]
      good ds(2) w unfolding lim_now_def by auto
qed

section \<open>The handler\<close>

lemma handleSend_served:
  assumes "handleSend cd sched r srv w = Some d" "rs_status (sd_resp d) = 200"
  obtains k s1 w1 l w2 req where
    "bearerToken r \<noteq> []" "Verify (bearerToken r) (sv_keys srv) w = (Inr k, s1, w1)"
    "ask (FormatInt (ID k)) (sv_sendLim srv) w1 = (True, l, w2)"
    "decode_sendReq r = Decoded req" "int (length (Messages req)) \<le> MaxMessages (sv_cfg srv)"
    "send_batch cd sched (ID k) (Messages req) (srv\<lparr>sv_keys := s1, sv_sendLim := l\<rparr>) w2 = Some d"
  using assms unfolding handleSend_def Let_def
  by (auto simp: answer_with_def split: if_splits prod.splits sum.splits decoded.splits)

lemma handleSend_rejected:
  assumes "handleSend cd sched r srv w = Some d" "rs_status (sd_resp d) \<noteq> 200"
  shows "sd_calls d = [] \<and> tokens_tab (s_db (sv_keys (sd_server d))) = tokens_tab (s_db (sv_keys srv))
     \<and> sv_callLim (sd_server d) = sv_callLim srv \<and> (\<exists>msg. rs_body (sd_resp d) = BodyError msg)"
proof -
  have v: "tokens_tab (s_db s1) = tokens_tab (s_db (sv_keys srv))" if "Verify (bearerToken r) (sv_keys srv) w = (x, s1, w1)" for x s1 w1
    using Verify_effect[OF that] by (auto simp: sql_stamp_used_def)
  have n: "send_batch cd sched k ms srv2 w2 \<noteq> Some d" for k ms srv2 w2
    using assms(2) by (auto elim: send_batch_parts)
  show ?thesis
    using assms(1) v n unfolding handleSend_def Let_def
    by (auto simp: answer_with_def split: if_splits prod.splits sum.splits decoded.splits)
qed

lemma handleSend_calls:
  assumes "handleSend ctx_done sched r srv w = Some d" and "tables_ok (s_db (sv_keys srv))"
  shows "sd_calls d = [] \<or>
    (\<exists>k s1 w1 req rs js. Verify (bearerToken r) (sv_keys srv) w = (Inr k, s1, w1) \<and>
       decode_sendReq r = Decoded req \<and> sd_resp d = writeJSON 200 (BodyResults rs) \<and> distinct js \<and>
       list_all2 (\<lambda>j x. j < length rs \<and> push_of srv (ID k) (sv_keys (sd_server d)) (Messages req) (rs ! j) x)
         js (sd_calls d))"
proof (cases "rs_status (sd_resp d) = 200")
  case True
  obtain k s1 w1 l w2 and req :: sendReq where v: "Verify (bearerToken r) (sv_keys srv) w = (Inr k, s1, w1)"
    and dec: "decode_sendReq r = Decoded req"
    and sb: "send_batch ctx_done sched (ID k) (Messages req) (srv\<lparr>sv_keys := s1, sv_sendLim := l\<rparr>) w2 = Some d"
    by (rule handleSend_served[OF assms(1) True]) (rule that)
  have "tables_ok (s_db s1)" using tables_ok_steps[OF Verify_steps[OF v] assms(2)] .
  then have "\<exists>rs js. sd_resp d = writeJSON 200 (BodyResults rs) \<and> distinct js \<and>
       list_all2 (\<lambda>j x. j < length rs \<and> push_of srv (ID k) (sv_keys (sd_server d)) (Messages req) (rs ! j) x) js (sd_calls d)"
    using send_batch_calls[OF sb] by simp
  then show ?thesis using v dec by blast
next
  case False
  then show ?thesis using handleSend_rejected[OF assms(1)] by simp
qed

lemma dispatch_completes: "\<exists>sched out. CtxDone \<notin> set sched \<and> dispatch conc tmo cd sched items rs c = Some out"
proof (cases "items = []")
  case True
  then show ?thesis by (intro exI[of _ "[]"]) (simp add: dispatch_def)
next
  case False
  then show ?thesis using dispatch_extends[OF False, of "[]"] by auto
qed

lemma send_batch_completes: "\<exists>sched d. CtxDone \<notin> set sched \<and> send_batch cd sched k ms srv w = Some d"
proof -
  let ?p = "prepare srv k ms (prep0 srv w)"
  obtain sched out where "CtxDone \<notin> set sched" "dispatch (SendConcurrency (sv_cfg srv)) (SendTimeoutSeconds (sv_cfg srv)) cd sched
       (pr_items ?p) (pr_results ?p) no_calls = Some out"
    using dispatch_completes by blast
  then show ?thesis
    by (intro exI[of _ sched]) (auto simp: send_batch_def Let_def split: prod.split)
qed

lemma handleSend_total: "\<exists>sched d. CtxDone \<notin> set sched \<and> handleSend cd sched r srv w = Some d"
proof (cases "\<exists>sched d. handleSend cd [] r srv w = Some d")
  case True
  then show ?thesis by (metis empty_iff list.set(1))
next
  case False
  then obtain k s1 w1 l w2 req where h: "bearerToken r \<noteq> []" "Verify (bearerToken r) (sv_keys srv) w = (Inr k, s1, w1)"
    "ask (FormatInt (ID k)) (sv_sendLim srv) w1 = (True, l, w2)" "decode_sendReq r = Decoded req"
    "\<not> MaxMessages (sv_cfg srv) < int (length (Messages req))"
    by (auto simp: handleSend_def Let_def split: if_splits prod.splits sum.splits decoded.splits)
  obtain sched d where "CtxDone \<notin> set sched"
      "send_batch cd sched (ID k) (Messages req) (srv\<lparr>sv_keys := s1, sv_sendLim := l\<rparr>) w2 = Some d"
    using send_batch_completes by blast
  then show ?thesis using h by (intro exI[of _ sched] exI[of _ d]) (simp add: handleSend_def)
qed

section \<open>What the handler logs\<close>

definition send_logs :: "Server \<Rightarrow> log_line set" where
  "send_logs srv = {LogVerifyKey, LogBindToken, LogPruneTokens}
     \<union> {LogNotConfigured q b | q b. sv_ios srv = SUnconfigured q \<or> sv_android srv = SUnconfigured q}
     \<union> {LogSend k n a b e f g | k n a b e f g. a + b + e + f + g = n}"

lemma send_batch_logs:
  assumes sb: "send_batch cd sched k ms srv w = Some d" and ok: "tables_ok (s_db (sv_keys srv))"
  shows "later (send_logs srv) w (sd_world d)"
proof -
  let ?p = "prepare srv k ms (prep0 srv w)"
  obtain rs c a b e f g where ds:
    "dispatch (SendConcurrency (sv_cfg srv)) (SendTimeoutSeconds (sv_cfg srv)) cd sched
       (pr_items ?p) (pr_results ?p) no_calls = Some (rs, c)"
    "tally rs = (a, b, e, f, g)"
    "sd_world d = log_print (LogSend k (length rs) a b e f g)
       ((pr_world ?p)\<lparr>w_log := w_log (pr_world ?p) @ c_log c\<rparr>)"
    using sb by (rule send_batch_parts) (rule that)
  have inv: "prep_inv srv k ms ?p" using prep_inv_start[OF ok] .
  have it: "items_ok (pr_items ?p) (pr_results ?p)" using inv by (simp add: prep_inv_def)
  have sn: "di_sender i = sv_ios srv \<or> di_sender i = sv_android srv" if "i \<in> set (pr_items ?p)" for i
    using inv that unfolding prep_inv_def by (metis carries_def sender_for_def)
  have c: "set (c_log c) \<subseteq> send_logs srv"
  proof
    fix l assume "l \<in> set (c_log c)"
    then obtain i q x where i: "i \<in> set (pr_items ?p)" "di_sender i = SUnconfigured q" "l = LogNotConfigured q x"
      using dispatch_log_platforms[OF ds(1) _ it, of l] by (auto simp: no_calls_def)
    then show "l \<in> send_logs srv" using sn[OF i(1)] unfolding send_logs_def by auto
  qed
  have "later prepare_logs w (pr_world ?p)" using prep_moves_prepare[of "prep0 srv w" srv k ms] by (simp add: prep_moves_def)
  then have p: "later (send_logs srv) w (pr_world ?p)" by (rule later_mono) (simp add: send_logs_def)
  have "LogSend k (length rs) a b e f g \<in> send_logs srv" using tally_sum[OF ds(2)] by (simp add: send_logs_def)
  then show ?thesis using p c unfolding ds(3) later_def log_print_def by auto
qed

lemma handleSend_logs:
  assumes h: "handleSend cd sched r srv w = Some d" and ok: "tables_ok (s_db (sv_keys srv))"
  shows "later (send_logs srv) w (sd_world d)"
proof (cases "rs_status (sd_resp d) = 200")
  case True
  obtain k s1 w1 l w2 and req :: sendReq where v: "Verify (bearerToken r) (sv_keys srv) w = (Inr k, s1, w1)"
    "ask (FormatInt (ID k)) (sv_sendLim srv) w1 = (True, l, w2)"
    and sb: "send_batch cd sched (ID k) (Messages req) (srv\<lparr>sv_keys := s1, sv_sendLim := l\<rparr>) w2 = Some d"
    by (rule handleSend_served[OF h True]) (rule that)
  have "tables_ok (s_db s1)" using tables_ok_steps[OF Verify_steps[OF v(1)] ok] .
  then have "later (send_logs srv) w2 (sd_world d)" using send_batch_logs[OF sb] by (simp add: send_logs_def)
  moreover have "later (send_logs srv) w w2"
    using later_mono[OF later_trans[OF Verify_later[OF v(1)] ask_later[OF v(2)]]] by simp
  ultimately show ?thesis by (rule later_trans[rotated])
next
  case False
  have v: "later (send_logs srv) w w1" if "Verify (bearerToken r) (sv_keys srv) w = (x, s1, w1)" for x s1 w1
    using later_mono[OF Verify_later[OF that]] by simp
  have a: "later (send_logs srv) w1 w2" if "ask k l w1 = (ok, l2, w2)" for k l w1 ok l2 w2
    using later_mono[OF ask_later[OF that]] by simp
  have n: "send_batch cd sched k ms srv2 w2 \<noteq> Some d" for k ms srv2 w2
    using False by (auto elim: send_batch_parts)
  have lv: "LogVerifyKey \<in> send_logs srv" by (simp add: send_logs_def)
  show ?thesis
    using h n unfolding handleSend_def Let_def
    by (auto simp: answer_with_def intro: later_log[OF v lv] v later_trans[OF v a]
        split: if_splits prod.splits sum.splits decoded.splits)
qed

section \<open>An example\<close>

text \<open>A server with one key, whose APNs client answers; a request with that key for one iOS device.\<close>

definition ex_key_row :: key_row where
  "ex_key_row = \<lparr>k_id = 1, k_hash = hashKey ''key'', k_label = ''lab'', k_created = 0, k_used = None, k_revoked = None\<rparr>"

definition ex_keys :: Store where
  "ex_keys = \<lparr>s_db = empty_tables\<lparr>keys_tab := [ex_key_row], keys_seq := 1\<rparr>, s_lastPrune = w_clock quiet_world 0\<rparr>"

definition ex_cfg :: Config where
  "ex_cfg = Load (\<lambda>_. [])"

definition ex_apns :: ApnsSender where
  "ex_apns = \<lparr>as_bundleID = ''app'', as_production = True\<rparr>"

definition ex_server :: Server where
  "ex_server = \<lparr>sv_cfg = ex_cfg, sv_ios = SApns ex_apns, sv_android = SUnconfigured ''fcm'', sv_keys = ex_keys,
     sv_registerLim = New_Limiter (fdiv 5 60) 3 (w_clock quiet_world 0),
     sv_sendLim = New_Limiter 120 60 (w_clock quiet_world 0),
     sv_callLim = New_Limiter 10 5 (w_clock quiet_world 0)\<rparr>"

definition ex_delivered :: answer where
  "ex_delivered = ex_answer\<lparr>an_apns := (\<lambda>_. PushAnswered True (ReasonOther []))\<rparr>"

definition ex_run :: "pool_event list" where
  "ex_run = [Hand 0, FeedEnd, Finish 0 ex_delivered, Leave 0]"

definition ex_push :: provider_call where
  "ex_push = ApnsPush (apns_notification ex_apns \<lparr>m_Token = ''dev'', m_Kind = KindMessage, m_Payload = ''c''\<rparr>)"

lemma ex_keys_ok: "tables_ok (s_db (sv_keys ex_server))"
  by (simp add: tables_ok_def ex_server_def ex_keys_def ex_key_row_def empty_tables_def)

lemma ex_bearer: "bearerToken ex_request = ''key''"
proof -
  have "TrimSpace ''key'' = ''key''" by (rule TrimSpace_visible) (simp add: visible_def)
  then show ?thesis by (simp add: bearerToken_def bearer_prefix_def ex_request_def header_get_def EqualFold_def)
qed

lemma ex_cfg_sel:
  "MaxMessages ex_cfg = 500" "SendConcurrency ex_cfg = 8" "SendTimeoutSeconds ex_cfg = 20" "TokenRetentionDays ex_cfg = 90"
  by (simp_all add: ex_cfg_def Load_def getint_def)

lemma ex_verify:
  "Verify ''key'' ex_keys quiet_world =
     (Inr \<lparr>ID = 1, Label = ''lab'', CreatedAt = 0, LastUsedAt = Some 0, RevokedAt = None\<rparr>,
      ex_keys\<lparr>s_db := empty_tables\<lparr>keys_tab := [ex_key_row\<lparr>k_used := Some 0\<rparr>], keys_seq := 1\<rparr>\<rparr>,
      quiet_world\<lparr>w_cpos := 1, w_dpos := 2\<rparr>)"
  by (simp add: Verify_def ex_keys_def ex_key_row_def sql_select_key_def sql_stamp_used_def empty_tables_def
      quiet_world_def world_defs time_unix_def eval_nat_numeral)

lemma ask_fresh:
  "ask k (New_Limiter pm b t) w = (True, snd (Allow k (w_clock w (w_cpos w)) (New_Limiter pm b t)), w\<lparr>w_cpos := Suc (w_cpos w)\<rparr>)"
  by (simp add: ask_def Allow_def sweep_def evictIdle_def New_Limiter_def Let_def time_now_def)

lemmas send_eval = send_batch_def ex_batch_def ex_cfg_sel prepare_one_def maxPayloadBytes_def
  parsePlatform_def parseKind_def call_gate_def bind_message_def BindToken_def bind_tx_def store_eval ex_keys_def
  retention_def wrap64_def add_item_def add_result_def sender_for_def dispatch_def pool_start_def
  worker_count_def born_done_def worker_result_def WithRequestScope_def pool_quiet_def no_calls_def apns_sendOne_def
  ex_delivered_def ex_run_def

lemma ex_handled:
  "\<exists>d. handleSend False ex_run ex_request ex_server quiet_world = Some d \<and> sd_calls d = [ex_push] \<and>
     sd_resp d = writeJSON 200 (BodyResults [\<lparr>r_Token = ''dev'', r_Status = StatusDelivered\<rparr>])"
proof -
  let ?l = "snd (Allow (FormatInt 1) (w_clock quiet_world 1) (New_Limiter 120 60 (w_clock quiet_world 0)))"
  let ?srv = "ex_server\<lparr>sv_keys := ex_keys\<lparr>s_db := empty_tables\<lparr>keys_tab := [ex_key_row\<lparr>k_used := Some 0\<rparr>], keys_seq := 1\<rparr>\<rparr>,
    sv_sendLim := ?l\<rparr>"
  have "handleSend False ex_run ex_request ex_server quiet_world
      = send_batch False ex_run 1 ex_batch ?srv (quiet_world\<lparr>w_dpos := 2, w_cpos := 2\<rparr>)"
    by (simp add: handleSend_def ex_bearer ex_server_def ex_verify ask_fresh ex_decode ex_cfg_sel ex_batch_def numeral_2_eq_2)
  then show ?thesis by (simp add: ex_server_def ex_push_def send_eval)
qed

section \<open>Properties\<close>



text \<open>
  C17: a request that is served gets one result per message with a token, in the order of the
  messages and under their tokens, and none is left without a status.
\<close>

theorem send_one_result_per_token:
  assumes "handleSend ctx_done sched r srv w = Some d" and "rs_status (sd_resp d) = 200"
    and "tables_ok (s_db (sv_keys srv))"
  shows "\<exists>req rs. decode_sendReq r = Decoded req \<and> sd_resp d = writeJSON 200 (BodyResults rs) \<and>
     map r_Token rs = filter (\<lambda>t. t \<noteq> []) (map sm_Token (Messages req)) \<and>
     (\<forall>x \<in> set rs. r_Status x \<noteq> StatusUnset) \<and> int (length rs) \<le> MaxMessages (sv_cfg srv)"
proof -
  obtain k s1 w1 l w2 and req :: sendReq where v: "Verify (bearerToken r) (sv_keys srv) w = (Inr k, s1, w1)"
    and dec: "decode_sendReq r = Decoded req" "int (length (Messages req)) \<le> MaxMessages (sv_cfg srv)"
    and sb: "send_batch ctx_done sched (ID k) (Messages req) (srv\<lparr>sv_keys := s1, sv_sendLim := l\<rparr>) w2 = Some d"
    by (rule handleSend_served[OF assms(1,2)]) (rule that)
  have "tables_ok (s_db s1)" using tables_ok_steps[OF Verify_steps[OF v] assms(3)] .
  then obtain rs where rs: "sd_resp d = writeJSON 200 (BodyResults rs)" "map r_Token rs = toks (Messages req)"
      "\<forall>x \<in> set rs. r_Status x \<noteq> StatusUnset"
    using send_batch_results[OF sb] by auto
  have "length rs \<le> length (Messages req)"
    using rs(2) by (metis length_filter_le length_map toks_def)
  then show ?thesis using rs dec by (intro exI[of _ req] exI[of _ rs]) (simp add: toks_def)
qed

theorem send_one_result_per_token_witness:
  "\<exists>d rs. handleSend False ex_run ex_request ex_server quiet_world = Some d \<and>
     sd_resp d = writeJSON 200 (BodyResults rs) \<and> map r_Token rs = [''dev'']"
proof -
  obtain d where d: "handleSend False ex_run ex_request ex_server quiet_world = Some d" "rs_status (sd_resp d) = 200"
    using ex_handled by auto
  show ?thesis using send_one_result_per_token[OF d ex_keys_ok] d by (auto simp: ex_decode ex_batch_def)
qed

text \<open>
  C28: a send request that is not answered with 200 pushes nothing, binds no token and spends none
  of the key's call budget; its answer is an error and nothing else.
\<close>

theorem send_rejection_is_inert:
  assumes "handleSend ctx_done sched r srv w = Some d" and "rs_status (sd_resp d) \<noteq> 200"
  shows "sd_calls d = [] \<and> tokens_tab (s_db (sv_keys (sd_server d))) = tokens_tab (s_db (sv_keys srv)) \<and>
     sv_callLim (sd_server d) = sv_callLim srv \<and> (\<exists>msg. rs_body (sd_resp d) = BodyError msg)"
  using assms by (rule handleSend_rejected)

theorem send_rejection_is_inert_witness:
  "\<exists>d. handleSend False [] (ex_request\<lparr>rq_headers := []\<rparr>) ex_server quiet_world = Some d \<and>
     rs_status (sd_resp d) = 401 \<and> sd_calls d = []"
proof -
  have h: "handleSend False [] (ex_request\<lparr>rq_headers := []\<rparr>) ex_server quiet_world =
      Some (answer_with (writeErr 401 ''missing bearer key'') ex_server quiet_world)"
    by (simp add: handleSend_def bearerToken_def header_get_def bearer_prefix_def ex_request_def)
  show ?thesis using send_rejection_is_inert[OF h] h by (simp add: answer_with_def)
qed

text \<open>
  C19: when the deadline leaves calls of a batch unattempted, a retry of that many calls by the same
  key at any later time is admitted by the call budget, up to its burst, whatever other
  keys ask for in between.
\<close>

theorem send_refunds_unattempted_calls:
  assumes "send_batch ctx_done sched keyID ms srv w = Some d" and "clock_mono w" and "lim_now B (sv_callLim srv) w"
    and "sd_resp d = writeJSON 200 (BodyResults rs)"
    and "timely (t_mono (w_clock (sd_world d) (w_cpos (sd_world d)))) retries"
    and "length (filter (\<lambda>(k, _). k = FormatInt keyID) retries)
           \<le> min B (unattempted_calls (pr_items (prepare srv keyID ms (prep0 srv w))) rs)"
    and "i < length retries" and "fst (retries ! i) = FormatInt keyID"
  shows "fst (allows Allow retries (sv_callLim (sd_server d))) ! i"
proof -
  obtain rs' where rs': "sd_resp d = writeJSON 200 (BodyResults rs')"
      and good: "lim_now B (sv_callLim (sd_server d)) (sd_world d)"
      and left: "at_least (sv_callLim (sd_server d)) (FormatInt keyID)
        (min B (unattempted_calls (pr_items (prepare srv keyID ms (prep0 srv w))) rs'))"
    using batch_refunds[OF assms(1-3)] by blast
  have "rs' = rs" using rs' assms(4) by (simp add: writeJSON_def)
  then show ?thesis
    using lim.allows_entitled[OF good[unfolded lim_now_def] left assms(5) _ allows_zip[OF assms(7)] assms(8)] assms(6)
    by simp
qed

definition ex_calls :: "sendMessage list" where
  "ex_calls = [\<lparr>sm_Platform = ''ios'', sm_Token = ''dev'', sm_Kind = ''call'', sm_Payload = ''c''\<rparr>]"

lemma ex_call_unattempted:
  "\<exists>d rs. send_batch True [FeedBreak, Leave 0] 1 ex_calls ex_server quiet_world = Some d \<and>
     sd_resp d = writeJSON 200 (BodyResults rs) \<and>
     unattempted_calls (pr_items (prepare ex_server 1 ex_calls (prep0 ex_server quiet_world))) rs = 1"
  by (simp add: ex_calls_def ex_server_def ask_fresh unattempted_calls_def writeJSON_def send_eval)

theorem send_refunds_unattempted_calls_witness:
  "\<exists>d. send_batch True [FeedBreak, Leave 0] 1 ex_calls ex_server quiet_world = Some d \<and>
     fst (allows Allow [(FormatInt 1, w_clock (sd_world d) (w_cpos (sd_world d)))] (sv_callLim (sd_server d))) ! 0"
proof -
  obtain d rs where d: "send_batch True [FeedBreak, Leave 0] 1 ex_calls ex_server quiet_world = Some d"
     "sd_resp d = writeJSON 200 (BodyResults rs)"
     "unattempted_calls (pr_items (prepare ex_server 1 ex_calls (prep0 ex_server quiet_world))) rs = 1"
    using ex_call_unattempted by blast
  have l: "lim_now 5 (sv_callLim ex_server) quiet_world"
    using New_Limiter_good[of 10 5 "w_clock quiet_world 0"] by (simp add: lim_now_def ex_server_def quiet_world_def)
  have "fst (allows Allow [(FormatInt 1, w_clock (sd_world d) (w_cpos (sd_world d)))] (sv_callLim (sd_server d))) ! 0"
    by (rule send_refunds_unattempted_calls[OF d(1) clock_mono_quiet l d(2)]) (simp_all add: d(3))
  then show ?thesis using d(1) by blast
qed



text \<open>
  C38: the retention in days becomes a duration through two products of 64 bits. Up to 106751 days
  it is the days it says; 106752 days come out negative, which disables pruning, and
  213504 days come out as less than half an hour.
\<close>

theorem retention_overflow:
  "(\<forall>days. 0 \<le> days \<longrightarrow> days \<le> 106751 \<longrightarrow> retention (cfg\<lparr>TokenRetentionDays := days\<rparr>) = days * 24 * hour_ns) \<and>
   retention (cfg\<lparr>TokenRetentionDays := 106752\<rparr>) < 0 \<and>
   0 < retention (cfg\<lparr>TokenRetentionDays := 213504\<rparr>) \<and>
   retention (cfg\<lparr>TokenRetentionDays := 213504\<rparr>) < 30 * minute_ns"
proof -
  have "wrap64 (wrap64 (days * 24) * hour_ns) = days * 24 * hour_ns" if "0 \<le> days" "days \<le> 106751" for days
  proof -
    have "wrap64 (days * 24) = days * 24" using that by (intro wrap64_id) (simp add: in_int64_def min_int64_def max_int64_def)
    moreover have "wrap64 (days * 24 * hour_ns) = days * 24 * hour_ns"
      using that by (intro wrap64_id) (simp add: in_int64_def min_int64_def max_int64_def)
    ultimately show ?thesis by simp
  qed
  then show ?thesis by (simp add: retention_def wrap64_def)
qed

theorem retention_overflow_witness: "retention (ex_cfg\<lparr>TokenRetentionDays := 90\<rparr>) = 90 * 24 * hour_ns"
  using retention_overflow[of ex_cfg] by simp

end
