(* ===== verification/Api_Router.thy ===== *)
theory Api_Router
  imports Api_Send
begin

text \<open>
  \<open>internal/api/register.go\<close>, \<open>admin.go\<close> and the routing of \<open>server.go\<close>: registration,
  the admin handlers behind their token, and \<open>serve\<close>, one request through the router.

  Paths are lists of segments, as \<open>http.ServeMux\<close> sees a cleaned path; a request with an
  unclean path is answered with a redirect before any handler runs and is not modelled.
\<close>

definition maxLabelLen :: nat where "maxLabelLen = 256"

definition register_label :: "bytes \<Rightarrow> bytes" where
  "register_label url =
     (let lab = TrimSpace url in if maxLabelLen < length lab then take maxLabelLen lab else lab)"

definition handleRegister :: "Request \<Rightarrow> Server \<Rightarrow> world \<Rightarrow> served" where
  "handleRegister r srv w0 =
     (case ask (clientIP (sv_cfg srv) r) (sv_registerLim srv) w0 of
        (ok, l, w1) \<Rightarrow>
          let srv1 = srv\<lparr>sv_registerLim := l\<rparr> in
          if \<not> ok
          then answer_with (writeErr 429 ''too many registrations from this address, try again later'') srv1 w1
          else
            (let go = (\<lambda>req.
               let lab = register_label (PublicURL req) in
               case Issue lab (MaxRegistrations (sv_cfg srv)) (sv_keys srv1) w1 of
                 (Inl e, s, w2) \<Rightarrow>
                   (let srv2 = srv1\<lparr>sv_keys := s\<rparr> in
                    if e = ErrRegistrationCeiling
                    then answer_with (writeErr 403 ''relay has reached its maximum number of registrations'') srv2 w2
                    else answer_with (writeErr 500 ''could not issue key'') srv2 (log_print LogIssueKey w2))
               | (Inr key, s, w2) \<Rightarrow>
                   answer_with (writeJSON 200 (BodyKey key)) (srv1\<lparr>sv_keys := s\<rparr>) (log_print (LogIssued lab) w2))
             in case decode_registerReq r of
                  BodyInvalid \<Rightarrow> answer_with (writeErr 400 ''invalid body'') srv1 w1
                | BodyEOF \<Rightarrow> go \<lparr>PublicURL = []\<rparr>
                | Decoded req \<Rightarrow> go req))"

definition requireAdmin :: "(Request \<Rightarrow> Server \<Rightarrow> world \<Rightarrow> served) \<Rightarrow> Request \<Rightarrow> Server \<Rightarrow> world \<Rightarrow> served" where
  "requireAdmin handler r srv w =
     (let want = AdminToken (sv_cfg srv); got = bearerToken r in
      if length got = length want \<and> got = want then handler r srv w
      else answer_with (writeErr 401 ''unauthorized'') srv w)"

definition handleAdminListKeys :: "Request \<Rightarrow> Server \<Rightarrow> world \<Rightarrow> served" where
  "handleAdminListKeys r srv w0 =
     (case List_keys (sv_keys srv) w0 of
        (Inl _, w1) \<Rightarrow> answer_with (writeErr 500 ''server error'') srv (log_print LogListKeys w1)
      | (Inr ks, w1) \<Rightarrow> answer_with (writeJSON 200 (BodyKeys ks)) srv w1)"

definition handleAdminRevokeKey :: "bytes \<Rightarrow> Request \<Rightarrow> Server \<Rightarrow> world \<Rightarrow> served" where
  "handleAdminRevokeKey path_id r srv w0 =
     (case ParseInt path_id of
        None \<Rightarrow> answer_with (writeErr 400 ''invalid id'') srv w0
      | Some i \<Rightarrow>
          (case Revoke i (sv_keys srv) w0 of
             (None, s, w1) \<Rightarrow> answer_with (writeJSON 204 BodyNone) (srv\<lparr>sv_keys := s\<rparr>) w1
           | (Some e, s, w1) \<Rightarrow>
               if e = ErrNotFound then answer_with (writeErr 404 ''no such key'') (srv\<lparr>sv_keys := s\<rparr>) w1
               else answer_with (writeErr 500 ''server error'') (srv\<lparr>sv_keys := s\<rparr>) (log_print LogRevokeKey w1)))"

definition handleHealth :: "Request \<Rightarrow> Server \<Rightarrow> world \<Rightarrow> served" where
  "handleHealth r srv w = answer_with (writeJSON 200 (BodyStatus ''ok'')) srv w"

text \<open>A handler returns or panics; \<open>recoverer\<close> answers a panic.\<close>

datatype outcome = Returned served | Panicked Server world

fun recoverer :: "outcome \<Rightarrow> served" where
  "recoverer (Returned d) = d"
| "recoverer (Panicked srv w) = answer_with (writeErr 500 ''server error'') srv (log_print LogRecovered w)"

datatype route = RHealth | RRegister | RSend | RListKeys | RRevoke bytes | RMethodNotAllowed | RNotFound

text \<open>A pattern with method \<open>GET\<close> also matches \<open>HEAD\<close>.\<close>

definition on_method :: "bytes \<Rightarrow> bytes \<Rightarrow> route \<Rightarrow> route" where
  "on_method want method rt =
     (if method = want \<or> want = ''GET'' \<and> method = ''HEAD'' then rt else RMethodNotAllowed)"

definition route_of :: "Config \<Rightarrow> bytes \<Rightarrow> bytes list \<Rightarrow> route" where
  "route_of cfg method path =
     (if path = [''healthz''] then on_method ''GET'' method RHealth
      else if path = [''v1'', ''register''] then on_method ''POST'' method RRegister
      else if path = [''v1'', ''send''] then on_method ''POST'' method RSend
      else if AdminToken cfg \<noteq> [] \<and> path = [''admin'', ''keys''] then on_method ''GET'' method RListKeys
      else if AdminToken cfg \<noteq> [] \<and> length path = 4 \<and> path ! 0 = ''admin'' \<and> path ! 1 = ''keys'' \<and> path ! 3 = ''revoke''
      then on_method ''POST'' method (RRevoke (path ! 2))
      else RNotFound)"

definition serve :: "bool \<Rightarrow> pool_event list \<Rightarrow> Request \<Rightarrow> Server \<Rightarrow> world
    \<Rightarrow> served option" where
  "serve ctx_done sched r srv w =
     map_option (\<lambda>d. recoverer (Returned d))
       (case route_of (sv_cfg srv) (rq_method r) (rq_path r) of
          RHealth \<Rightarrow> Some (handleHealth r srv w)
        | RRegister \<Rightarrow> Some (handleRegister r srv w)
        | RSend \<Rightarrow> handleSend ctx_done sched r srv w
        | RListKeys \<Rightarrow> Some (requireAdmin handleAdminListKeys r srv w)
        | RRevoke i \<Rightarrow> Some (requireAdmin (handleAdminRevokeKey i) r srv w)
        | RMethodNotAllowed \<Rightarrow> Some (answer_with \<lparr>rs_status = 405, rs_body = BodyText ''Method Not Allowed''\<rparr> srv w)
        | RNotFound \<Rightarrow> Some (answer_with \<lparr>rs_status = 404, rs_body = BodyText ''404 page not found''\<rparr> srv w))"

section \<open>Registration\<close>

lemma register_label_length: "length (register_label url) \<le> maxLabelLen"
  by (simp add: register_label_def Let_def)

lemma handleRegister_ok:
  assumes "handleRegister r srv w = d" "rs_status (sd_resp d) = 200"
  obtains l w1 lab key s w2 where
    "ask (clientIP (sv_cfg srv) r) (sv_registerLim srv) w = (True, l, w1)"
    "Issue lab (MaxRegistrations (sv_cfg srv)) (sv_keys srv) w1 = (Inr key, s, w2)"
    "length lab \<le> maxLabelLen"
    "d = answer_with (writeJSON 200 (BodyKey key)) (srv\<lparr>sv_registerLim := l, sv_keys := s\<rparr>) (log_print (LogIssued lab) w2)"
  using assms unfolding handleRegister_def Let_def
  by (auto simp: answer_with_def register_label_length split: if_splits prod.splits sum.splits decoded.splits)

lemma handleRegister_rejected:
  assumes "handleRegister r srv w = d" "rs_status (sd_resp d) \<in> {429, 400, 403}"
  shows "sv_keys (sd_server d) = sv_keys srv"
proof -
  have c: "s = s0" if "Issue lab mx s0 w1 = (Inl ErrRegistrationCeiling, s, w2)" for lab mx s0 w1 s w2
    using that by (auto simp: Issue_def Let_def write_if_def split: prod.splits option.splits db_out.splits if_splits)
  show ?thesis
    using assms c unfolding handleRegister_def Let_def
    by (auto simp: answer_with_def split: if_splits prod.splits sum.splits decoded.splits)
qed

section \<open>Every request is a run of store steps\<close>

abbreviation steps_of :: "Server \<Rightarrow> Store \<Rightarrow> Store \<Rightarrow> bool" where
  "steps_of srv \<equiv> (store_step (MaxRegistrations (sv_cfg srv)))\<^sup>*\<^sup>*"

lemma prepare_one_steps: "(store_step mx)\<^sup>*\<^sup>* (pr_store p) (pr_store (prepare_one srv k m p))"
  by (auto simp: prepare_one_def call_gate_def bind_message_def add_result_def add_item_def Let_def
      dest: BindToken_steps[of _ _ _ _ _ _ _ _ _ mx] split: option.splits prod.splits bool.splits sum.splits if_splits)

lemma prepare_steps: "(store_step mx)\<^sup>*\<^sup>* (pr_store p) (pr_store (prepare srv k ms p))"
proof (induction ms arbitrary: p)
  case (Cons m ms)
  show ?case using rtranclp_trans[OF prepare_one_steps Cons.IH] by simp
qed simp

lemma send_batch_steps:
  "send_batch cd sched k ms srv w = Some d \<Longrightarrow> (store_step mx)\<^sup>*\<^sup>* (sv_keys srv) (sv_keys (sd_server d)) \<and> sv_cfg (sd_server d) = sv_cfg srv"
  using prepare_steps[of mx "prep0 srv w" srv k ms] by (auto elim!: send_batch_parts)

lemma handleSend_steps:
  assumes "handleSend cd sched r srv w = Some d"
  shows "(store_step mx)\<^sup>*\<^sup>* (sv_keys srv) (sv_keys (sd_server d)) \<and> sv_cfg (sd_server d) = sv_cfg srv"
proof -
  have v: "(store_step mx)\<^sup>*\<^sup>* (sv_keys srv) s1" if "Verify (bearerToken r) (sv_keys srv) w = (x, s1, w1)" for x s1 w1
    using Verify_steps[OF that] .
  have b: "(store_step mx)\<^sup>*\<^sup>* s1 (sv_keys (sd_server d)) \<and> sv_cfg (sd_server d) = sv_cfg srv"
    if "send_batch cd sched k ms (srv\<lparr>sv_keys := s1, sv_sendLim := l\<rparr>) w2 = Some d" for k ms s1 l w2
    using send_batch_steps[OF that, of mx] by simp
  show ?thesis
    using assms v b unfolding handleSend_def Let_def
    by (auto simp: answer_with_def intro: rtranclp_trans split: if_splits prod.splits sum.splits decoded.splits)
qed

lemma handleRegister_steps:
  "(store_step (MaxRegistrations (sv_cfg srv)))\<^sup>*\<^sup>* (sv_keys srv) (sv_keys (sd_server (handleRegister r srv w)))
   \<and> sv_cfg (sd_server (handleRegister r srv w)) = sv_cfg srv"
  unfolding handleRegister_def Let_def
  by (auto simp: answer_with_def intro: r_into_rtranclp step_issue split: prod.split sum.split decoded.split)

lemma handleAdminRevokeKey_steps:
  "(store_step mx)\<^sup>*\<^sup>* (sv_keys srv) (sv_keys (sd_server (handleAdminRevokeKey i r srv w)))
   \<and> sv_cfg (sd_server (handleAdminRevokeKey i r srv w)) = sv_cfg srv"
  unfolding handleAdminRevokeKey_def Let_def
  by (auto simp: answer_with_def intro: r_into_rtranclp step_revoke split: prod.split option.split)

lemma serve_steps:
  assumes "serve cd sched r srv w = Some d"
  shows "steps_of srv (sv_keys srv) (sv_keys (sd_server d))" and "sv_cfg (sd_server d) = sv_cfg srv"
  using assms handleRegister_steps[of srv r w] handleAdminRevokeKey_steps[of "MaxRegistrations (sv_cfg srv)" srv _ r w]
    handleSend_steps[of cd sched r srv w d "MaxRegistrations (sv_cfg srv)"]
  by (auto simp: serve_def requireAdmin_def handleHealth_def handleAdminListKeys_def answer_with_def Let_def
      split: route.splits if_splits prod.splits sum.splits)

lemma answer_with_sel [simp]:
  "sd_resp (answer_with resp srv w) = resp" "sd_server (answer_with resp srv w) = srv"
  "sd_calls (answer_with resp srv w) = []" "sd_world (answer_with resp srv w) = w"
  by (simp_all add: answer_with_def)

text \<open>No handler but \<open>handleSend\<close> hands anything to a provider.\<close>

lemma other_calls [simp]:
  "sd_calls (handleRegister r srv w) = []" "sd_calls (handleAdminListKeys r srv w) = []"
  "sd_calls (handleAdminRevokeKey i r srv w) = []" "sd_calls (handleHealth r srv w) = []"
  by (simp_all add: handleRegister_def handleAdminListKeys_def handleAdminRevokeKey_def handleHealth_def Let_def
      split: prod.split sum.split option.split decoded.split)

lemma serve_calls_route:
  assumes "serve ctx_done sched r srv w = Some d" and "sd_calls d \<noteq> []"
  shows "route_of (sv_cfg srv) (rq_method r) (rq_path r) = RSend \<and> handleSend ctx_done sched r srv w = Some d"
  using assms by (auto simp: serve_def requireAdmin_def Let_def split: route.splits if_splits)

section \<open>Properties\<close>

text \<open>
  C29: a registration answered with 200 has added exactly one key: the store holds the hash of the
  key it returned under a fresh id, with a label of at most 256 bytes, and the ceiling was
  not yet reached. The answers 429, 400 and 403 leave the store as it was.
\<close>

theorem register_mints_one_key:
  "(rs_status (sd_resp (handleRegister r srv w)) = 200 \<longrightarrow>
     (\<exists>key lab t. rs_body (sd_resp (handleRegister r srv w)) = BodyKey key \<and> length lab \<le> 256 \<and>
        keys_tab (s_db (sv_keys (sd_server (handleRegister r srv w)))) = keys_tab (s_db (sv_keys srv)) @
          [\<lparr>k_id = keys_seq (s_db (sv_keys srv)) + 1, k_hash = hashKey key, k_label = lab, k_created = t,
            k_used = None, k_revoked = None\<rparr>] \<and>
        (0 < MaxRegistrations (sv_cfg srv) \<longrightarrow> sql_count_keys (s_db (sv_keys srv)) < MaxRegistrations (sv_cfg srv)))) \<and>
   (rs_status (sd_resp (handleRegister r srv w)) \<in> {429, 400, 403} \<longrightarrow>
      sv_keys (sd_server (handleRegister r srv w)) = sv_keys srv)"
proof (intro conjI impI)
  assume "rs_status (sd_resp (handleRegister r srv w)) = 200"
  then obtain l w1 lab key s w2 where iss: "Issue lab (MaxRegistrations (sv_cfg srv)) (sv_keys srv) w1 = (Inr key, s, w2)"
      "length lab \<le> maxLabelLen"
      "handleRegister r srv w = answer_with (writeJSON 200 (BodyKey key)) (srv\<lparr>sv_registerLim := l, sv_keys := s\<rparr>) (log_print (LogIssued lab) w2)"
    by (rule handleRegister_ok[OF refl])
  from iss(1) obtain t where "sql_insert_key (hashKey key) lab t (s_db (sv_keys srv)) = Some (s_db s)"
      "0 < MaxRegistrations (sv_cfg srv) \<longrightarrow> sql_count_keys (s_db (sv_keys srv)) < MaxRegistrations (sv_cfg srv)"
    by (rule Issue_ok)
  with insert_key_row show "\<exists>key lab t. rs_body (sd_resp (handleRegister r srv w)) = BodyKey key \<and> length lab \<le> 256 \<and>
        keys_tab (s_db (sv_keys (sd_server (handleRegister r srv w)))) = keys_tab (s_db (sv_keys srv)) @
          [\<lparr>k_id = keys_seq (s_db (sv_keys srv)) + 1, k_hash = hashKey key, k_label = lab, k_created = t,
            k_used = None, k_revoked = None\<rparr>] \<and>
        (0 < MaxRegistrations (sv_cfg srv) \<longrightarrow> sql_count_keys (s_db (sv_keys srv)) < MaxRegistrations (sv_cfg srv))"
    using iss(2,3) by (simp add: answer_with_def maxLabelLen_def)
qed (rule handleRegister_rejected[OF refl])

definition empty_server :: Server where
  "empty_server = ex_server\<lparr>sv_keys := ex_store\<rparr>"

definition ex_reg :: Request where
  "ex_reg = ex_request\<lparr>rq_body := []\<rparr>"

lemma ex_reg_decode: "decode_registerReq ex_reg = BodyEOF"
proof -
  have "decodeJSON registerReq_schema (4 * 1024) ex_reg = BodyEOF"
    by (simp add: decodeJSON_EOF ex_reg_def ex_request_def)
  then show ?thesis by (simp add: decode_registerReq_def)
qed

lemma ex_register: "rs_status (sd_resp (handleRegister ex_reg empty_server quiet_world)) = 200"
proof -
  have "TrimSpace [] = []" by (rule TrimSpace_visible) simp
  then show ?thesis
    by (simp add: handleRegister_def empty_server_def ex_server_def ask_fresh ex_reg_decode register_label_def
        Issue_def store_eval answer_with_def ex_cfg_def Load_def getint_def)
qed

theorem register_mints_one_key_witness:
  "\<exists>key. rs_body (sd_resp (handleRegister ex_reg empty_server quiet_world)) = BodyKey key \<and>
     map k_hash (keys_tab (s_db (sv_keys (sd_server (handleRegister ex_reg empty_server quiet_world))))) = [hashKey key]"
  using register_mints_one_key[of ex_reg empty_server quiet_world] ex_register
  by (auto simp: empty_server_def ex_store_def empty_tables_def)

end
