(* ===== verification/Payload_Blind.thy ===== *)
theory Payload_Blind
  imports Api_Router
begin

text \<open>
  The relay never inspects a payload: of a message's payload only its length decides
  anything. Two batches that differ in nothing but payloads, with the same verdict of the
  length check on each, lead to the same response, the same store, limiters and log; only
  what is forwarded to the providers differs. The proof relates the two runs step by step.
\<close>

definition repay :: "(bytes \<Rightarrow> bytes) \<Rightarrow> sendMessage \<Rightarrow> sendMessage" where
  "repay f m = m\<lparr>sm_Payload := f (sm_Payload m)\<rparr>"

definition repay_item :: "(bytes \<Rightarrow> bytes) \<Rightarrow> dispatchItem \<Rightarrow> dispatchItem" where
  "repay_item f i = i\<lparr>di_msg := (di_msg i)\<lparr>m_Payload := f (m_Payload (di_msg i))\<rparr>\<rparr>"

definition same_size :: "(bytes \<Rightarrow> bytes) \<Rightarrow> bool" where
  "same_size f \<longleftrightarrow> (\<forall>x. maxPayloadBytes < length (f x) \<longleftrightarrow> maxPayloadBytes < length x)"

definition repay_prep :: "(bytes \<Rightarrow> bytes) \<Rightarrow> prep \<Rightarrow> prep" where
  "repay_prep f p = p\<lparr>pr_items := map (repay_item f) (pr_items p)\<rparr>"

lemma repay_item_sel [simp]:
  "di_resultIdx (repay_item f i) = di_resultIdx i" "di_sender (repay_item f i) = di_sender i"
  "m_Token (di_msg (repay_item f i)) = m_Token (di_msg i)" "m_Kind (di_msg (repay_item f i)) = m_Kind (di_msg i)"
  by (simp_all add: repay_item_def)

lemma repay_prep_sel [simp]:
  "pr_results (repay_prep f p) = pr_results p" "pr_store (repay_prep f p) = pr_store p"
  "pr_callLim (repay_prep f p) = pr_callLim p" "pr_world (repay_prep f p) = pr_world p"
  "pr_items (repay_prep f p) = map (repay_item f) (pr_items p)"
  by (simp_all add: repay_prep_def)

lemma repay_add [simp]: "add_result t st (repay_prep f p) = repay_prep f (add_result t st p)"
  by (simp add: add_result_def repay_prep_def)

lemma repay_bind:
  "bind_message srv k platform (m\<lparr>m_Payload := f (m_Payload m)\<rparr>) (repay_prep f p) = repay_prep f (bind_message srv k platform m p)"
  by (auto simp: bind_message_def add_item_def add_result_def repay_prep_def repay_item_def Let_def
      split: prod.split sum.split)

lemma repay_gate:
  "call_gate k kind (repay_prep f p) = (case call_gate k kind p of (ok, q) \<Rightarrow> (ok, repay_prep f q))"
  by (auto simp: call_gate_def repay_prep_def split: prod.split)

lemma repay_one:
  assumes "same_size f"
  shows "prepare_one srv k (repay f m) (repay_prep f p) = repay_prep f (prepare_one srv k m p)"
proof -
  have b: "bind_message srv k pf \<lparr>m_Token = t, m_Kind = kd, m_Payload = f x\<rparr> (repay_prep f q)
      = repay_prep f (bind_message srv k pf \<lparr>m_Token = t, m_Kind = kd, m_Payload = x\<rparr> q)" for pf t kd x q
    using repay_bind[where m = "\<lparr>m_Token = t, m_Kind = kd, m_Payload = x\<rparr>"] by simp
  have s: "maxPayloadBytes < length (f x) \<longleftrightarrow> maxPayloadBytes < length x" for x
    using assms by (simp add: same_size_def)
  show ?thesis
    by (auto simp: prepare_one_def repay_def repay_gate b s split: option.split prod.split bool.split)
qed

lemma repay_prepare:
  "same_size f \<Longrightarrow> prepare srv k (map (repay f) ms) (repay_prep f p) = repay_prep f (prepare srv k ms p)"
  by (induction ms arbitrary: p) (simp_all add: repay_one)

section \<open>The pool\<close>

definition forget :: "sctx \<Rightarrow> sctx" where
  "forget c = c\<lparr>c_calls := []\<rparr>"

lemma forget_eqD: "forget c = forget c' \<Longrightarrow> c_scope c = c_scope c' \<and> c_log c = c_log c'"
  by (simp add: forget_def sctx.simps) (metis sctx.select_convs(1,2) sctx.surjective sctx.update_convs(3))

lemma forget_eqI: "c_scope c = c_scope c' \<Longrightarrow> c_log c = c_log c' \<Longrightarrow> forget c = forget c'"
  by (simp add: forget_def sctx.equality)

lemma Send_blind:
  assumes "forget c = forget c'"
  shows "fst (Send s an [m\<lparr>m_Payload := x\<rparr>] c') = fst (Send s an [m] c)
    \<and> forget (snd (Send s an [m\<lparr>m_Payload := x\<rparr>] c')) = forget (snd (Send s an [m] c))"
  using forget_eqD[OF assms]
  by (cases s) (auto intro!: forget_eqI simp: apns_sendOne_def fcm_Send_def fcm_sendOne_def unconfigured_Send_def
      logRejection_def split: option.splits)

lemma worker_blind:
  assumes "forget c = forget c'"
  shows "fst (worker_result (repay_item f i) an c') = fst (worker_result i an c)
    \<and> forget (snd (worker_result (repay_item f i) an c')) = forget (snd (worker_result i an c))"
  using Send_blind[OF assms, where m = "di_msg i" and x = "f (m_Payload (di_msg i))"]
  by (simp add: worker_result_def repay_item_def case_prod_unfold)

definition pool_sim :: "pool \<Rightarrow> pool \<Rightarrow> bool" where
  "pool_sim p p' \<longleftrightarrow> forget (po_ctx p) = forget (po_ctx p') \<and> po_next p = po_next p' \<and>
     po_closed p = po_closed p' \<and> po_done p = po_done p' \<and> po_workers p = po_workers p' \<and>
     po_results p = po_results p'"

lemma pool_sim_step:
  assumes sim: "pool_sim p p'" and st: "pool_step items e p = Some q"
    and idx: "\<forall>i. Sending i \<in> set (po_workers p) \<longrightarrow> i < length items"
  shows "\<exists>q'. pool_step (map (repay_item f) items) e p' = Some q' \<and> pool_sim q q'"
proof (cases e)
    case (Finish w an)
    then obtain i r c2 where h: "w < length (po_workers p)" "po_workers p ! w = Sending i"
      and r: "worker_result (items ! i) an (po_ctx p) = (r, c2)"
      and q: "q = p\<lparr>po_workers := (po_workers p)[w := Ready],
          po_results := (po_results p)[di_resultIdx (items ! i) := r], po_ctx := c2\<rparr>"
      using st by (auto split: if_splits worker.splits prod.splits)
    have i: "i < length items" using idx h(2) nth_mem[OF h(1)] by auto
    have "forget (po_ctx p) = forget (po_ctx p')" using sim by (simp add: pool_sim_def)
    then obtain c3 where c3: "worker_result (repay_item f (items ! i)) an (po_ctx p') = (r, c3)" "forget c2 = forget c3"
      using worker_blind[where f = f and i = "items ! i" and an = an] r by (metis fst_conv prod.collapse snd_conv)
    then show ?thesis using Finish h i sim q by (auto simp: pool_sim_def)
qed (use st sim in \<open>auto simp: pool_sim_def split: if_splits\<close>)

lemma pool_sim_run:
  assumes "items_ok items rs" "pool_inv items rs p" "pool_sim p p'" "pool_run items es p = Some q"
  shows "\<exists>q'. pool_run (map (repay_item f) items) es p' = Some q' \<and> pool_sim q q'"
  using assms(2-)
proof (induction es arbitrary: p p')
  case (Cons e es)
  then obtain p1 where p1: "pool_step items e p = Some p1" "pool_run items es p1 = Some q" by (auto split: option.splits)
  have "\<forall>i. Sending i \<in> set (po_workers p) \<longrightarrow> i < length items"
    using Cons.prems(1) unfolding pool_inv_def by (meson order_less_le_trans)
  then obtain p1' where s: "pool_step (map (repay_item f) items) e p' = Some p1'" "pool_sim p1 p1'"
    using pool_sim_step[OF Cons.prems(2) p1(1)] by blast
  then show ?case using Cons.IH[OF pool_inv_step[OF assms(1) Cons.prems(1) p1(1)] s(2) p1(2)] by simp
qed simp

lemma mark_blind: "mark_not_attempted (map (repay_item f) items) rs = mark_not_attempted items rs"
  by (induction items rs rule: mark_not_attempted.induct) auto

lemma dispatch_blind:
  assumes "items_ok items rs" "dispatch conc tmo cd sched items rs c = Some (rs', c')"
  shows "\<exists>c''. dispatch conc tmo cd sched (map (repay_item f) items) rs c = Some (rs', c'') \<and> forget c' = forget c''"
proof (cases "items = []")
  case True
  then show ?thesis using assms(2) by (simp add: dispatch_def)
next
  case False
  then obtain p where p: "pool_run items sched (pool_start conc tmo cd items rs c) = Some p" "pool_quiet p"
    "rs' = mark_not_attempted items (po_results p)" "c' = po_ctx p"
    using dispatch_pool[OF assms(2)] by metis
  have "pool_sim (pool_start conc tmo cd items rs c) (pool_start conc tmo cd (map (repay_item f) items) rs c)"
    by (simp add: pool_sim_def pool_start_def)
  then obtain q where q: "pool_run (map (repay_item f) items) sched (pool_start conc tmo cd (map (repay_item f) items) rs c) = Some q"
      "pool_sim p q"
    using pool_sim_run[OF assms(1) pool_inv_start _ p(1)] by blast
  then show ?thesis
    using False p by (auto simp: dispatch_def mark_blind pool_sim_def pool_quiet_def)
qed

section \<open>The batch\<close>

lemma refund_blind: "refundNotAttemptedCalls k (map (repay_item f) items) rs l = refundNotAttemptedCalls k items rs l"
  by (induction items arbitrary: l) auto

lemma send_batch_blind:
  assumes "same_size f" "tables_ok (s_db (sv_keys srv))" "send_batch cd sched k ms srv w = Some d"
  shows "\<exists>d'. send_batch cd sched k (map (repay f) ms) srv w = Some d' \<and>
     sd_resp d' = sd_resp d \<and> sd_server d' = sd_server d \<and> sd_world d' = sd_world d"
proof -
  let ?p = "prepare srv k ms (prep0 srv w)"
  have it: "items_ok (pr_items ?p) (pr_results ?p)" using prep_inv_start[OF assms(2)] by (simp add: prep_inv_def)
  have start: "repay_prep f (prep0 srv w) = prep0 srv w" by (simp add: repay_prep_def)
  have pre: "prepare srv k (map (repay f) ms) (prep0 srv w) = repay_prep f ?p"
    using repay_prepare[OF assms(1), of srv k ms "prep0 srv w"] start by simp
  obtain rs c where ds: "dispatch (SendConcurrency (sv_cfg srv)) (SendTimeoutSeconds (sv_cfg srv)) cd sched
       (pr_items ?p) (pr_results ?p) no_calls = Some (rs, c)"
    using assms(3) by (rule send_batch_parts) (rule that)
  obtain c2 where "dispatch (SendConcurrency (sv_cfg srv)) (SendTimeoutSeconds (sv_cfg srv)) cd sched
       (map (repay_item f) (pr_items ?p)) (pr_results ?p) no_calls = Some (rs, c2)" "c_log c2 = c_log c"
    using dispatch_blind[OF it ds] forget_eqD by metis
  then show ?thesis
    using assms(3) ds by (auto simp: send_batch_def pre Let_def refund_blind split: prod.splits)
qed

section \<open>Properties\<close>

text \<open>
  C11: replace every payload of a batch by any other, as long as each still passes or fails the length
  check as before: with the same answers of the providers and the same schedule the response,
  the store, the limiters, the clock and the log are the same. The relay reads nothing of a
  payload but its length.
\<close>

theorem payload_never_inspected:
  assumes "\<And>x. maxPayloadBytes < length (f x) \<longleftrightarrow> maxPayloadBytes < length x"
    and "tables_ok (s_db (sv_keys srv))" and "send_batch ctx_done sched keyID ms srv w = Some d"
  shows "\<exists>d'. send_batch ctx_done sched keyID (map (repay f) ms) srv w = Some d' \<and>
     sd_resp d' = sd_resp d \<and> sd_server d' = sd_server d \<and> sd_world d' = sd_world d"
  using assms(1) by (intro send_batch_blind[OF _ assms(2,3)]) (simp add: same_size_def)

theorem payload_never_inspected_witness:
  "\<exists>sched d d'. send_batch False sched 1 ex_batch ex_server quiet_world = Some d \<and>
     send_batch False sched 1 (map (repay rev) ex_batch) ex_server quiet_world = Some d' \<and> sd_resp d' = sd_resp d"
proof -
  obtain sched d where d: "send_batch False sched 1 ex_batch ex_server quiet_world = Some d"
    using send_batch_completes by blast
  show ?thesis using payload_never_inspected[OF _ ex_keys_ok d, of rev] d by auto
qed

end
