(* ===== verification/Api_Text.thy ===== *)
theory Api_Text
  imports Api_Router
begin

text \<open>
  Responses as text. \<open>response_json\<close> is the value \<open>writeJSON\<close> encodes, \<open>response_bytes\<close> what
  goes on the wire: the text and the newline \<open>Encoder.Encode\<close> adds. The key listing prints
  times in the local zone of the process: how a second since the epoch is printed there is
  the argument \<open>zone\<close>, \<open>None\<close> for a year that \<open>time.Time.MarshalJSON\<close> refuses, which leaves
  the body empty.
\<close>

definition error_json :: "bytes \<Rightarrow> json" where
  "error_json msg = JObj [(''error'', JStr msg)]"

definition Result_json :: "Result \<Rightarrow> json" where
  "Result_json r = JObj [(''token'', JStr (r_Token r)), (''status'', JStr (status_str (r_Status r)))]"

definition sendResp_json :: "Result list \<Rightarrow> json" where
  "sendResp_json rs = JObj [(''results'', JArr (map Result_json rs))]"

definition registerResp_json :: "bytes \<Rightarrow> json" where
  "registerResp_json key = JObj [(''key'', JStr key)]"

definition health_json :: "bytes \<Rightarrow> json" where
  "health_json st = JObj [(''status'', JStr st)]"

text \<open>An optional time is left out when it is nil.\<close>

definition time_member :: "(int \<Rightarrow> bytes option) \<Rightarrow> bytes \<Rightarrow> int option \<Rightarrow> (bytes \<times> json) list option" where
  "time_member zone name t = (case t of
      None \<Rightarrow> Some []
    | Some s \<Rightarrow> map_option (\<lambda>text. [(name, JStr text)]) (zone s))"

definition Key_json :: "(int \<Rightarrow> bytes option) \<Rightarrow> Key \<Rightarrow> json option" where
  "Key_json zone k = (case (zone (CreatedAt k), time_member zone ''lastUsedAt'' (LastUsedAt k),
        time_member zone ''revokedAt'' (RevokedAt k)) of
      (Some c, Some u, Some v) \<Rightarrow>
        Some (JObj ([(''id'', JNum (FormatInt (ID k))), (''label'', JStr (Label k)), (''createdAt'', JStr c)] @ u @ v))
    | _ \<Rightarrow> None)"

fun all_some :: "'a option list \<Rightarrow> 'a list option" where
  "all_some [] = Some []"
| "all_some (x # xs) = (case (x, all_some xs) of (Some y, Some ys) \<Rightarrow> Some (y # ys) | _ \<Rightarrow> None)"

fun response_json :: "(int \<Rightarrow> bytes option) \<Rightarrow> resp_body \<Rightarrow> json option" where
  "response_json zone (BodyError msg) = Some (error_json msg)"
| "response_json zone (BodyResults rs) = Some (sendResp_json rs)"
| "response_json zone (BodyKey key) = Some (registerResp_json key)"
| "response_json zone (BodyKeys ks) = map_option (\<lambda>js. JObj [(''keys'', JArr js)]) (all_some (map (Key_json zone) ks))"
| "response_json zone (BodyStatus st) = Some (health_json st)"
| "response_json zone _ = None"

fun response_bytes :: "(int \<Rightarrow> bytes option) \<Rightarrow> resp_body \<Rightarrow> bytes" where
  "response_bytes zone (BodyText t) = t @ [CHR 0x0A]"
| "response_bytes zone v = (case response_json zone v of None \<Rightarrow> [] | Some j \<Rightarrow> json_text j @ [CHR 0x0A])"

section \<open>Responses read back\<close>

lemma status_str_utf8 [simp]: "utf8_ok (status_str st)"
  by (cases st) simp_all

lemma newline_space: "list_all is_space [CHR 0x0A]"
  by (simp add: is_space_def)

lemma response_reads_back:
  assumes "writable v" "bracketed v" "depth v \<le> maxNestingDepth" "utf8_json v"
  shows "json_value (json_text v @ [CHR 0x0A]) = Some v"
  using json_value_text[OF assms(1-3) newline_space] cleaned_id[OF assms(4)] by simp

lemma sendResp_facts:
  assumes "\<forall>r \<in> set rs. utf8_ok (r_Token r)"
  shows "writable (sendResp_json rs)" "bracketed (sendResp_json rs)" "depth (sendResp_json rs) \<le> maxNestingDepth"
    "utf8_json (sendResp_json rs)"
proof -
  have "fold max (map depth (map Result_json rs)) 0 \<le> 1" by (simp add: fold_max Result_json_def)
  then show "depth (sendResp_json rs) \<le> maxNestingDepth" by (simp add: sendResp_json_def maxNestingDepth_def)
qed (use assms in \<open>auto simp: sendResp_json_def Result_json_def list_all_iff\<close>)

lemma sendResp_reads_back:
  "(\<forall>r \<in> set rs. utf8_ok (r_Token r)) \<Longrightarrow> json_value (response_bytes zone (BodyResults rs)) = Some (sendResp_json rs)"
  by (simp add: response_reads_back sendResp_facts)

lemma Result_json_inj: "Result_json a = Result_json b \<Longrightarrow> a = b"
  using status_str_inj by (auto simp: Result_json_def intro!: Result.equality)

lemma sendResp_json_inj: "sendResp_json a = sendResp_json b \<Longrightarrow> a = b"
  by (simp add: sendResp_json_def) (meson Result_json_inj injI inj_map_eq_map)

lemma results_utf8:
  assumes "list_all utf8_message ms" "map r_Token rs = toks ms"
  shows "\<forall>r \<in> set rs. utf8_ok (r_Token r)"
proof
  fix r assume "r \<in> set rs"
  then have "r_Token r \<in> set (toks ms)" using assms(2) by (metis image_eqI list.set_map)
  then show "utf8_ok (r_Token r)" using assms(1) by (auto simp: toks_def list_all_iff utf8_message_def)
qed

lemma handleSend_response_text:
  assumes "handleSend ctx_done sched r srv w = Some d" "rs_status (sd_resp d) = 200" "tables_ok (s_db (sv_keys srv))"
  shows "\<exists>req rs. decode_sendReq r = Decoded req \<and> map r_Token rs = toks (Messages req) \<and>
     json_value (response_bytes zone (rs_body (sd_resp d))) = Some (sendResp_json rs) \<and> rs_body (sd_resp d) = BodyResults rs"
proof -
  obtain k s1 w1 l w2 and req :: sendReq where v: "Verify (bearerToken r) (sv_keys srv) w = (Inr k, s1, w1)"
    and dec: "decode_sendReq r = Decoded req"
    and sb: "send_batch ctx_done sched (ID k) (Messages req) (srv\<lparr>sv_keys := s1, sv_sendLim := l\<rparr>) w2 = Some d"
    by (rule handleSend_served[OF assms(1,2)]) (rule that)
  have "tables_ok (s_db s1)" using tables_ok_steps[OF Verify_steps[OF v] assms(3)] .
  then obtain rs where rs: "sd_resp d = writeJSON 200 (BodyResults rs)" "map r_Token rs = toks (Messages req)"
    using send_batch_results[OF sb] by auto
  have "json_value (response_bytes zone (BodyResults rs)) = Some (sendResp_json rs)"
    by (rule sendResp_reads_back[OF results_utf8[OF decode_sendReq_utf8[OF dec] rs(2)]])
  then show ?thesis using rs dec by (auto simp: writeJSON_def simp del: response_bytes.simps)
qed

section \<open>From the request's text to the provider's\<close>

lemma handleSend_fcm_text:
  assumes "handleSend ctx_done sched r srv w = Some d" "tables_ok (s_db (sv_keys srv))" "FcmPost q \<in> set (sd_calls d)"
  shows "\<exists>req m kind. decode_sendReq r = Decoded req \<and> m \<in> set (Messages req) \<and> parseKind (sm_Kind m) = Some kind \<and>
     json_value (fq_body q) = Some (fcm_body \<lparr>m_Token = sm_Token m, m_Kind = kind, m_Payload = sm_Payload m\<rparr>)"
proof -
  have ne: "sd_calls d \<noteq> []" using assms(3) by auto
  obtain k :: Key and req :: sendReq and rs :: "Result list" and js where dec: "decode_sendReq r = Decoded req"
      and cs: "list_all2 (\<lambda>j x. j < length rs \<and> push_of srv (ID k) (sv_keys (sd_server d)) (Messages req) (rs ! j) x) js (sd_calls d)"
    using handleSend_calls[OF assms(1,2)] ne by blast
  obtain n where n: "n < length (sd_calls d)" "sd_calls d ! n = FcmPost q" using assms(3) by (auto simp: in_set_conv_nth)
  have "push_of srv (ID k) (sv_keys (sd_server d)) (Messages req) (rs ! (js ! n)) (FcmPost q)"
    using list_all2_nthD2[OF cs n(1)] n(2) by simp
  then obtain m platform kind where m: "m \<in> set (Messages req)" "parseKind (sm_Kind m) = Some kind"
      "call_of (sender_for srv platform) \<lparr>m_Token = sm_Token m, m_Kind = kind, m_Payload = sm_Payload m\<rparr> (FcmPost q)"
    unfolding push_of_def by blast
  have "utf8_message m" using decode_sendReq_utf8[OF dec] m(1) by (simp add: list_all_iff)
  moreover have "fq_body q = json_text (fcm_body \<lparr>m_Token = sm_Token m, m_Kind = kind, m_Payload = sm_Payload m\<rparr>)"
    using m(3) by (cases "sender_for srv platform") (auto simp: fcm_post_def)
  ultimately have "json_value (fq_body q) = Some (fcm_body \<lparr>m_Token = sm_Token m, m_Kind = kind, m_Payload = sm_Payload m\<rparr>)"
    by (simp add: fcm_body_reads_back utf8_message_def)
  then show ?thesis using dec m by blast
qed

section \<open>Properties\<close>

text \<open>
  C13: every post to FCM a send request causes is a text that parses, and what it parses to is the
  data message of one of the messages the request's text decoded to: token and payload arrive
  at FCM byte for byte as they were decoded, the escaping on the way notwithstanding.
\<close>

theorem payload_reaches_fcm_untouched:
  assumes "handleSend ctx_done sched r srv w = Some d" and "tables_ok (s_db (sv_keys srv))" and "FcmPost q \<in> set (sd_calls d)"
  shows "\<exists>req m kind. decode_sendReq r = Decoded req \<and> m \<in> set (Messages req) \<and> parseKind (sm_Kind m) = Some kind \<and>
     json_value (fq_body q) = Some (JObj [(''message'', JObj [
       (''android'', JObj [(''priority'', JStr ''high'')]),
       (''data'', JObj [(''kind'', JStr (kind_str kind)), (''payload'', JStr (sm_Payload m))]),
       (''token'', JStr (sm_Token m))])])"
  using handleSend_fcm_text[OF assms] unfolding fcm_body_def by simp

definition fcm_server :: Server where
  "fcm_server = ex_server\<lparr>sv_ios := SFcm \<lparr>fs_projectID = ''p'', fs_endpoint = fcm_endpoint\<rparr>\<rparr>"

definition fcm_run :: "pool_event list" where
  "fcm_run = [Hand 0, FeedEnd, Finish 0 (ex_answer\<lparr>an_token := Fetched ''a''\<rparr>), Leave 0]"

lemma ex_fcm_handled:
  "\<exists>d q. handleSend False fcm_run ex_request fcm_server quiet_world = Some d \<and> FcmPost q \<in> set (sd_calls d)"
proof -
  let ?l = "snd (Allow (FormatInt 1) (w_clock quiet_world 1) (New_Limiter 120 60 (w_clock quiet_world 0)))"
  let ?srv = "fcm_server\<lparr>sv_keys := ex_keys\<lparr>s_db := empty_tables\<lparr>keys_tab := [ex_key_row\<lparr>k_used := Some 0\<rparr>], keys_seq := 1\<rparr>\<rparr>,
    sv_sendLim := ?l\<rparr>"
  have "handleSend False fcm_run ex_request fcm_server quiet_world
      = send_batch False fcm_run 1 ex_batch ?srv (quiet_world\<lparr>w_dpos := 2, w_cpos := 2\<rparr>)"
    by (simp add: handleSend_def ex_bearer fcm_server_def ex_server_def ex_verify ask_fresh ex_decode ex_cfg_sel ex_batch_def numeral_2_eq_2)
  then show ?thesis by (simp add: fcm_server_def ex_server_def send_eval fcm_run_def fcm_Send_def fcm_sendOne_def ex_answer_def)
qed

theorem payload_reaches_fcm_untouched_witness:
  "\<exists>d q m. handleSend False fcm_run ex_request fcm_server quiet_world = Some d \<and> FcmPost q \<in> set (sd_calls d) \<and> m \<in> set ex_batch"
proof -
  obtain d q where h: "handleSend False fcm_run ex_request fcm_server quiet_world = Some d" "FcmPost q \<in> set (sd_calls d)"
    using ex_fcm_handled by blast
  have ok: "tables_ok (s_db (sv_keys fcm_server))" using ex_keys_ok by (simp add: fcm_server_def)
  show ?thesis using payload_reaches_fcm_untouched[OF h(1) ok h(2)] h ex_decode(2) by auto
qed


end
