(* ===== verification/Service.thy ===== *)
theory Service
  imports Payload_Blind Api_Text
begin

text \<open>
  The service: any number of requests, one after the other, of any kind and from anyone,
  with any schedule, any clock and any driver failures. Every store operation
  inside a request is a step of the store's own transition system, so what holds there
  across any interleaving holds across requests.
\<close>

inductive server_step :: "Server \<Rightarrow> Server \<Rightarrow> bool" where
  serve_one: "serve cd sched r srv w = Some d \<Longrightarrow> server_step srv (sd_server d)"

interpretation service: step_system "\<lambda>srv. tables_ok (s_db (sv_keys srv))" server_step .

lemma server_step_store:
  assumes "server_step srv srv'"
  shows "steps_of srv (sv_keys srv) (sv_keys srv')" and "sv_cfg srv' = sv_cfg srv"
  using assms by (auto elim!: server_step.cases dest: serve_steps)

interpretation serving: simulation "store_step (MaxRegistrations cfg)" server_step sv_keys "\<lambda>srv. sv_cfg srv = cfg" for cfg
  by unfold_locales (use server_step_store in auto)

lemma server_steps_store:
  "server_step\<^sup>*\<^sup>* srv srv' \<Longrightarrow> steps_of srv (sv_keys srv) (sv_keys srv') \<and> sv_cfg srv' = sv_cfg srv"
  using serving.sim_run by blast

lemma service_tables_ok: "service.reach srv \<Longrightarrow> tables_ok (s_db (sv_keys srv))"
proof (rule service.reach_invariant)
  fix s t assume "tables_ok (s_db (sv_keys s))" "server_step s t"
  then show "tables_ok (s_db (sv_keys t))" using server_step_store(1) tables_ok_steps by blast
qed auto

section \<open>Keys across requests\<close>

lemma Issue_visible:
  assumes "Issue lab mx s w = (Inr key, s', w')"
  shows "list_all visible key"
proof -
  obtain raw where "key = keyPrefix @ RawURLEncode raw" using assms by (rule Issue_ok)
  then show ?thesis using RawURLEncode_visible[of raw] by (simp add: keyPrefix_def visible_def)
qed

lemma bearerToken_key:
  assumes "list_all visible key" "key \<noteq> []" "header_get ''Authorization'' r = ''Bearer '' @ key"
  shows "bearerToken r = key"
  using assms by (simp add: bearerToken_def bearer_prefix_def EqualFold_def TrimSpace_visible)

lemma issued_key_verifies:
  assumes "Issue lab mx s w = (Inr key, s', w')" and "key_survives s' t"
  shows "\<exists>row. sql_select_key (hashKey key) (s_db t) = Some row \<and> k_id row = keys_seq (s_db s) + 1 \<and> k_label row = lab"
proof -
  obtain c where "sql_insert_key (hashKey key) lab c (s_db s) = Some (s_db s')" using assms(1) by (rule Issue_ok)
  from select_insert_key[OF this, of "hashKey key"] show ?thesis
    using assms(2) unfolding key_survives_def by fastforce
qed

lemma Verify_active:
  assumes "sql_select_key (hashKey plain) (s_db s) = Some row" "k_revoked row = None" "w_db w (w_dpos w) = DbOk"
  shows "\<exists>k s' w'. Verify plain s w = (Inr k, s', w') \<and> ID k = k_id row"
  using assms by (auto simp: Verify_def Let_def world_defs split: db_out.split)

lemma handleSend_verified:
  assumes "bearerToken r \<noteq> []" "Verify (bearerToken r) (sv_keys srv) w = (Inr k, s', w')"
    and "handleSend cd sched r srv w = Some d"
  shows "rs_status (sd_resp d) \<in> {200, 400, 429}"
  using assms unfolding handleSend_def Let_def
  by (auto simp: answer_with_def elim!: send_batch_parts split: if_splits prod.splits sum.splits decoded.splits)

lemma handleSend_unverified:
  assumes "Verify (bearerToken r) (sv_keys srv) w = (Inl e, s', w')" and "handleSend cd sched r srv w = Some d"
  shows "rs_status (sd_resp d) \<in> {401, 500} \<and> sd_calls d = []"
  using assms unfolding handleSend_def Let_def by (auto simp: answer_with_def split: if_splits)

lemma registered_key_sends:
  assumes reg: "handleRegister r0 srv0 w0 = d0" "sd_resp d0 = writeJSON 200 (BodyKey key)"
    and run: "server_step\<^sup>*\<^sup>* (sd_server d0) srv"
    and live: "\<And>row. sql_select_key (hashKey key) (s_db (sv_keys srv)) = Some row \<Longrightarrow> k_revoked row = None"
    and auth: "header_get ''Authorization'' r = ''Bearer '' @ key" and up: "w_db w (w_dpos w) = DbOk"
    and send: "handleSend cd sched r srv w = Some d"
  shows "rs_status (sd_resp d) \<in> {200, 400, 429}"
proof -
  have "rs_status (sd_resp d0) = 200" using reg(2) by simp
  then obtain l lab s w1 w2 key' where iss': "Issue lab (MaxRegistrations (sv_cfg srv0)) (sv_keys srv0) w1 = (Inr key', s, w2)"
      and d0: "d0 = answer_with (writeJSON 200 (BodyKey key')) (srv0\<lparr>sv_registerLim := l, sv_keys := s\<rparr>) (log_print (LogIssued lab) w2)"
    by (rule handleRegister_ok[OF reg(1)]) (rule that)
  have iss: "Issue lab (MaxRegistrations (sv_cfg srv0)) (sv_keys srv0) w1 = (Inr key, s, w2)"
    and s: "sv_keys (sd_server d0) = s"
    using iss' d0 reg(2) by (simp_all add: answer_with_def writeJSON_def)
  have "key_survives s (sv_keys srv)"
    using server_steps_store[OF run] key_survives_steps s by blast
  from issued_key_verifies[OF iss this] obtain row where row: "sql_select_key (hashKey key) (s_db (sv_keys srv)) = Some row"
    by blast
  have key: "key \<noteq> []" "list_all visible key"
    using iss Issue_visible by (auto elim!: Issue_ok simp: keyPrefix_def)
  have b: "bearerToken r = key" using bearerToken_key[OF key(2,1) auth] .
  obtain k s' w' where "Verify (bearerToken r) (sv_keys srv) w = (Inr k, s', w')"
    using Verify_active[OF row live[OF row] up] b by blast
  then show ?thesis using handleSend_verified send key(1) b by blast
qed

lemma revoked_key_rejected:
  assumes row: "sql_select_key (hashKey (bearerToken rq)) (s_db (sv_keys srv)) = Some row"
    and rev: "handleAdminRevokeKey (FormatInt (k_id row)) r srv w = d1" "rs_status (sd_resp d1) = 204"
    and id: "in_int64 (k_id row)"
    and run: "server_step\<^sup>*\<^sup>* (sd_server d1) srv2" and send: "handleSend cd sched rq srv2 w2 = Some d2"
  shows "rs_status (sd_resp d2) \<in> {401, 500} \<and> sd_calls d2 = []"
proof -
  have rv: "\<exists>w'. Revoke (k_id row) (sv_keys srv) w = (None, sv_keys (sd_server d1), w')"
    using rev ParseInt_FormatInt[OF id]
    by (auto simp: handleAdminRevokeKey_def answer_with_def split: prod.splits option.splits if_splits)
  then obtain row2 where row2: "sql_select_key (hashKey (bearerToken rq)) (s_db (sv_keys (sd_server d1))) = Some row2"
      "k_revoked row2 \<noteq> None"
    using Revoke_ok[OF _ row refl] by blast
  have "key_survives (sv_keys (sd_server d1)) (sv_keys srv2)"
    using server_steps_store[OF run] key_survives_steps by blast
  then obtain row3 where "sql_select_key (hashKey (bearerToken rq)) (s_db (sv_keys srv2)) = Some row3" "k_revoked row3 \<noteq> None"
    using row2 unfolding key_survives_def by (metis (no_types, lifting))
  then obtain e where "fst (Verify (bearerToken rq) (sv_keys srv2) w2) = Inl e" using Verify_revoked by blast
  then show ?thesis using handleSend_unverified[OF _ send] by (metis prod_cases3 fst_conv)
qed

section \<open>The admin surface\<close>

definition newly_revoked :: "Store \<Rightarrow> Store \<Rightarrow> bool" where
  "newly_revoked s s' \<longleftrightarrow> (\<exists>h row row'. sql_select_key h (s_db s) = Some row \<and> k_revoked row = None \<and>
     sql_select_key h (s_db s') = Some row' \<and> k_revoked row' \<noteq> None)"

lemma newly_revoked_refl [simp]: "\<not> newly_revoked s s"
  by (auto simp: newly_revoked_def)

lemma bind_tx_keys: "bind_tx k p t s w = (b, s', w') \<Longrightarrow> keys_tab (s_db s') = keys_tab (s_db s)"
  using bind_tx_effect by (fastforce simp: sql_insert_token_def sql_touch_token_def split: if_splits)

lemma BindToken_keys:
  assumes "BindToken k p t ret s w = (r, s', w')"
  shows "keys_tab (s_db s') = keys_tab (s_db s)"
proof -
  obtain b s1 w1 where b: "bind_tx k p t s w = (b, s1, w1)" by (metis prod_cases3)
  have "keys_tab (s_db s') = keys_tab (s_db s1)" if "maybePruneStaleTokens ret s1 w1 = (s', w')"
    using prune_effect[OF that] by (auto simp: sql_delete_stale_def)
  then show ?thesis using assms b bind_tx_keys[OF b] by (auto simp: BindToken_def split: sum.splits prod.splits)
qed

lemma prepare_one_keys: "keys_tab (s_db (pr_store (prepare_one srv k m p))) = keys_tab (s_db (pr_store p))"
  by (auto simp: prepare_one_def call_gate_def bind_message_def add_result_def add_item_def Let_def
      dest: BindToken_keys split: option.splits prod.splits bool.splits sum.splits if_splits)

lemma prepare_keys: "keys_tab (s_db (pr_store (prepare srv k ms p))) = keys_tab (s_db (pr_store p))"
  by (induction ms arbitrary: p) (simp_all add: prepare_one_keys)

lemma Verify_revokes_none: "Verify plain s w = (r, s', w') \<Longrightarrow> \<not> newly_revoked s s'"
  by (drule Verify_effect) (auto simp: newly_revoked_def select_stamp)

lemma newly_revoked_keys: "keys_tab (s_db t) = keys_tab (s_db t') \<Longrightarrow> newly_revoked s t = newly_revoked s t'"
  by (simp add: newly_revoked_def sql_select_key_def)

lemma handleSend_revokes_none:
  assumes "handleSend cd sched r srv w = Some d"
  shows "\<not> newly_revoked (sv_keys srv) (sv_keys (sd_server d))"
proof -
  have v: "\<not> newly_revoked (sv_keys srv) s1" if "Verify (bearerToken r) (sv_keys srv) w = (x, s1, w1)" for x s1 w1
    using Verify_revokes_none[OF that] .
  have b: "keys_tab (s_db (sv_keys (sd_server d))) = keys_tab (s_db s1)"
    if "send_batch cd sched k ms (srv\<lparr>sv_keys := s1, sv_sendLim := l\<rparr>) w2 = Some d" for k ms s1 l w2
    using that by (rule send_batch_parts) (simp add: prepare_keys)
  show ?thesis
    using assms v newly_revoked_keys[OF b] unfolding handleSend_def Let_def
    by (auto simp: answer_with_def split: if_splits prod.splits sum.splits decoded.splits)
qed

lemma handleRegister_revokes_none: "\<not> newly_revoked (sv_keys srv) (sv_keys (sd_server (handleRegister r srv w)))"
proof -
  have i: "\<not> newly_revoked s s'" if "Issue lab mx s w1 = (x, s', w2)" for lab mx s w1 x s' w2
    using Issue_effect[OF that] by (auto simp: newly_revoked_def select_insert_key split: if_splits)
  show ?thesis
    using i unfolding handleRegister_def Let_def
    by (auto simp: answer_with_def split: if_splits prod.splits sum.splits decoded.splits)
qed

lemma admin_needs_token:
  assumes "serve cd sched r srv w = Some d"
    and "newly_revoked (sv_keys srv) (sv_keys (sd_server d)) \<or> (\<exists>ks. rs_body (sd_resp d) = BodyKeys ks)"
  shows "AdminToken (sv_cfg srv) \<noteq> [] \<and> bearerToken r = AdminToken (sv_cfg srv)"
proof -
  have s: "rs_body (sd_resp d) \<noteq> BodyKeys ks" if "handleSend cd sched r srv w = Some d" for ks
    using that unfolding handleSend_def Let_def
    by (auto simp: answer_with_def elim!: send_batch_parts split: if_splits prod.splits sum.splits decoded.splits)
  have g: "rs_body (sd_resp (handleRegister r srv w)) \<noteq> BodyKeys ks" for ks
    unfolding handleRegister_def Let_def
    by (auto simp: answer_with_def split: if_splits prod.splits sum.splits decoded.splits)
  have a: "AdminToken (sv_cfg srv) \<noteq> []"
    if "route_of (sv_cfg srv) (rq_method r) (rq_path r) = RListKeys \<or> (\<exists>i. route_of (sv_cfg srv) (rq_method r) (rq_path r) = RRevoke i)"
    using that by (auto simp: route_of_def on_method_def split: if_splits)
  show ?thesis
    using assms s g a handleSend_revokes_none[of cd sched r srv w d] handleRegister_revokes_none[of srv r w]
    by (auto simp: serve_def requireAdmin_def handleHealth_def answer_with_def Let_def
        split: route.splits if_splits)
qed

text \<open>The listing does not depend on the hashes.\<close>

definition rehash :: "(bytes \<Rightarrow> bytes) \<Rightarrow> Store \<Rightarrow> Store" where
  "rehash f s = s\<lparr>s_db := (s_db s)\<lparr>keys_tab := map (\<lambda>k. k\<lparr>k_hash := f (k_hash k)\<rparr>) (keys_tab (s_db s))\<rparr>\<rparr>"

lemma sort_key_map:
  assumes "\<And>x. key (g x) = key x"
  shows "sort_key key (map g xs) = map g (sort_key key xs)"
proof -
  have "insort_key key (g x) (map g xs) = map g (insort_key key x xs)" for x xs
    by (induction xs) (auto simp: assms)
  then show ?thesis by (induction xs) auto
qed

lemma List_keys_rehash: "List_keys (rehash f s) w = List_keys s w"
  by (simp add: List_keys_def rehash_def sql_keys_desc_def sort_key_map rev_map[symmetric] comp_def
      split: prod.split db_out.split)

lemma admin_list_rehash:
  "sd_resp (handleAdminListKeys r (srv\<lparr>sv_keys := rehash f (sv_keys srv)\<rparr>) w) = sd_resp (handleAdminListKeys r srv w)"
  by (simp add: handleAdminListKeys_def List_keys_rehash answer_with_def split: prod.split sum.split)

section \<open>Properties\<close>

text \<open>
  Over any sequence of requests of any kind, the tables stay well-formed, no key is lost, and
  the number of registrations stays within the configured ceiling.
\<close>

lemma service_invariant:
  assumes "server_step\<^sup>*\<^sup>* srv srv'" and "tables_ok (s_db (sv_keys srv))"
  shows "tables_ok (s_db (sv_keys srv')) \<and> sv_cfg srv' = sv_cfg srv \<and> key_survives (sv_keys srv) (sv_keys srv') \<and>
     (0 < MaxRegistrations (sv_cfg srv) \<longrightarrow> sql_count_keys (s_db (sv_keys srv)) \<le> MaxRegistrations (sv_cfg srv) \<longrightarrow>
      sql_count_keys (s_db (sv_keys srv')) \<le> MaxRegistrations (sv_cfg srv))"
  using server_steps_store[OF assms(1)] tables_ok_steps[OF _ assms(2)] key_survives_steps count_steps by blast

text \<open>
  C18: a key handed out by a registration authenticates send requests after any number of further
  requests by anyone, for as long as it is not revoked: sent as the bearer token it is never
  answered with 401 while the store answers.
\<close>

theorem registered_key_authenticates:
  assumes "handleRegister r0 srv0 w0 = d0" and "sd_resp d0 = writeJSON 200 (BodyKey key)"
    and "server_step\<^sup>*\<^sup>* (sd_server d0) srv"
    and "\<And>row. sql_select_key (hashKey key) (s_db (sv_keys srv)) = Some row \<Longrightarrow> k_revoked row = None"
    and "header_get ''Authorization'' r = ''Bearer '' @ key" and "w_db w (w_dpos w) = DbOk"
    and "handleSend ctx_done sched r srv w = Some d"
  shows "rs_status (sd_resp d) \<in> {200, 400, 429}"
  using assms by (rule registered_key_sends)

theorem registered_key_authenticates_witness:
  "\<exists>key sched d. rs_body (sd_resp (handleRegister ex_reg empty_server quiet_world)) = BodyKey key \<and>
     handleSend False sched (ex_request\<lparr>rq_headers := [(''Authorization'', ''Bearer '' @ key)]\<rparr>)
       (sd_server (handleRegister ex_reg empty_server quiet_world)) quiet_world = Some d \<and>
     rs_status (sd_resp d) \<noteq> 401"
proof -
  let ?d0 = "handleRegister ex_reg empty_server quiet_world"
  obtain l w1 lab key s w2 where iss: "Issue lab (MaxRegistrations (sv_cfg empty_server)) (sv_keys empty_server) w1 = (Inr key, s, w2)"
      and d0: "?d0 = answer_with (writeJSON 200 (BodyKey key)) (empty_server\<lparr>sv_registerLim := l, sv_keys := s\<rparr>) (log_print (LogIssued lab) w2)"
    by (rule handleRegister_ok[OF refl ex_register])
  let ?r = "ex_request\<lparr>rq_headers := [(''Authorization'', ''Bearer '' @ key)]\<rparr>"
  obtain sched d where h: "handleSend False sched ?r (sd_server ?d0) quiet_world = Some d"
    using handleSend_total by blast
  have live: "k_revoked row = None" if "sql_select_key (hashKey key) (s_db (sv_keys (sd_server ?d0))) = Some row" for row
  proof -
    obtain t where "sql_insert_key (hashKey key) lab t (s_db (sv_keys empty_server)) = Some (s_db s)"
      using iss by (rule Issue_ok)
    from select_insert_key[OF this, of "hashKey key"] that d0 show ?thesis by (auto simp: answer_with_def)
  qed
  have resp: "sd_resp ?d0 = writeJSON 200 (BodyKey key)" using d0 by (simp add: answer_with_def)
  have "rs_status (sd_resp d) \<in> {200, 400, 429}"
    by (rule registered_key_authenticates[OF refl resp rtranclp.rtrancl_refl live _ _ h])
      (simp_all add: header_get_def quiet_world_def)
  then show ?thesis using h d0 by (intro exI[of _ key] exI[of _ sched] exI[of _ d]) (auto simp: answer_with_def)
qed

definition admin_server :: Server where
  "admin_server = ex_server\<lparr>sv_cfg := ex_cfg\<lparr>AdminToken := ''key''\<rparr>\<rparr>"

definition admin_request :: Request where
  "admin_request = ex_request\<lparr>rq_method := ''GET'', rq_path := [''admin'', ''keys'']\<rparr>"

lemma ex_admin_list:
  "\<exists>d ks. serve False [] admin_request admin_server quiet_world = Some d \<and> rs_body (sd_resp d) = BodyKeys ks"
proof -
  have "bearerToken admin_request = ''key''"
    using ex_bearer by (simp add: bearerToken_def header_get_def admin_request_def)
  then show ?thesis
    by (simp add: serve_def route_of_def on_method_def admin_request_def admin_server_def ex_request_def requireAdmin_def
        handleAdminListKeys_def List_keys_def quiet_world_def world_defs answer_with_def)
qed

text \<open>
  The admin listing is the same whatever the stored hashes are: it reveals neither a key nor
  its hash.
\<close>

lemma admin_list_hides_hashes:
  "sd_resp (handleAdminListKeys r (srv\<lparr>sv_keys := rehash f (sv_keys srv)\<rparr>) w) = sd_resp (handleAdminListKeys r srv w)"
  by (rule admin_list_rehash)

end
