(* ===== verification/Handler_Thread.thy ===== *)
theory Handler_Thread
  imports Service
begin

text \<open>
  One request as a thread of atomic steps on what all handlers share: the store, the limiters,
  the clock and the log. The steps are the code's own critical sections: one statement or
  transaction on the single connection, one call of a limiter under its mutex, the gate of the
  lazy sweep under \<open>pruneMu\<close>. The worker pool touches nothing shared but the log and is one
  step of its schedule. \<open>AtRoute\<close> is where \<open>ServeMux\<close> picks the handler.

  Run alone, a thread does exactly what \<open>serve\<close> does (\<open>thread_alone\<close>).
\<close>

section \<open>The critical sections of \<open>Verify\<close> and of the lazy sweep\<close>

definition verify_select :: "bytes \<Rightarrow> Store \<Rightarrow> world \<Rightarrow> (keys_error + Key) \<times> world" where
  "verify_select plain s w0 =
     (case db_call w0 of
        (DbErr _, w1) \<Rightarrow> (Inl ErrDriver, w1)
      | (DbOk, w1) \<Rightarrow>
          (case scanKey (sql_select_key (hashKey plain) (s_db s)) of
             Inl e \<Rightarrow> (Inl e, w1)
           | Inr k \<Rightarrow> if RevokedAt k \<noteq> None then (Inl ErrNotFound, w1) else (Inr k, w1)))"

definition verify_stamp :: "Key \<Rightarrow> Store \<Rightarrow> world \<Rightarrow> Key \<times> Store \<times> world" where
  "verify_stamp k s w1 =
     (case time_now w1 of (used, w2) \<Rightarrow>
        let u = time_unix used; d = sql_stamp_used u (ID k) (s_db s) in
        case db_call w2 of
          (DbErr eff, w3) \<Rightarrow> (k, write_if eff d s, w3)
        | (DbOk, w3) \<Rightarrow> (k\<lparr>LastUsedAt := Some u\<rparr>, s\<lparr>s_db := d\<rparr>, w3))"

definition prune_gate :: "int \<Rightarrow> Store \<Rightarrow> world \<Rightarrow> bool \<times> Store \<times> world" where
  "prune_gate ret s w0 =
     (if ret \<le> 0 then (False, s, w0)
      else
        (case time_now w0 of (since, w1) \<Rightarrow>
           if pruneInterval \<le> time_sub since (s_lastPrune s)
           then (case time_now w1 of (marked, w2) \<Rightarrow> (True, s\<lparr>s_lastPrune := marked\<rparr>, w2))
           else (False, s, w1)))"

definition prune_delete :: "int \<Rightarrow> Store \<Rightarrow> world \<Rightarrow> Store \<times> world" where
  "prune_delete ret s w2 =
     (case time_now w2 of (now, w3) \<Rightarrow>
        let d = sql_delete_stale (time_unix (time_add now (- ret))) (s_db s) in
        case db_call w3 of
          (DbErr eff, w4) \<Rightarrow> (write_if eff d s, log_print LogPruneTokens w4)
        | (DbOk, w4) \<Rightarrow> (s\<lparr>s_db := d\<rparr>, w4))"

lemma Verify_split:
  "Verify plain s w0 = (case verify_select plain s w0 of
      (Inl e, w1) \<Rightarrow> (Inl e, s, w1)
    | (Inr k, w1) \<Rightarrow> (case verify_stamp k s w1 of (k', s', w2) \<Rightarrow> (Inr k', s', w2)))"
  by (auto simp: Verify_def verify_select_def verify_stamp_def Let_def split: prod.split db_out.split sum.split)

lemma prune_split:
  "maybePruneStaleTokens ret s w0 = (case prune_gate ret s w0 of
      (False, s1, w1) \<Rightarrow> (s1, w1)
    | (True, s1, w1) \<Rightarrow> prune_delete ret s1 w1)"
  by (auto simp: maybePruneStaleTokens_def prune_gate_def prune_delete_def Let_def write_if_def split: prod.split db_out.split)

section \<open>A request as a thread\<close>

datatype handler_pc =
    AtRoute
  | AtRegister
  | AtIssue bytes
  | AtList
  | AtRevoke int
  | AtVerify
  | AtStamp Key
  | AtLimit Key
  | AtMessage int "sendMessage list"
  | AtBind int Platform Message "sendMessage list"
  | AtPrune int Platform Message int "sendMessage list"
  | AtDelete int Platform Message int "sendMessage list"
  | AtPool int
  | AtRefund int "dispatchItem list"
  | AtAnswer Response

record hthread =
  th_req :: Request
  th_pc :: handler_pc
  th_results :: "Result list"
  th_items :: "dispatchItem list"
  th_calls :: "provider_call list"
  th_key :: "int option"

type_synonym scene = "hthread \<times> Server \<times> world"

definition new_thread :: "Request \<Rightarrow> hthread" where
  "new_thread r = \<lparr>th_req = r, th_pc = AtRoute, th_results = [], th_items = [], th_calls = [], th_key = None\<rparr>"

definition goto :: "handler_pc \<Rightarrow> hthread \<Rightarrow> hthread" where
  "goto pc th = th\<lparr>th_pc := pc\<rparr>"

definition note_result :: "bytes \<Rightarrow> Status \<Rightarrow> hthread \<Rightarrow> hthread" where
  "note_result token st th = th\<lparr>th_results := th_results th @ [\<lparr>r_Token = token, r_Status = st\<rparr>]\<rparr>"

definition note_item :: "Sender \<Rightarrow> Message \<Rightarrow> hthread \<Rightarrow> hthread" where
  "note_item sender msg th = (note_result [] StatusUnset th)\<lparr>th_items := th_items th @
     [\<lparr>di_resultIdx = length (th_results th), di_sender = sender, di_msg = msg\<rparr>]\<rparr>"

text \<open>Where the router and the guard of the admin handlers send a request.\<close>

definition routed :: "Config \<Rightarrow> Request \<Rightarrow> handler_pc" where
  "routed cfg r =
     (let want = AdminToken cfg; got = bearerToken r; admin = length got = length want \<and> got = want in
      case route_of cfg (rq_method r) (rq_path r) of
        RHealth \<Rightarrow> AtAnswer (writeJSON 200 (BodyStatus ''ok''))
      | RRegister \<Rightarrow> AtRegister
      | RSend \<Rightarrow> AtVerify
      | RListKeys \<Rightarrow> if admin then AtList else AtAnswer (writeErr 401 ''unauthorized'')
      | RRevoke path_id \<Rightarrow>
          if admin then (case ParseInt path_id of None \<Rightarrow> AtAnswer (writeErr 400 ''invalid id'') | Some i \<Rightarrow> AtRevoke i)
          else AtAnswer (writeErr 401 ''unauthorized'')
      | RMethodNotAllowed \<Rightarrow> AtAnswer \<lparr>rs_status = 405, rs_body = BodyText ''Method Not Allowed''\<rparr>
      | RNotFound \<Rightarrow> AtAnswer \<lparr>rs_status = 404, rs_body = BodyText ''404 page not found''\<rparr>)"

text \<open>Where the decoded body of a registration leads.\<close>

definition register_body :: "Request \<Rightarrow> handler_pc" where
  "register_body r = (case decode_registerReq r of
      BodyInvalid \<Rightarrow> AtAnswer (writeErr 400 ''invalid body'')
    | BodyEOF \<Rightarrow> AtIssue (register_label [])
    | Decoded req \<Rightarrow> AtIssue (register_label (PublicURL req)))"

text \<open>What follows \<open>BindToken\<close>: the owner is compared with the key.\<close>

definition after_bind :: "Server \<Rightarrow> int \<Rightarrow> Platform \<Rightarrow> Message \<Rightarrow> int \<Rightarrow> sendMessage list \<Rightarrow> hthread \<Rightarrow> hthread" where
  "after_bind srv keyID platform msg owner ms th = goto (AtMessage keyID ms)
     (if owner \<noteq> keyID then note_result (m_Token msg) StatusForbidden th
      else note_item (sender_for srv platform) msg th)"

fun thread_step :: "bool \<Rightarrow> pool_event list \<Rightarrow> handler_pc \<Rightarrow> scene \<Rightarrow> scene option" where
  "thread_step cd sched AtRoute (th, srv, w) = Some (goto (routed (sv_cfg srv) (th_req th)) th, srv, w)"
| "thread_step cd sched AtRegister (th, srv, w) =
     (case ask (clientIP (sv_cfg srv) (th_req th)) (sv_registerLim srv) w of
        (ok, l, w1) \<Rightarrow>
          Some (goto (if \<not> ok then AtAnswer (writeErr 429 ''too many registrations from this address, try again later'')
                      else register_body (th_req th)) th, srv\<lparr>sv_registerLim := l\<rparr>, w1))"
| "thread_step cd sched (AtIssue lab) (th, srv, w) =
     (case Issue lab (MaxRegistrations (sv_cfg srv)) (sv_keys srv) w of
        (Inl e, s, w1) \<Rightarrow>
          if e = ErrRegistrationCeiling
          then Some (goto (AtAnswer (writeErr 403 ''relay has reached its maximum number of registrations'')) th, srv\<lparr>sv_keys := s\<rparr>, w1)
          else Some (goto (AtAnswer (writeErr 500 ''could not issue key'')) th, srv\<lparr>sv_keys := s\<rparr>, log_print LogIssueKey w1)
      | (Inr key, s, w1) \<Rightarrow>
          Some (goto (AtAnswer (writeJSON 200 (BodyKey key))) th, srv\<lparr>sv_keys := s\<rparr>, log_print (LogIssued lab) w1))"
| "thread_step cd sched AtList (th, srv, w) =
     (case List_keys (sv_keys srv) w of
        (Inl _, w1) \<Rightarrow> Some (goto (AtAnswer (writeErr 500 ''server error'')) th, srv, log_print LogListKeys w1)
      | (Inr ks, w1) \<Rightarrow> Some (goto (AtAnswer (writeJSON 200 (BodyKeys ks))) th, srv, w1))"
| "thread_step cd sched (AtRevoke i) (th, srv, w) =
     (case Revoke i (sv_keys srv) w of
        (None, s, w1) \<Rightarrow> Some (goto (AtAnswer (writeJSON 204 BodyNone)) th, srv\<lparr>sv_keys := s\<rparr>, w1)
      | (Some e, s, w1) \<Rightarrow>
          if e = ErrNotFound
          then Some (goto (AtAnswer (writeErr 404 ''no such key'')) th, srv\<lparr>sv_keys := s\<rparr>, w1)
          else Some (goto (AtAnswer (writeErr 500 ''server error'')) th, srv\<lparr>sv_keys := s\<rparr>, log_print LogRevokeKey w1))"
| "thread_step cd sched AtVerify (th, srv, w) =
     (let plain = bearerToken (th_req th) in
      if plain = [] then Some (goto (AtAnswer (writeErr 401 ''missing bearer key'')) th, srv, w)
      else case verify_select plain (sv_keys srv) w of
             (Inl e, w1) \<Rightarrow>
               if e = ErrNotFound then Some (goto (AtAnswer (writeErr 401 ''invalid or revoked key'')) th, srv, w1)
               else Some (goto (AtAnswer (writeErr 500 ''server error'')) th, srv, log_print LogVerifyKey w1)
           | (Inr k, w1) \<Rightarrow> Some (goto (AtStamp k) th, srv, w1))"
| "thread_step cd sched (AtStamp k) (th, srv, w) =
     (case verify_stamp k (sv_keys srv) w of (k', s, w1) \<Rightarrow> Some (goto (AtLimit k') th, srv\<lparr>sv_keys := s\<rparr>, w1))"
| "thread_step cd sched (AtLimit k) (th, srv, w) =
     (case ask (FormatInt (ID k)) (sv_sendLim srv) w of
        (ok, l, w1) \<Rightarrow>
          Some (goto (if \<not> ok then AtAnswer (writeErr 429 ''rate limit exceeded'')
             else case decode_sendReq (th_req th) of
                    Decoded req \<Rightarrow>
                      if MaxMessages (sv_cfg srv) < int (length (Messages req))
                      then AtAnswer (writeErr 400 ''too many messages in one request'')
                      else AtMessage (ID k) (Messages req)
                  | _ \<Rightarrow> AtAnswer (writeErr 400 ''invalid body''))
             (if ok then th\<lparr>th_key := Some (ID k)\<rparr> else th), srv\<lparr>sv_sendLim := l\<rparr>, w1))"
| "thread_step cd sched (AtMessage keyID []) (th, srv, w) = Some (goto (AtPool keyID) th, srv, w)"
| "thread_step cd sched (AtMessage keyID (m # ms)) (th, srv, w) =
     (let failed = goto (AtMessage keyID ms) (note_result (sm_Token m) StatusError th) in
      if sm_Token m = [] then Some (goto (AtMessage keyID ms) th, srv, w)
      else if maxPayloadBytes < length (sm_Payload m) then Some (failed, srv, w)
      else case (parsePlatform (sm_Platform m), parseKind (sm_Kind m)) of
             (Some platform, Some kind) \<Rightarrow>
               (let bind = goto (AtBind keyID platform \<lparr>m_Token = sm_Token m, m_Kind = kind, m_Payload = sm_Payload m\<rparr> ms) th in
                if kind = KindCall
                then (case ask (FormatInt keyID) (sv_callLim srv) w of
                        (ok, l, w1) \<Rightarrow> Some (if ok then bind else failed, srv\<lparr>sv_callLim := l\<rparr>, w1))
                else Some (bind, srv, w))
           | _ \<Rightarrow> Some (failed, srv, w))"
| "thread_step cd sched (AtBind keyID platform msg ms) (th, srv, w) =
     (case bind_tx keyID (platform_str platform) (m_Token msg) (sv_keys srv) w of
        (Inl _, s, w1) \<Rightarrow>
          Some (goto (AtMessage keyID ms) (note_result (m_Token msg) StatusError th), srv\<lparr>sv_keys := s\<rparr>, log_print LogBindToken w1)
      | (Inr owner, s, w1) \<Rightarrow> Some (goto (AtPrune keyID platform msg owner ms) th, srv\<lparr>sv_keys := s\<rparr>, w1))"
| "thread_step cd sched (AtPrune keyID platform msg owner ms) (th, srv, w) =
     (case prune_gate (retention (sv_cfg srv)) (sv_keys srv) w of
        (due, s, w1) \<Rightarrow>
          Some (if due then goto (AtDelete keyID platform msg owner ms) th
                else after_bind srv keyID platform msg owner ms th, srv\<lparr>sv_keys := s\<rparr>, w1))"
| "thread_step cd sched (AtDelete keyID platform msg owner ms) (th, srv, w) =
     (case prune_delete (retention (sv_cfg srv)) (sv_keys srv) w of
        (s, w1) \<Rightarrow> Some (after_bind srv keyID platform msg owner ms th, srv\<lparr>sv_keys := s\<rparr>, w1))"
| "thread_step cd sched (AtPool keyID) (th, srv, w) =
     (case dispatch (SendConcurrency (sv_cfg srv)) (SendTimeoutSeconds (sv_cfg srv)) cd sched
             (th_items th) (th_results th) no_calls of
        None \<Rightarrow> None
      | Some (results, c) \<Rightarrow>
          Some (goto (AtRefund keyID (th_items th)) (th\<lparr>th_results := results, th_calls := c_calls c\<rparr>), srv,
                w\<lparr>w_log := w_log w @ c_log c\<rparr>))"
| "thread_step cd sched (AtRefund keyID []) (th, srv, w) =
     (case tally (th_results th) of (delivered, unregistered, forbidden, notAttempted, failed) \<Rightarrow>
        Some (goto (AtAnswer (writeJSON 200 (BodyResults (th_results th)))) th, srv,
          log_print (LogSend keyID (length (th_results th)) delivered unregistered forbidden notAttempted failed) w))"
| "thread_step cd sched (AtRefund keyID (i # is)) (th, srv, w) =
     Some (goto (AtRefund keyID is) th,
       if m_Kind (di_msg i) = KindCall \<and> r_Status (th_results th ! di_resultIdx i) = StatusNotAttempted
       then srv\<lparr>sv_callLim := Return (FormatInt keyID) (sv_callLim srv)\<rparr> else srv, w)"
| "thread_step cd sched (AtAnswer resp) (th, srv, w) = None"

inductive own_step :: "bool \<Rightarrow> pool_event list \<Rightarrow> scene \<Rightarrow> scene \<Rightarrow> bool" for cd sched where
  "thread_step cd sched (th_pc (fst x)) x = Some y \<Longrightarrow> own_step cd sched x y"

section \<open>Alone, a thread is the handler\<close>

abbreviation runs :: "bool \<Rightarrow> pool_event list \<Rightarrow> scene \<Rightarrow> scene \<Rightarrow> bool" where
  "runs cd sched \<equiv> (own_step cd sched)\<^sup>*\<^sup>*"

lemma goto_sel [simp]:
  "th_pc (goto pc th) = pc" "th_req (goto pc th) = th_req th" "th_results (goto pc th) = th_results th"
  "th_items (goto pc th) = th_items th" "th_calls (goto pc th) = th_calls th" "th_key (goto pc th) = th_key th" "goto pc (goto pc' th) = goto pc th"
  by (simp_all add: goto_def)

text \<open>The scene in the loop over the messages.\<close>

definition server_of :: "Server \<Rightarrow> Store \<Rightarrow> Limiter \<Rightarrow> Server" where
  "server_of srv s l = \<lparr>sv_cfg = sv_cfg srv, sv_ios = sv_ios srv, sv_android = sv_android srv, sv_keys = s,
     sv_registerLim = sv_registerLim srv, sv_sendLim = sv_sendLim srv, sv_callLim = l\<rparr>"

definition scene_of :: "int option \<Rightarrow> Request \<Rightarrow> handler_pc \<Rightarrow> prep \<Rightarrow> Server \<Rightarrow> scene" where
  "scene_of a r pc p srv = (\<lparr>th_req = r, th_pc = pc, th_results = pr_results p, th_items = pr_items p, th_calls = [], th_key = a\<rparr>,
     server_of srv (pr_store p) (pr_callLim p), pr_world p)"

lemma server_of_sel [simp]:
  "sv_cfg (server_of srv s l) = sv_cfg srv" "sv_keys (server_of srv s l) = s" "sv_callLim (server_of srv s l) = l"
  "sv_sendLim (server_of srv s l) = sv_sendLim srv" "(server_of srv s l)\<lparr>sv_keys := s'\<rparr> = server_of srv s' l"
  "(server_of srv s l)\<lparr>sv_callLim := l'\<rparr> = server_of srv s l'" "sender_for (server_of srv s l) pf = sender_for srv pf"
  by (simp_all add: server_of_def sender_for_def)

lemma server_of_self: "srv\<lparr>sv_keys := s, sv_callLim := l\<rparr> = server_of srv s l"
  by (simp add: server_of_def)

lemma server_of_id: "server_of srv (sv_keys srv) (sv_callLim srv) = srv"
  by (simp add: server_of_def)

lemma run_step: "runs cd sched y z \<Longrightarrow> thread_step cd sched (th_pc (fst x)) x = Some y \<Longrightarrow> runs cd sched x z"
  by (rule converse_rtranclp_into_rtranclp) (auto intro: own_step.intros)

lemmas run_last = run_step[OF rtranclp.rtrancl_refl]

lemmas scene_simps = scene_of_def goto_def note_result_def note_item_def add_result_def add_item_def after_bind_def

lemma run_bind:
  "runs cd sched (scene_of a r (AtBind k pf msg ms) p srv) (scene_of a r (AtMessage k ms) (bind_message srv k pf msg p) srv)"
proof -
  obtain b s1 w1 where b: "bind_tx k (platform_str pf) (m_Token msg) (pr_store p) (pr_world p) = (b, s1, w1)"
    by (metis prod_cases3)
  show ?thesis
  proof (cases b)
    case (Inl e)
    have "bind_message srv k pf msg p = add_result (m_Token msg) StatusError (p\<lparr>pr_store := s1, pr_world := log_print LogBindToken w1\<rparr>)"
      using b Inl by (simp add: bind_message_def BindToken_def)
    then show ?thesis using b Inl by (intro run_last) (simp add: scene_simps)
  next
    case (Inr ow)
    obtain due s2 w2 where g: "prune_gate (retention (sv_cfg srv)) s1 w1 = (due, s2, w2)" by (metis prod_cases3)
    obtain s3 w3 where d: "prune_delete (retention (sv_cfg srv)) s2 w2 = (s3, w3)" by fastforce
    define q where "q = p\<lparr>pr_store := if due then s3 else s2, pr_world := if due then w3 else w2\<rparr>"
    have bm: "bind_message srv k pf msg p
        = (if ow \<noteq> k then add_result (m_Token msg) StatusForbidden q else add_item (sender_for srv pf) msg q)"
      using b Inr g d by (simp add: bind_message_def BindToken_def prune_split q_def)
    have 2: "runs cd sched (scene_of a r (AtDelete k pf msg ow ms) (p\<lparr>pr_store := s2, pr_world := w2\<rparr>) srv)
        (scene_of a r (AtMessage k ms) (bind_message srv k pf msg p) srv)" if due
      using d that unfolding bm q_def by (intro run_last) (simp add: scene_simps)
    have 1: "runs cd sched (scene_of a r (AtPrune k pf msg ow ms) (p\<lparr>pr_store := s1, pr_world := w1\<rparr>) srv)
        (scene_of a r (AtMessage k ms) (bind_message srv k pf msg p) srv)"
    proof (cases due)
      case True
      then show ?thesis using g by (intro run_step[OF 2]) (simp_all add: scene_simps)
    next
      case False
      then show ?thesis using g unfolding bm q_def by (intro run_last) (simp add: scene_simps)
    qed
    show ?thesis using b Inr by (intro run_step[OF 1]) (simp add: scene_simps)
  qed
qed

lemma run_message:
  "runs cd sched (scene_of a r (AtMessage k (m # ms)) p srv) (scene_of a r (AtMessage k ms) (prepare_one srv k m p) srv)"
proof -
  consider (skip) "sm_Token m = []"
    | (fail) "sm_Token m \<noteq> []" "maxPayloadBytes < length (sm_Payload m) \<or> parsePlatform (sm_Platform m) = None \<or> parseKind (sm_Kind m) = None"
    | (go) pf kind where "sm_Token m \<noteq> []" "\<not> maxPayloadBytes < length (sm_Payload m)"
        "parsePlatform (sm_Platform m) = Some pf" "parseKind (sm_Kind m) = Some kind"
    by fastforce
  then show ?thesis
  proof cases
    case skip
    then show ?thesis by (intro run_last) (simp add: scene_simps prepare_one_def)
  next
    case fail
    then show ?thesis
      by (intro run_last) (auto simp: scene_simps prepare_one_def Let_def split: option.split)
  next
    case (go pf kind)
    let ?msg = "\<lparr>m_Token = sm_Token m, m_Kind = kind, m_Payload = sm_Payload m\<rparr>"
    obtain ok l w1 where a: "ask (FormatInt k) (pr_callLim p) (pr_world p) = (ok, l, w1)" by (metis prod_cases3)
    have b: "runs cd sched (scene_of a r (AtBind k pf ?msg ms) q srv) (scene_of a r (AtMessage k ms) (bind_message srv k pf ?msg q) srv)" for q
      by (rule run_bind)
    show ?thesis
    proof (cases "kind = KindCall")
      case True
      let ?q = "p\<lparr>pr_callLim := l, pr_world := w1\<rparr>"
      show ?thesis
      proof (cases ok)
        case ok: True
        have one: "prepare_one srv k m p = bind_message srv k pf ?msg ?q"
          using go a True ok by (simp add: prepare_one_def call_gate_def)
        show ?thesis unfolding one using go a True ok by (intro run_step[OF b[of ?q]]) (simp add: scene_simps)
      next
        case no: False
        then show ?thesis using go a True by (intro run_last) (simp add: scene_simps prepare_one_def call_gate_def)
      qed
    next
      case False
      have one: "prepare_one srv k m p = bind_message srv k pf ?msg p"
        using go False by (simp add: prepare_one_def call_gate_def)
      show ?thesis unfolding one using go False by (intro run_step[OF b[of p]]) (simp add: scene_simps)
    qed
  qed
qed

lemma run_messages:
  "runs cd sched (scene_of a r (AtMessage k ms) p srv) (scene_of a r (AtMessage k []) (prepare srv k ms p) srv)"
proof (induction ms arbitrary: p)
  case (Cons m ms)
  show ?case using rtranclp_trans[OF run_message Cons.IH] by simp
qed simp

lemma run_refunds:
  "runs cd sched (\<lparr>th_req = r, th_pc = AtRefund k is, th_results = rs, th_items = its, th_calls = cs, th_key = a\<rparr>, server_of srv s l, w)
     (\<lparr>th_req = r, th_pc = AtRefund k [], th_results = rs, th_items = its, th_calls = cs, th_key = a\<rparr>,
      server_of srv s (refundNotAttemptedCalls k is rs l), w)"
proof (induction "is" arbitrary: l)
  case (Cons i "is")
  show ?case
    by (rule run_step[OF Cons.IH[of "if m_Kind (di_msg i) = KindCall \<and> r_Status (rs ! di_resultIdx i) = StatusNotAttempted
        then Return (FormatInt k) l else l", folded refundNotAttemptedCalls.simps(2)]]) (simp add: goto_def)
qed simp

lemma run_batch:
  assumes "send_batch cd sched k ms srv w = Some d"
  shows "\<exists>th. runs cd sched (scene_of key r (AtMessage k ms) (prep0 srv w) srv) (th, sd_server d, sd_world d)
    \<and> th_pc th = AtAnswer (sd_resp d) \<and> th_calls th = sd_calls d"
proof -
  let ?p = "prepare srv k ms (prep0 srv w)"
  obtain rs c a b e f g where ds:
    "dispatch (SendConcurrency (sv_cfg srv)) (SendTimeoutSeconds (sv_cfg srv)) cd sched
       (pr_items ?p) (pr_results ?p) no_calls = Some (rs, c)"
    "tally rs = (a, b, e, f, g)" "sd_resp d = writeJSON 200 (BodyResults rs)" "sd_calls d = c_calls c"
    "sd_server d = srv\<lparr>sv_keys := pr_store ?p, sv_callLim := refundNotAttemptedCalls k (pr_items ?p) rs (pr_callLim ?p)\<rparr>"
    "sd_world d = log_print (LogSend k (length rs) a b e f g)
       ((pr_world ?p)\<lparr>w_log := w_log (pr_world ?p) @ c_log c\<rparr>)"
    using assms by (rule send_batch_parts) (rule that)
  let ?th = "\<lambda>pc. \<lparr>th_req = r, th_pc = pc, th_results = rs, th_items = pr_items ?p, th_calls = c_calls c, th_key = key\<rparr>"
  let ?w = "(pr_world ?p)\<lparr>w_log := w_log (pr_world ?p) @ c_log c\<rparr>"
  have 4: "runs cd sched (?th (AtRefund k []), sd_server d, ?w) (?th (AtAnswer (sd_resp d)), sd_server d, sd_world d)"
    by (rule run_last) (simp add: ds goto_def)
  have 3: "runs cd sched (?th (AtRefund k (pr_items ?p)), server_of srv (pr_store ?p) (pr_callLim ?p), ?w)
      (?th (AtAnswer (sd_resp d)), sd_server d, sd_world d)"
    using rtranclp_trans[OF run_refunds 4[unfolded ds(5) server_of_self]] unfolding ds(5) server_of_self .
  have 2: "runs cd sched (scene_of key r (AtPool k) ?p srv) (?th (AtAnswer (sd_resp d)), sd_server d, sd_world d)"
    by (rule run_step[OF 3]) (simp add: scene_simps ds)
  have 1: "runs cd sched (scene_of key r (AtMessage k []) ?p srv) (?th (AtAnswer (sd_resp d)), sd_server d, sd_world d)"
    by (rule run_step[OF 2]) (simp add: scene_simps)
  show ?thesis using rtranclp_trans[OF run_messages 1] ds(4) by (intro exI[of _ "?th (AtAnswer (sd_resp d))"]) simp
qed

text \<open>From scene \<open>x\<close> the thread runs to the answer \<open>d\<close> describes.\<close>

definition answers :: "bool \<Rightarrow> pool_event list \<Rightarrow> scene \<Rightarrow> served \<Rightarrow> bool" where
  "answers cd sched x d \<longleftrightarrow> (\<exists>th. runs cd sched x (th, sd_server d, sd_world d) \<and>
     th_pc th = AtAnswer (sd_resp d) \<and> th_calls th = sd_calls d)"

abbreviation keyed :: "int option \<Rightarrow> Request \<Rightarrow> handler_pc \<Rightarrow> hthread" where
  "keyed a r pc \<equiv> \<lparr>th_req = r, th_pc = pc, th_results = [], th_items = [], th_calls = [], th_key = a\<rparr>"

abbreviation bare :: "Request \<Rightarrow> handler_pc \<Rightarrow> hthread" where
  "bare \<equiv> keyed None"

lemma answers_step: "answers cd sched y d \<Longrightarrow> thread_step cd sched (th_pc (fst x)) x = Some y \<Longrightarrow> answers cd sched x d"
  unfolding answers_def using run_step by blast

lemma answers_now: "answers cd sched (keyed a r (AtAnswer resp), srv, w) (answer_with resp srv w)"
  unfolding answers_def by (intro exI[of _ "keyed a r (AtAnswer resp)"]) simp

lemma answers_batch:
  "send_batch cd sched k ms srv w = Some d \<Longrightarrow> answers cd sched (keyed a r (AtMessage k ms), srv, w) d"
  using run_batch[of cd sched k ms srv w d a r] by (simp add: answers_def scene_of_def server_of_id)

lemma answers_limit:
  assumes "handleSend cd sched r srv w = Some d" "bearerToken r \<noteq> []" "Verify (bearerToken r) (sv_keys srv) w = (Inr k, s1, w2)"
  shows "answers cd sched (bare r (AtLimit k), srv\<lparr>sv_keys := s1\<rparr>, w2) d"
proof -
  obtain ok l w3 where a: "ask (FormatInt (ID k)) (sv_sendLim srv) w2 = (ok, l, w3)" by (metis prod_cases3)
  let ?srv2 = "srv\<lparr>sv_keys := s1, sv_sendLim := l\<rparr>"
  show ?thesis
  proof (cases "ok \<and> (\<exists>req. decode_sendReq r = Decoded req \<and> int (length (Messages req)) \<le> MaxMessages (sv_cfg srv))")
    case True
    then obtain req :: sendReq where req: "decode_sendReq r = Decoded req" "int (length (Messages req)) \<le> MaxMessages (sv_cfg srv)"
      by blast
    then have "send_batch cd sched (ID k) (Messages req) ?srv2 w3 = Some d"
      using assms a True by (simp add: handleSend_def)
    from answers_batch[OF this, of r "Some (ID k)"] show ?thesis
      by (rule answers_step) (use a True req in \<open>simp add: goto_def\<close>)
  next
    case False
    then have d: "d = answer_with (if \<not> ok then writeErr 429 ''rate limit exceeded''
        else case decode_sendReq r of Decoded req \<Rightarrow> writeErr 400 ''too many messages in one request''
           | _ \<Rightarrow> writeErr 400 ''invalid body'') ?srv2 w3"
      using assms a by (auto simp: handleSend_def Let_def split: decoded.splits if_splits)
    show ?thesis unfolding d
      by (rule answers_step[OF answers_now[where a = "if ok then Some (ID k) else None"]]) (use a False in \<open>auto simp: goto_def split: decoded.splits\<close>)
  qed
qed

lemma send_alone:
  assumes "handleSend cd sched r srv w = Some d"
  shows "answers cd sched (bare r AtVerify, srv, w) d"
proof (cases "bearerToken r = []")
  case True
  then have "d = answer_with (writeErr 401 ''missing bearer key'') srv w" using assms by (simp add: handleSend_def)
  then show ?thesis
    using answers_step[OF answers_now[of cd sched r]] True by (simp add: goto_def)
next
  case bt: False
  obtain x w1 where x: "verify_select (bearerToken r) (sv_keys srv) w = (x, w1)" by fastforce
  show ?thesis
  proof (cases x)
    case (Inl e)
    then have d: "d = (if e = ErrNotFound then answer_with (writeErr 401 ''invalid or revoked key'') srv w1
        else answer_with (writeErr 500 ''server error'') srv (log_print LogVerifyKey w1))"
      using assms bt x by (simp add: handleSend_def Verify_split split: if_splits)
    show ?thesis unfolding d
      using answers_step[OF answers_now[of cd sched r]] bt x Inl by (simp add: goto_def)
  next
    case (Inr k0)
    obtain k s1 w2 where k: "verify_stamp k0 (sv_keys srv) w1 = (k, s1, w2)" by (metis prod_cases3)
    then have "Verify (bearerToken r) (sv_keys srv) w = (Inr k, s1, w2)" using x Inr by (simp add: Verify_split)
    from answers_limit[OF assms bt this] have "answers cd sched (bare r (AtStamp k0), srv, w1) d"
      by (rule answers_step) (simp add: k goto_def)
    then show ?thesis by (rule answers_step) (use bt x Inr in \<open>simp add: goto_def\<close>)
  qed
qed

text \<open>The handlers that push nothing answer in their last step.\<close>

lemma answers_last:
  assumes "thread_step cd sched pc (bare r pc, srv, w) = Some (bare r (AtAnswer (sd_resp d)), sd_server d, sd_world d)" "sd_calls d = []"
  shows "answers cd sched (bare r pc, srv, w) d"
proof -
  have "answers cd sched (bare r (AtAnswer (sd_resp d)), sd_server d, sd_world d) d"
    unfolding answers_def using assms(2) by (intro exI[of _ "bare r (AtAnswer (sd_resp d))"]) simp
  then show ?thesis by (rule answers_step) (use assms(1) in simp)
qed

lemma handleRegister_issue:
  assumes "ask (clientIP (sv_cfg srv) r) (sv_registerLim srv) w = (True, l, w1)" "register_body r = AtIssue lab"
  shows "handleRegister r srv w = (let srv1 = srv\<lparr>sv_registerLim := l\<rparr> in
     case Issue lab (MaxRegistrations (sv_cfg srv)) (sv_keys srv) w1 of
       (Inl e, s, w2) \<Rightarrow>
         if e = ErrRegistrationCeiling
         then answer_with (writeErr 403 ''relay has reached its maximum number of registrations'') (srv1\<lparr>sv_keys := s\<rparr>) w2
         else answer_with (writeErr 500 ''could not issue key'') (srv1\<lparr>sv_keys := s\<rparr>) (log_print LogIssueKey w2)
     | (Inr key, s, w2) \<Rightarrow> answer_with (writeJSON 200 (BodyKey key)) (srv1\<lparr>sv_keys := s\<rparr>) (log_print (LogIssued lab) w2))"
  using assms by (cases "decode_registerReq r") (simp_all add: handleRegister_def register_body_def Let_def split: prod.split sum.split)

lemma register_alone: "answers cd sched (bare r AtRegister, srv, w) (handleRegister r srv w)"
proof -
  obtain ok l w1 where a: "ask (clientIP (sv_cfg srv) r) (sv_registerLim srv) w = (ok, l, w1)" by (metis prod_cases3)
  show ?thesis
  proof (cases "\<exists>lab. ok \<and> register_body r = AtIssue lab")
    case True
    then obtain lab where lab: "ask (clientIP (sv_cfg srv) r) (sv_registerLim srv) w = (True, l, w1)" "register_body r = AtIssue lab"
      using a by auto
    have "answers cd sched (bare r (AtIssue lab), srv\<lparr>sv_registerLim := l\<rparr>, w1) (handleRegister r srv w)"
      unfolding handleRegister_issue[OF lab]
      by (rule answers_last) (simp_all add: goto_def Let_def split: prod.split sum.split)
    then show ?thesis by (rule answers_step) (use lab in \<open>simp add: goto_def\<close>)
  next
    case False
    then show ?thesis using a
      by (cases ok; cases "decode_registerReq r"; intro answers_last)
        (simp_all add: goto_def handleRegister_def register_body_def)
  qed
qed

lemma list_alone: "answers cd sched (bare r AtList, srv, w) (handleAdminListKeys r srv w)"
  by (rule answers_last) (simp_all add: goto_def handleAdminListKeys_def split: prod.split sum.split)

lemma revoke_alone:
  "answers cd sched (bare r (case ParseInt path_id of None \<Rightarrow> AtAnswer (writeErr 400 ''invalid id'') | Some i \<Rightarrow> AtRevoke i), srv, w)
     (handleAdminRevokeKey path_id r srv w)"
proof (cases "ParseInt path_id")
  case None
  then show ?thesis using answers_now by (simp add: handleAdminRevokeKey_def)
next
  case (Some i)
  have "answers cd sched (bare r (AtRevoke i), srv, w) (handleAdminRevokeKey path_id r srv w)"
    by (rule answers_last) (use Some in \<open>auto simp: goto_def handleAdminRevokeKey_def split: prod.split option.split\<close>)
  then show ?thesis using Some by simp
qed

lemma thread_alone:
  assumes "serve cd sched r srv w = Some d"
  shows "answers cd sched (new_thread r, srv, w) d"
proof -
  have "answers cd sched (bare r (routed (sv_cfg srv) r), srv, w) d"
    using assms send_alone register_alone list_alone revoke_alone answers_now
    by (cases "route_of (sv_cfg srv) (rq_method r) (rq_path r)")
      (auto simp: serve_def routed_def requireAdmin_def handleHealth_def Let_def option.map_ident)
  then show ?thesis by (rule answers_step) (simp add: goto_def new_thread_def)
qed

section \<open>A thread never stalls and always ends\<close>

definition batch_size :: "Request \<Rightarrow> nat" where
  "batch_size r = (case decode_sendReq r of Decoded req \<Rightarrow> length (Messages req) | _ \<Rightarrow> 0)"

text \<open>The steps a thread has left, at most: up to five for each message.\<close>

fun steps_left :: "handler_pc \<Rightarrow> nat \<Rightarrow> nat \<Rightarrow> nat" where
  "steps_left AtRoute items batch = 7 + items + 5 * batch"
| "steps_left AtRegister items batch = 2"
| "steps_left (AtIssue _) items batch = 1"
| "steps_left AtList items batch = 1"
| "steps_left (AtRevoke _) items batch = 1"
| "steps_left AtVerify items batch = 6 + items + 5 * batch"
| "steps_left (AtStamp _) items batch = 5 + items + 5 * batch"
| "steps_left (AtLimit _) items batch = 4 + items + 5 * batch"
| "steps_left (AtMessage _ ms) items batch = 3 + items + 5 * length ms"
| "steps_left (AtBind _ _ _ ms) items batch = 7 + items + 5 * length ms"
| "steps_left (AtPrune _ _ _ _ ms) items batch = 6 + items + 5 * length ms"
| "steps_left (AtDelete _ _ _ _ ms) items batch = 5 + items + 5 * length ms"
| "steps_left (AtPool _) items batch = 2 + items"
| "steps_left (AtRefund _ is) items batch = 1 + length is"
| "steps_left (AtAnswer _) items batch = 0"

definition work :: "hthread \<Rightarrow> nat" where
  "work th = steps_left (th_pc th) (length (th_items th)) (batch_size (th_req th))"

definition answered :: "hthread \<Rightarrow> bool" where
  "answered th \<longleftrightarrow> (\<exists>resp. th_pc th = AtAnswer resp)"

lemma work_new: "work (new_thread r) = 7 + 5 * batch_size r"
  by (simp add: work_def new_thread_def)

lemma routed_work: "steps_left (routed cfg r) items batch < 7 + items + 5 * batch"
  by (simp add: routed_def Let_def split: route.split option.split)

lemma register_body_work: "steps_left (register_body r) items batch < 2"
  by (simp add: register_body_def split: decoded.split)

lemma after_bind_work:
  "work (after_bind srv k pf msg ow ms th) < 5 + length (th_items th) + 5 * length ms"
  by (simp add: work_def after_bind_def note_result_def note_item_def goto_def)

lemma thread_step_work:
  assumes "thread_step cd sched (th_pc th) (th, srv, w) = Some (th', srv', w')"
  shows "work th' < work th"
proof (cases "th_pc th")
  case AtRoute
  then show ?thesis using assms routed_work by (auto simp: work_def)
next
  case AtRegister
  then show ?thesis using assms register_body_work by (auto simp: work_def split: prod.splits)
next
  case (AtLimit k)
  then show ?thesis using assms by (auto simp: work_def batch_size_def split: prod.splits decoded.splits)
next
  case (AtMessage k ms)
  then show ?thesis
    using assms by (cases ms) (auto simp: work_def note_result_def Let_def split: if_splits prod.splits option.splits)
next
  case (AtBind k pf msg ms)
  then show ?thesis using assms by (auto simp: work_def note_result_def split: prod.splits sum.splits)
next
  case (AtPrune k pf msg ow ms)
  then show ?thesis
    using assms after_bind_work[of srv k pf msg ow ms th] by (auto simp: work_def[of th] split: prod.splits) (simp add: work_def)
next
  case (AtDelete k pf msg ow ms)
  then show ?thesis using assms after_bind_work[of srv k pf msg ow ms th] by (auto simp: work_def[of th] split: prod.splits)
next
  case (AtRefund k "is")
  then show ?thesis using assms by (cases "is") (auto simp: work_def split: prod.splits)
qed (use assms in \<open>auto simp: work_def Let_def split: if_splits prod.splits sum.splits option.splits\<close>)

lemma thread_step_total:
  assumes "\<not> answered th"
  shows "\<exists>sched y. CtxDone \<notin> set sched \<and> thread_step cd sched (th_pc th) (th, srv, w) = Some y"
proof (cases "\<exists>k. th_pc th = AtPool k")
  case True
  then show ?thesis
    using dispatch_completes[of "SendConcurrency (sv_cfg srv)" "SendTimeoutSeconds (sv_cfg srv)" cd "th_items th" "th_results th" no_calls]
    by (fastforce split: option.split)
next
  case False
  have "\<exists>y. thread_step cd [] (th_pc th) (th, srv, w) = Some y"
  proof (cases "th_pc th")
    case (AtMessage k ms)
    then show ?thesis by (cases ms) (auto simp: Let_def split: prod.split option.split)
  next
    case (AtRefund k "is")
    then show ?thesis by (cases "is") (auto split: prod.split)
  qed (use False assms in \<open>auto simp: answered_def Let_def split: prod.split sum.split option.split\<close>)
  then show ?thesis by (metis empty_iff list.set(1))
qed

section \<open>The world moves on\<close>

text \<open>The clock is not read backwards, the log only grows, and the driver stays what it is.\<close>

definition onward :: "world \<Rightarrow> world \<Rightarrow> bool" where
  "onward w w' \<longleftrightarrow> later UNIV w w' \<and> w_db w' = w_db w"

lemma onward_refl [simp]: "onward w w"
  by (simp add: onward_def)

lemma onward_log [simp]: "onward w (log_print l w') \<longleftrightarrow> onward w w'" if "w_log w' = w_log w" for w'
  using that by (auto simp: onward_def later_def log_print_def)

lemma onward_ops:
  "ask key l w = (ok, l', w') \<Longrightarrow> onward w w' \<and> w_log w' = w_log w"
  "Issue lab mx s w = (r, s', w') \<Longrightarrow> onward w w' \<and> w_log w' = w_log w"
  "List_keys s w = (ks, w') \<Longrightarrow> onward w w' \<and> w_log w' = w_log w"
  "Revoke i s w = (e, s', w') \<Longrightarrow> onward w w' \<and> w_log w' = w_log w"
  "verify_select plain s w = (v, w') \<Longrightarrow> onward w w' \<and> w_log w' = w_log w"
  "verify_stamp k s w = (k', s', w') \<Longrightarrow> onward w w' \<and> w_log w' = w_log w"
  "bind_tx kid pf t s w = (b, s', w') \<Longrightarrow> onward w w' \<and> w_log w' = w_log w"
  "prune_gate ret s w = (due, s', w') \<Longrightarrow> onward w w' \<and> w_log w' = w_log w"
  by (auto simp: onward_def later_def world_defs Let_def ask_def Issue_def List_keys_def Revoke_def verify_select_def
      verify_stamp_def bind_tx_def prune_gate_def
      split: prod.splits sum.splits option.splits db_out.splits if_splits)

lemma onward_delete: "prune_delete ret s w = (s', w') \<Longrightarrow> onward w w'"
  by (auto simp: onward_def later_def world_defs Let_def prune_delete_def split: prod.splits db_out.splits)

lemma thread_step_onward:
  assumes "thread_step cd sched pc (th, srv, w) = Some (th', srv', w')"
  shows "onward w w'"
proof (cases pc)
  case (AtMessage k ms)
  then show ?thesis
    using assms by (cases ms) (auto simp: Let_def dest: onward_ops split: if_splits prod.splits option.splits)
next
  case (AtRefund k "is")
  then show ?thesis using assms by (cases "is") (auto split: prod.splits)
next
  case (AtPool k)
  then show ?thesis using assms by (auto simp: onward_def later_def split: option.splits)
qed (use assms in \<open>auto simp: Let_def dest: onward_ops onward_delete split: if_splits prod.splits sum.splits option.splits\<close>)

end
