(* ===== verification/Concurrent.thy ===== *)
theory Concurrent
  imports Handler_Thread
begin

text \<open>
  Requests at the same time: any number of threads of \<open>Handler_Thread\<close> take their critical
  sections in any order while further requests of any kind arrive. The invariant ties what a
  thread goes on, a verified key, an owned token, the admin token, to a moment of the store's
  history since its request arrived.
\<close>

section \<open>Many threads\<close>

text \<open>The calls of the limiters a step makes, with the readings of the clock.\<close>

datatype limiter_name = RegisterLim | SendLim | CallLim

definition asks_call :: "sendMessage \<Rightarrow> bool" where
  "asks_call m \<longleftrightarrow> sm_Token m \<noteq> [] \<and> length (sm_Payload m) \<le> maxPayloadBytes \<and> parsePlatform (sm_Platform m) \<noteq> None \<and>
     parseKind (sm_Kind m) = Some KindCall"

fun limiter_ops :: "handler_pc \<Rightarrow> scene \<Rightarrow> (limiter_name \<times> lim_op) list" where
  "limiter_ops AtRegister (th, srv, w) = [(RegisterLim, DoAllow (clientIP (sv_cfg srv) (th_req th)) (fst (time_now w)))]"
| "limiter_ops (AtLimit k) (th, srv, w) = [(SendLim, DoAllow (FormatInt (ID k)) (fst (time_now w)))]"
| "limiter_ops (AtMessage keyID (m # ms)) (th, srv, w) =
     (if asks_call m then [(CallLim, DoAllow (FormatInt keyID) (fst (time_now w)))] else [])"
| "limiter_ops (AtRefund keyID (i # is)) (th, srv, w) =
     (if m_Kind (di_msg i) = KindCall \<and> r_Status (th_results th ! di_resultIdx i) = StatusNotAttempted
      then [(CallLim, DoReturn (FormatInt keyID))] else [])"
| "limiter_ops _ _ = []"

text \<open>
  All requests under way, each with the moment it arrived at, and what they share. Two
  histories: moment \<open>j\<close> of the store is \<open>cc_past ! j\<close>, the last one is now; and the calls of the
  limiters in the order they were made.
\<close>

record conc =
  cc_threads :: "(nat \<times> hthread) list"
  cc_server :: Server
  cc_world :: world
  cc_past :: "Store list"
  cc_ops :: "(limiter_name \<times> lim_op) list"

inductive conc_step :: "conc \<Rightarrow> conc \<Rightarrow> bool" where
  arrive: "conc_step c (c\<lparr>cc_threads := cc_threads c @ [(length (cc_past c) - 1, new_thread r)]\<rparr>)"
| thread: "i < length (cc_threads c) \<Longrightarrow> cc_threads c ! i = (n, th) \<Longrightarrow>
    thread_step cd sched (th_pc th) (th, cc_server c, cc_world c) = Some (th', srv', w') \<Longrightarrow>
    conc_step c (c\<lparr>cc_threads := (cc_threads c)[i := (n, th')], cc_server := srv', cc_world := w',
                   cc_past := cc_past c @ [sv_keys srv'],
                   cc_ops := cc_ops c @ limiter_ops (th_pc th) (th, cc_server c, cc_world c)\<rparr>)"

definition conc_start :: "conc \<Rightarrow> bool" where
  "conc_start c \<longleftrightarrow> cc_threads c = [] \<and> cc_past c = [sv_keys (cc_server c)] \<and> cc_ops c = []"

interpretation conc: step_system conc_start conc_step .

text \<open>At some moment since \<open>n\<close> the key was valid, or the token was bound to it.\<close>

definition valid_since :: "Store list \<Rightarrow> nat \<Rightarrow> bytes \<Rightarrow> int \<Rightarrow> bool" where
  "valid_since past n plain k \<longleftrightarrow> (\<exists>j row. n \<le> j \<and> j < length past \<and>
     sql_select_key (hashKey plain) (s_db (past ! j)) = Some row \<and> k_revoked row = None \<and> k_id row = k)"

definition owned_since :: "Store list \<Rightarrow> nat \<Rightarrow> int \<Rightarrow> Platform \<Rightarrow> bytes \<Rightarrow> bool" where
  "owned_since past n k pf token \<longleftrightarrow> (\<exists>j. n \<le> j \<and> j < length past \<and> owner_of (past ! j) (platform_str pf) token = Some k)"

lemma since_append:
  "valid_since past n plain k \<Longrightarrow> valid_since (past @ new) n plain k"
  "owned_since past n k pf token \<Longrightarrow> owned_since (past @ new) n k pf token"
  unfolding valid_since_def owned_since_def by (metis length_append nth_append trans_less_add1)+

definition prepared :: "Request \<Rightarrow> Platform \<Rightarrow> Message \<Rightarrow> bool" where
  "prepared r pf msg \<longleftrightarrow> (\<exists>req. decode_sendReq r = Decoded req \<and> (\<exists>m \<in> set (Messages req).
     sm_Token m \<noteq> [] \<and> length (sm_Payload m) \<le> maxPayloadBytes \<and> parsePlatform (sm_Platform m) = Some pf \<and>
     parseKind (sm_Kind m) = Some (m_Kind msg) \<and> m_Token msg = sm_Token m \<and> m_Payload msg = sm_Payload m))"

definition from_request :: "Request \<Rightarrow> sendMessage list \<Rightarrow> bool" where
  "from_request r ms \<longleftrightarrow> (\<exists>req. decode_sendReq r = Decoded req \<and> set ms \<subseteq> set (Messages req))"

definition pushable :: "Server \<Rightarrow> Store list \<Rightarrow> nat \<Rightarrow> Request \<Rightarrow> dispatchItem \<Rightarrow> bool" where
  "pushable srv past n r i \<longleftrightarrow> (\<exists>k pf. valid_since past n (bearerToken r) k \<and> prepared r pf (di_msg i) \<and>
     owned_since past n k pf (m_Token (di_msg i)) \<and> di_sender i = sender_for srv pf)"

text \<open>Only the admin token leads to the admin handlers.\<close>

definition is_admin :: "Config \<Rightarrow> Request \<Rightarrow> bool" where
  "is_admin cfg r \<longleftrightarrow> AdminToken cfg \<noteq> [] \<and> bearerToken r = AdminToken cfg"

text \<open>A request to revoke the key with number \<open>i\<close>, and a store in which it is revoked.\<close>

definition asks_revoke :: "Config \<Rightarrow> Request \<Rightarrow> int \<Rightarrow> bool" where
  "asks_revoke cfg r i \<longleftrightarrow> (\<exists>path_id. route_of cfg (rq_method r) (rq_path r) = RRevoke path_id \<and> ParseInt path_id = Some i)"

definition revoked_in :: "Store \<Rightarrow> int \<Rightarrow> bool" where
  "revoked_in s i \<longleftrightarrow> (\<exists>row \<in> set (keys_tab (s_db s)). k_id row = i \<and> k_revoked row \<noteq> None)"

lemma Revoke_revokes:
  assumes "Revoke i s w = (None, s', w')"
  shows "revoked_in s' i"
proof -
  obtain u where u: "s_db s' = snd (sql_revoke u i (s_db s))" "filter (revocable i) (keys_tab (s_db s)) \<noteq> []"
    using assms by (auto simp: Revoke_def sql_revoke_def split: prod.splits db_out.splits if_splits)
  then obtain row where row: "row \<in> set (keys_tab (s_db s))" "revocable i row" by (auto simp: filter_empty_conv)
  have "row\<lparr>k_revoked := Some u\<rparr> \<in> set (keys_tab (s_db s'))" using u(1) row by (force simp: sql_revoke_def)
  then show ?thesis unfolding revoked_in_def using row(2) by (intro bexI) (auto simp: revocable_def)
qed

definition lists_keys :: "Response \<Rightarrow> bool" where
  "lists_keys resp \<longleftrightarrow> (\<exists>ks. rs_body resp = BodyKeys ks)"

definition has_results :: "Response \<Rightarrow> bool" where
  "has_results resp \<longleftrightarrow> (\<exists>rs. rs_body resp = BodyResults rs)"

lemma has_results_simps [simp]:
  "\<not> has_results (writeErr st e)" "has_results (writeJSON st b) \<longleftrightarrow> (\<exists>rs. b = BodyResults rs)"
  "has_results \<lparr>rs_status = st, rs_body = b\<rparr> \<longleftrightarrow> (\<exists>rs. b = BodyResults rs)"
  by (auto simp: has_results_def writeErr_def writeJSON_def)

lemma lists_keys_simps [simp]:
  "\<not> lists_keys (writeErr st e)" "lists_keys (writeJSON st b) \<longleftrightarrow> (\<exists>ks. b = BodyKeys ks)"
  "lists_keys \<lparr>rs_status = st, rs_body = b\<rparr> \<longleftrightarrow> (\<exists>ks. b = BodyKeys ks)"
  by (auto simp: lists_keys_def writeErr_def writeJSON_def)

fun pc_ok :: "Config \<Rightarrow> Store list \<Rightarrow> nat \<Rightarrow> Request \<Rightarrow> handler_pc \<Rightarrow> bool" where
  "pc_ok cfg past n r (AtStamp k) \<longleftrightarrow> valid_since past n (bearerToken r) (ID k)"
| "pc_ok cfg past n r (AtLimit k) \<longleftrightarrow> valid_since past n (bearerToken r) (ID k)"
| "pc_ok cfg past n r (AtMessage k ms) \<longleftrightarrow> valid_since past n (bearerToken r) k \<and> from_request r ms"
| "pc_ok cfg past n r (AtBind k pf msg ms) \<longleftrightarrow> valid_since past n (bearerToken r) k \<and> from_request r ms \<and> prepared r pf msg"
| "pc_ok cfg past n r (AtPrune k pf msg ow ms) \<longleftrightarrow> valid_since past n (bearerToken r) k \<and> from_request r ms \<and>
     prepared r pf msg \<and> owned_since past n ow pf (m_Token msg)"
| "pc_ok cfg past n r (AtDelete k pf msg ow ms) \<longleftrightarrow> valid_since past n (bearerToken r) k \<and> from_request r ms \<and>
     prepared r pf msg \<and> owned_since past n ow pf (m_Token msg)"
| "pc_ok cfg past n r AtList \<longleftrightarrow> is_admin cfg r"
| "pc_ok cfg past n r (AtRevoke i) \<longleftrightarrow> is_admin cfg r \<and> asks_revoke cfg r i"
| "pc_ok cfg past n r (AtPool k) \<longleftrightarrow> valid_since past n (bearerToken r) k"
| "pc_ok cfg past n r (AtRefund k is) \<longleftrightarrow> valid_since past n (bearerToken r) k"
| "pc_ok cfg past n r (AtAnswer resp) \<longleftrightarrow> (lists_keys resp \<longrightarrow> is_admin cfg r) \<and>
     (has_results resp \<longrightarrow> (\<exists>k. valid_since past n (bearerToken r) k)) \<and>
     (rs_status resp = 204 \<longrightarrow> (\<exists>i j. asks_revoke cfg r i \<and> j < length past \<and> revoked_in (past ! j) i))"
| "pc_ok cfg past n r _ \<longleftrightarrow> True"

fun pushed :: "handler_pc \<Rightarrow> bool" where
  "pushed (AtRefund _ _) = True"
| "pushed (AtAnswer _) = True"
| "pushed _ = False"

definition thread_ok :: "Server \<Rightarrow> Store list \<Rightarrow> nat \<Rightarrow> hthread \<Rightarrow> bool" where
  "thread_ok srv past n th \<longleftrightarrow> pc_ok (sv_cfg srv) past n (th_req th) (th_pc th) \<and>
     (\<not> pushed (th_pc th) \<longrightarrow> items_ok (th_items th) (th_results th) \<and> th_calls th = []) \<and>
     (\<forall>k. th_key th = Some k \<longrightarrow> valid_since past n (bearerToken (th_req th)) k) \<and>
     (\<forall>i \<in> set (th_items th). pushable srv past n (th_req th) i) \<and>
     (\<forall>x \<in> set (th_calls th). \<exists>i \<in> set (th_items th). call_of (di_sender i) (di_msg i) x)"

lemma revoked_append: "j < length past \<Longrightarrow> revoked_in (past ! j) i \<Longrightarrow> j < length (past @ new) \<and> revoked_in ((past @ new) ! j) i"
  by (simp add: nth_append)

lemma pc_ok_append: "pc_ok cfg past n r pc \<Longrightarrow> pc_ok cfg (past @ new) n r pc"
proof (cases pc)
  case (AtAnswer resp)
  assume "pc_ok cfg past n r pc"
  then show ?thesis
    unfolding AtAnswer pc_ok.simps using since_append(1)[of past n "bearerToken r" _ new] revoked_append[of _ past _ new] by blast
qed (auto intro: since_append)

lemma pushable_append: "pushable srv past n r i \<Longrightarrow> pushable srv (past @ new) n r i"
  unfolding pushable_def using since_append by blast

lemma thread_ok_append: "thread_ok srv past n th \<Longrightarrow> thread_ok srv (past @ new) n th"
  unfolding thread_ok_def using pc_ok_append pushable_append since_append(1) by blast

text \<open>The provider clients and the configuration never change.\<close>

definition same_senders :: "Server \<Rightarrow> Server \<Rightarrow> bool" where
  "same_senders srv srv' \<longleftrightarrow> sv_ios srv' = sv_ios srv \<and> sv_android srv' = sv_android srv \<and> sv_cfg srv' = sv_cfg srv"

lemma same_senders_simps [simp]:
  "same_senders srv srv" "same_senders srv (srv\<lparr>sv_keys := s\<rparr>)" "same_senders srv (srv\<lparr>sv_sendLim := l\<rparr>)"
  "same_senders srv (srv\<lparr>sv_callLim := l\<rparr>)" "same_senders srv (srv\<lparr>sv_registerLim := l\<rparr>)"
  by (simp_all add: same_senders_def)

lemma routed_ok: "pc_ok cfg past n r (routed cfg r)"
  by (auto simp: routed_def route_of_def on_method_def is_admin_def asks_revoke_def Let_def split: if_splits option.splits)

lemma register_body_ok: "pc_ok cfg past n r (register_body r)"
  by (simp add: register_body_def split: decoded.split)

lemma thread_ok_senders: "same_senders srv srv' \<Longrightarrow> thread_ok srv' past n th \<longleftrightarrow> thread_ok srv past n th"
  by (simp add: same_senders_def thread_ok_def pushable_def sender_for_def)

section \<open>A step keeps a thread sound\<close>

lemma prune_gate_steps: "prune_gate ret s w = (due, s', w') \<Longrightarrow> (store_step mx)\<^sup>*\<^sup>* s s'"
  by (auto simp: prune_gate_def intro!: r_into_rtranclp step_mark split: prod.splits if_splits)

lemma prune_delete_steps: "prune_delete ret s w = (s', w') \<Longrightarrow> (store_step mx)\<^sup>*\<^sup>* s s'"
  by (auto simp: prune_delete_def Let_def write_if_def intro: r_into_rtranclp[of "store_step mx", OF step_delete] split: prod.splits db_out.splits)

lemma verify_stamp_steps: "verify_stamp k s w = (k', s', w') \<Longrightarrow> (store_step mx)\<^sup>*\<^sup>* s s' \<and> ID k' = ID k"
  by (auto simp: verify_stamp_def Let_def write_if_def intro: r_into_rtranclp[of "store_step mx", OF step_stamp] split: prod.splits db_out.splits)

lemma note_sel [simp]:
  "th_pc (note_result t st th) = th_pc th" "th_req (note_result t st th) = th_req th"
  "th_items (note_result t st th) = th_items th" "th_calls (note_result t st th) = th_calls th"
  "th_results (note_result t st th) = th_results th @ [\<lparr>r_Token = t, r_Status = st\<rparr>]"
  "th_pc (note_item s m th) = th_pc th" "th_req (note_item s m th) = th_req th" "th_calls (note_item s m th) = th_calls th"
  "th_items (note_item s m th) = th_items th @ [\<lparr>di_resultIdx = length (th_results th), di_sender = s, di_msg = m\<rparr>]"
  "th_key (note_result t st th) = th_key th" "th_key (note_item s m th) = th_key th"
  "th_results (note_item s m th) = th_results th @ [\<lparr>r_Token = [], r_Status = StatusUnset\<rparr>]"
  by (simp_all add: note_result_def note_item_def)

lemma thread_step_store:
  assumes "thread_step cd sched pc (th, srv, w) = Some (th', srv', w')"
  shows "steps_of srv (sv_keys srv) (sv_keys srv')"
proof (cases pc)
  case (AtIssue lab)
  then show ?thesis using assms by (auto split: prod.splits sum.splits if_splits intro!: r_into_rtranclp step_issue)
next
  case (AtRevoke i)
  then show ?thesis using assms by (auto split: prod.splits option.splits if_splits intro!: r_into_rtranclp step_revoke)
next
  case (AtBind k pf msg ms)
  then show ?thesis using assms by (auto split: prod.splits sum.splits intro!: r_into_rtranclp step_bind)
next
  case (AtMessage k ms)
  then show ?thesis using assms by (cases ms) (auto simp: Let_def split: if_splits prod.splits option.splits)
next
  case (AtRefund k "is")
  then show ?thesis using assms by (cases "is") (auto split: prod.splits)
qed (use assms in \<open>auto simp: Let_def dest: prune_gate_steps prune_delete_steps verify_stamp_steps
      split: if_splits prod.splits sum.splits option.splits\<close>)

lemma thread_step_frame:
  assumes "thread_step cd sched pc (th, srv, w) = Some (th', srv', w')"
  shows "th_req th' = th_req th" "same_senders srv srv'"
  using assms
  by (cases "(cd, sched, pc, (th, srv, w))" rule: thread_step.cases;
      auto simp: Let_def after_bind_def split: if_splits prod.splits sum.splits option.splits)+

lemma verify_select_valid:
  assumes "verify_select plain (last past) w = (Inr k, w')" "n < length past"
  shows "valid_since past n plain (ID k)"
proof -
  obtain row where "sql_select_key (hashKey plain) (s_db (last past)) = Some row" "k_revoked row = None" "k_id row = ID k"
    using assms(1) by (cases "sql_select_key (hashKey plain) (s_db (last past))")
      (auto simp: verify_select_def split: prod.splits db_out.splits if_splits)
  moreover have "last past = past ! (length past - 1)" using assms(2) by (intro last_conv_nth) auto
  ultimately show ?thesis using assms(2) unfolding valid_since_def by (intro exI[of _ "length past - 1"]) auto
qed

lemma bind_tx_owned:
  assumes "bind_tx k (platform_str pf) t s w = (Inr ow, s', w')" "n \<le> length past"
  shows "owned_since (past @ [s']) n ow pf t"
  unfolding owned_since_def using bind_tx_owner(1)[OF assms(1)] assms(2) by (intro exI[of _ "length past"]) simp

lemma items_ok_result: "items_ok its rs \<Longrightarrow> items_ok its (rs @ [x])"
  by (auto simp: items_ok_def nth_append)

lemma items_ok_item:
  "items_ok its rs \<Longrightarrow> items_ok (its @ [\<lparr>di_resultIdx = length rs, di_sender = s, di_msg = m\<rparr>]) (rs @ [\<lparr>r_Token = [], r_Status = StatusUnset\<rparr>])"
  by (fastforce simp: items_ok_def nth_append)

text \<open>What a step of the loop leaves: a failed message, or an item for a token the key was seen to own.\<close>

lemma thread_ok_goto:
  assumes "thread_ok srv past n th" "\<not> pushed (th_pc th)" "pc_ok (sv_cfg srv) past n (th_req th) pc"
  shows "thread_ok srv past n (goto pc th)"
    and "thread_ok srv past n (goto pc (note_result t st th))"
  using assms by (auto simp: thread_ok_def items_ok_result)

lemma thread_ok_key:
  "thread_ok srv past n th \<Longrightarrow> valid_since past n (bearerToken (th_req th)) k \<Longrightarrow> thread_ok srv past n (th\<lparr>th_key := Some k\<rparr>)"
  by (simp add: thread_ok_def)

lemma thread_ok_item:
  assumes "thread_ok srv past n th" "\<not> pushed (th_pc th)" "pc_ok (sv_cfg srv) past n (th_req th) pc"
    "valid_since past n (bearerToken (th_req th)) k" "prepared (th_req th) pf msg" "owned_since past n k pf (m_Token msg)"
  shows "thread_ok srv past n (goto pc (note_item (sender_for srv pf) msg th))"
  using assms by (auto simp: thread_ok_def items_ok_item pushable_def)

lemma thread_ok_after_bind:
  assumes "thread_ok srv past n th" "\<not> pushed (th_pc th)" "pc_ok (sv_cfg srv) past n (th_req th) (AtDelete k pf msg ow ms)"
  shows "thread_ok srv past n (after_bind srv k pf msg ow ms th)"
  using assms thread_ok_goto(2)[OF assms(1,2)] thread_ok_item[OF assms(1,2)] by (auto simp: after_bind_def)

lemma from_request_head:
  "from_request r (m # ms) \<Longrightarrow> sm_Token m \<noteq> [] \<Longrightarrow> \<not> maxPayloadBytes < length (sm_Payload m) \<Longrightarrow>
   parsePlatform (sm_Platform m) = Some pf \<Longrightarrow> parseKind (sm_Kind m) = Some kind \<Longrightarrow>
   prepared r pf \<lparr>m_Token = sm_Token m, m_Kind = kind, m_Payload = sm_Payload m\<rparr>"
  "from_request r (m # ms) \<Longrightarrow> from_request r ms"
  by (auto simp: from_request_def prepared_def not_less intro: bexI[of _ m])

lemma dispatch_call_items:
  assumes "dispatch conc tmo cd sched items rs no_calls = Some (rs', c)" "items_ok items rs" "x \<in> set (c_calls c)"
  shows "\<exists>i \<in> set items. call_of (di_sender i) (di_msg i) x"
proof -
  obtain k "is" cs where d: "attempted items k rs rs'" "c_calls c = cs" "set is \<subseteq> {..<k}"
      "list_all2 (\<lambda>i x. call_of (di_sender (items ! i)) (di_msg (items ! i)) x) is cs"
    using dispatch_calls[OF assms(1,2)] by (auto simp: no_calls_def)
  obtain j where j: "j < length cs" "cs ! j = x" using assms(3) d(2) by (auto simp: in_set_conv_nth)
  have "call_of (di_sender (items ! (is ! j))) (di_msg (items ! (is ! j))) x" using list_all2_nthD2[OF d(4) j(1)] j(2) by simp
  moreover have "is ! j < length items"
    using d(1,3) j(1) list_all2_lengthD[OF d(4)] by (metis attempted_def lessThan_iff nth_mem order_less_le_trans subsetD)
  ultimately show ?thesis using nth_mem by blast
qed

lemma thread_ok_pool:
  assumes "thread_ok srv past n th" "th_pc th = AtPool k" "pc_ok (sv_cfg srv) past n (th_req th) (AtPool k)"
    "dispatch conc tmo cd sched (th_items th) (th_results th) no_calls = Some (rs, c)"
  shows "thread_ok srv past n (goto (AtRefund k is) (th\<lparr>th_results := rs, th_calls := c_calls c\<rparr>))"
  using assms dispatch_call_items[OF assms(4)] by (auto simp: thread_ok_def)

lemma thread_ok_pushed: "thread_ok srv past n th \<Longrightarrow> pushed pc \<Longrightarrow> pc_ok (sv_cfg srv) past n (th_req th) pc \<Longrightarrow> thread_ok srv past n (goto pc th)"
  by (auto simp: thread_ok_def)

lemma thread_ok_step:
  assumes ok: "thread_ok srv past n th" and n: "n < length past" and now: "last past = sv_keys srv"
    and st: "thread_step cd sched (th_pc th) (th, srv, w) = Some (th', srv', w')"
  shows "thread_ok srv (past @ [sv_keys srv']) n th'"
proof -
  let ?past = "past @ [sv_keys srv']"
  have ok': "thread_ok srv ?past n th" using ok by (rule thread_ok_append)
  then have pc: "pc_ok (sv_cfg srv) ?past n (th_req th) (th_pc th)" by (simp add: thread_ok_def)
  note go = thread_ok_goto[OF ok']
  show ?thesis
  proof (cases "th_pc th")
    case AtRoute
    then show ?thesis using st go(1)[OF _ routed_ok] by auto
  next
    case AtRegister
    then show ?thesis using st go(1)[OF _ register_body_ok] go(1) by (auto split: prod.splits)
  next
    case (AtIssue lab)
    then show ?thesis using st go(1) by (auto split: prod.splits sum.splits if_splits)
  next
    case AtList
    then show ?thesis using st go(1) pc by (auto split: prod.splits sum.splits)
  next
    case (AtRevoke i)
    have "pc_ok (sv_cfg srv) ?past n (th_req th) (AtAnswer (writeJSON 204 BodyNone))"
      if "Revoke i (sv_keys srv) w = (None, sv_keys srv', w1)" for w1
      using Revoke_revokes[OF that] pc AtRevoke by (auto intro!: exI[of _ i] exI[of _ "length past"])
    then show ?thesis using st go(1) pc AtRevoke by (auto split: prod.splits option.splits if_splits)
  next
    case AtVerify
    have "pc_ok (sv_cfg srv) ?past n (th_req th) (AtStamp k)" if "verify_select (bearerToken (th_req th)) (sv_keys srv) w = (Inr k, w1)" for k w1
      using verify_select_valid[of _ past w k w1 n] that n now since_append(1) by auto
    then show ?thesis using st go AtVerify by (auto simp: Let_def split: if_splits prod.splits sum.splits)
  next
    case (AtStamp k)
    then show ?thesis using st go pc verify_stamp_steps by (fastforce split: prod.splits)
  next
    case (AtLimit k)
    have key: "thread_ok srv ?past n (th\<lparr>th_key := Some (ID k)\<rparr>)" using thread_ok_key[OF ok'] pc AtLimit by simp
    show ?thesis using st go(1) thread_ok_goto(1)[OF key] pc AtLimit
      by (auto simp: from_request_def split: prod.splits decoded.splits if_splits)
  next
    case (AtMessage k ms)
    show ?thesis
    proof (cases ms)
      case (Cons m ms')
      have r: "from_request (th_req th) (m # ms')" using pc AtMessage Cons by simp
      then show ?thesis
        using st go pc AtMessage Cons from_request_head(1)[OF r] from_request_head(2)[OF r]
        by (auto simp: Let_def split: if_splits prod.splits option.splits)
    qed (use st go AtMessage pc in auto)
  next
    case (AtBind k pf msg ms)
    have "owned_since ?past n ow pf (m_Token msg)"
      if "bind_tx k (platform_str pf) (m_Token msg) (sv_keys srv) w = (Inr ow, sv_keys srv', w1)" for ow w1
      using bind_tx_owned[OF that] n by simp
    then show ?thesis using st go pc AtBind by (auto split: prod.splits sum.splits)
  next
    case (AtPrune k pf msg ow ms)
    then show ?thesis using st go(1) pc thread_ok_after_bind[OF ok', of k pf msg ow ms] by (auto split: prod.splits)
  next
    case (AtDelete k pf msg ow ms)
    then show ?thesis using st pc thread_ok_after_bind[OF ok', of k pf msg ow ms] by (auto split: prod.splits)
  next
    case (AtPool k)
    then show ?thesis using st thread_ok_pool[OF ok' AtPool] pc AtPool by (auto split: option.splits)
  next
    case (AtRefund k "is")
    have "thread_ok srv ?past n (goto (AtAnswer (writeJSON 200 (BodyResults rs))) th)" "thread_ok srv ?past n (goto (AtRefund k is') th)" for rs is'
      using pc AtRefund by (auto intro!: thread_ok_pushed[OF ok'])
    then show ?thesis using st AtRefund by (cases "is") (auto split: prod.splits)
  qed (use st in auto)
qed

definition conc_inv :: "conc \<Rightarrow> bool" where
  "conc_inv c \<longleftrightarrow> cc_past c \<noteq> [] \<and> last (cc_past c) = sv_keys (cc_server c) \<and>
     (\<forall>(n, th) \<in> set (cc_threads c). n < length (cc_past c) \<and> thread_ok (cc_server c) (cc_past c) n th)"

lemma conc_inv_step: "conc_step c c' \<Longrightarrow> conc_inv c \<Longrightarrow> conc_inv c'"
proof (induction rule: conc_step.induct)
  case (arrive c r)
  have "thread_ok (cc_server c) (cc_past c) n (new_thread r)" for n
    by (simp add: thread_ok_def new_thread_def items_ok_def)
  then show ?case using arrive by (auto simp: conc_inv_def)
next
  case (thread i c n th cd sched th' srv' w')
  have t: "n < length (cc_past c)" "thread_ok (cc_server c) (cc_past c) n th"
    using thread.prems thread.hyps(1,2) nth_mem[of i "cc_threads c"] unfolding conc_inv_def by auto
  have s: "same_senders (cc_server c) srv'" using thread_step_frame(2)[OF thread.hyps(3)] .
  have "thread_ok (cc_server c) (cc_past c @ [sv_keys srv']) n th'"
    using thread_ok_step[OF t(2,1) _ thread.hyps(3)] thread.prems by (simp add: conc_inv_def)
  then show ?case
    using thread.prems t(1) thread_ok_append unfolding conc_inv_def thread_ok_senders[OF s]
    by (auto dest!: set_update_subset_insert[THEN subsetD] simp: thread_ok_senders[OF s])
qed

lemma conc_reach_inv: "conc.reach c \<Longrightarrow> conc_inv c"
proof (rule conc.reach_invariant[where I = conc_inv])
  fix s assume "conc_start s"
  then show "conc_inv s" by (simp add: conc_inv_def conc_start_def)
qed (auto intro: conc_inv_step)

lemma conc_reach_thread: "conc.reach c \<Longrightarrow> (n, th) \<in> set (cc_threads c) \<Longrightarrow> thread_ok (cc_server c) (cc_past c) n th"
  using conc_reach_inv by (auto simp: conc_inv_def)

text \<open>Every step is a run of the store's own steps, so what holds of the store across interleavings holds here.\<close>

lemma conc_step_store:
  "conc_step c c' \<Longrightarrow> steps_of (cc_server c) (sv_keys (cc_server c)) (sv_keys (cc_server c')) \<and> sv_cfg (cc_server c') = sv_cfg (cc_server c)"
proof (induction rule: conc_step.induct)
  case (thread i c n th cd sched th' srv' w')
  then show ?case using thread_step_store[OF thread.hyps(3)] thread_step_frame(2)[OF thread.hyps(3)] by (simp add: same_senders_def)
qed auto

interpretation threads: simulation "store_step (MaxRegistrations cfg)" conc_step "\<lambda>c. sv_keys (cc_server c)"
  "\<lambda>c. sv_cfg (cc_server c) = cfg" for cfg
  by unfold_locales (use conc_step_store in auto)

text \<open>What a sound thread hands to a provider.\<close>

lemma thread_ok_call:
  assumes "thread_ok srv past n th" "x \<in> set (th_calls th)"
  shows "\<exists>k row i j req m pf kind. n \<le> i \<and> i < length past \<and> n \<le> j \<and> j < length past \<and>
     sql_select_key (hashKey (bearerToken (th_req th))) (s_db (past ! i)) = Some row \<and> k_revoked row = None \<and> k_id row = k \<and>
     owner_of (past ! j) (platform_str pf) (sm_Token m) = Some k \<and>
     decode_sendReq (th_req th) = Decoded req \<and> m \<in> set (Messages req) \<and> length (sm_Payload m) \<le> maxPayloadBytes \<and>
     parsePlatform (sm_Platform m) = Some pf \<and> parseKind (sm_Kind m) = Some kind \<and>
     call_of (sender_for srv pf) \<lparr>m_Token = sm_Token m, m_Kind = kind, m_Payload = sm_Payload m\<rparr> x"
proof -
  obtain k pf msg where x: "valid_since past n (bearerToken (th_req th)) k" "owned_since past n k pf (m_Token msg)"
      "prepared (th_req th) pf msg" "call_of (sender_for srv pf) msg x"
    using assms unfolding thread_ok_def pushable_def by metis
  from x(3) obtain req :: sendReq and m where m: "decode_sendReq (th_req th) = Decoded req" "m \<in> set (Messages req)" "length (sm_Payload m) \<le> maxPayloadBytes"
      "parsePlatform (sm_Platform m) = Some pf" "parseKind (sm_Kind m) = Some (m_Kind msg)" "m_Token msg = sm_Token m" "m_Payload msg = sm_Payload m"
    unfolding prepared_def by blast
  have "msg = \<lparr>m_Token = sm_Token m, m_Kind = m_Kind msg, m_Payload = sm_Payload m\<rparr>" using m(6,7) by simp
  then show ?thesis using x m unfolding valid_since_def owned_since_def by metis
qed

lemma thread_ok_calls_valid: "thread_ok srv past n th \<Longrightarrow> th_calls th \<noteq> [] \<Longrightarrow> \<exists>k. valid_since past n (bearerToken (th_req th)) k"
  unfolding thread_ok_def pushable_def by (metis list.set_intros(1) neq_Nil_conv)

section \<open>Who revokes\<close>

lemma thread_step_revokes:
  assumes "thread_step cd sched pc (th, srv, w) = Some (th', srv', w')" "newly_revoked (sv_keys srv) (sv_keys srv')"
  shows "\<exists>i. pc = AtRevoke i"
proof (rule ccontr)
  assume no: "\<nexists>i. pc = AtRevoke i"
  have issue: "\<not> newly_revoked s s'" if "Issue lab mx s w1 = (x, s', w2)" for lab mx s w1 x s' w2
    using Issue_effect[OF that] by (auto simp: newly_revoked_def select_insert_key split: if_splits)
  have stamp: "\<not> newly_revoked s s'" if "verify_stamp k s w1 = (x, s', w2)" for k s w1 x s' w2
    using that by (auto simp: verify_stamp_def newly_revoked_def select_stamp write_if_def Let_def split: prod.splits db_out.splits if_splits)
  have same: "\<not> newly_revoked s s'" if "keys_tab (s_db s') = keys_tab (s_db s)" for s s'
    using newly_revoked_keys[OF that] by simp
  have gate: "keys_tab (s_db s') = keys_tab (s_db s)" if "prune_gate ret s w1 = (x, s', w2)" for ret s w1 x s' w2
    using that by (auto simp: prune_gate_def split: prod.splits if_splits)
  have delete: "keys_tab (s_db s') = keys_tab (s_db s)" if "prune_delete ret s w1 = (s', w2)" for ret s w1 s' w2
    using that by (auto simp: prune_delete_def sql_delete_stale_def write_if_def Let_def split: prod.splits db_out.splits if_splits)
  show False
    using assms no
  proof (cases pc)
    case (AtMessage k ms)
    then show ?thesis using assms by (cases ms) (auto simp: Let_def split: if_splits prod.splits option.splits)
  next
    case (AtRefund k "is")
    then show ?thesis using assms by (cases "is") (auto split: prod.splits if_splits)
  qed (auto simp: Let_def dest: issue stamp same[OF bind_tx_keys] same[OF gate] same[OF delete]
      split: if_splits prod.splits sum.splits option.splits)
qed

lemma conc_step_revokes:
  assumes "conc_step c c'" "newly_revoked (sv_keys (cc_server c)) (sv_keys (cc_server c'))"
  shows "\<exists>(n, th) \<in> set (cc_threads c). \<exists>i. th_pc th = AtRevoke i"
  using assms
proof (induction rule: conc_step.induct)
  case (thread i c n th cd sched th' srv' w')
  then show ?case using thread_step_revokes[OF thread.hyps(3)] nth_mem[OF thread.hyps(1)] by (intro bexI[of _ "(n, th)"]) auto
qed simp

section \<open>Keys across the history\<close>

text \<open>No key is lost, and none comes back from its revocation.\<close>

definition keys_kept :: "Store \<Rightarrow> Store \<Rightarrow> bool" where
  "keys_kept s t \<longleftrightarrow> key_survives s t \<and> (\<forall>i. revoked_in s i \<longrightarrow> revoked_in t i)"

lemma keys_kept_trans: "keys_kept s t \<Longrightarrow> keys_kept t u \<Longrightarrow> keys_kept s u"
  unfolding keys_kept_def using key_survives_trans by blast

lemma keys_kept_refl [simp]: "keys_kept s s"
  by (simp add: keys_kept_def)

lemma keys_kept_same: "s_db t = s_db s \<Longrightarrow> keys_kept s t"
  by (simp add: keys_kept_def key_survives_def revoked_in_def)

lemma revoked_in_map:
  assumes "keys_tab (s_db t) = map f (keys_tab (s_db s))" "\<And>row. k_id (f row) = k_id row \<and> (k_revoked row \<noteq> None \<longrightarrow> k_revoked (f row) \<noteq> None)"
    and "revoked_in s i"
  shows "revoked_in t i"
proof -
  obtain row where "row \<in> set (keys_tab (s_db s))" "k_id row = i" "k_revoked row \<noteq> None" using assms(3) by (auto simp: revoked_in_def)
  then show ?thesis unfolding revoked_in_def using assms(1,2) by (intro bexI[of _ "f row"]) auto
qed

lemma inserts_keep_keys:
  "sql_insert_key h lab c d = Some d' \<Longrightarrow> set (keys_tab d) \<subseteq> set (keys_tab d')"
  "sql_insert_token p tok k now d = Some d' \<Longrightarrow> set (keys_tab d) \<subseteq> set (keys_tab d')"
  by (auto simp: sql_insert_key_def sql_insert_token_def split: if_splits)

lemma revoked_in_step:
  assumes "store_step mx s t" "revoked_in s i"
  shows "revoked_in t i"
  using assms(1)
proof (cases rule: store_step_tables)
  case (stamp u j)
  then show ?thesis using assms(2) by (intro revoked_in_map[of t "\<lambda>r. if k_id r = j then r\<lparr>k_used := Some u\<rparr> else r" s]) (simp_all add: sql_stamp_used_def)
next
  case (revoke u j)
  then show ?thesis using assms(2) by (intro revoked_in_map[of t "\<lambda>r. if revocable j r then r\<lparr>k_revoked := Some u\<rparr> else r" s])
      (simp_all add: sql_revoke_def)
qed (use assms(2) in \<open>auto simp: revoked_in_def sql_touch_token_def sql_delete_stale_def dest: inserts_keep_keys[THEN subsetD]\<close>)

lemma keys_kept_steps: "(store_step mx)\<^sup>*\<^sup>* s t \<Longrightarrow> keys_kept s t"
proof (induction rule: rtranclp_induct)
  case (step y z)
  have "keys_kept y z" using step.hyps(2) key_survives_step revoked_in_step by (auto simp: keys_kept_def)
  with step.IH show ?case by (rule keys_kept_trans)
qed simp

definition history_ok :: "conc \<Rightarrow> bool" where
  "history_ok c \<longleftrightarrow> cc_past c \<noteq> [] \<and> last (cc_past c) = sv_keys (cc_server c) \<and>
     sorted_wrt keys_kept (cc_past c)"

lemma history_grows:
  assumes "sorted_wrt keys_kept past" "past \<noteq> []" "keys_kept (last past) s"
  shows "sorted_wrt keys_kept (past @ [s])"
proof -
  have "keys_kept x s" if x: "x \<in> set past" for x
  proof -
    obtain i where i: "i < length past" "past ! i = x" using x by (auto simp: in_set_conv_nth)
    have "keys_kept x (last past)"
    proof (cases "i = length past - 1")
      case True
      then show ?thesis using i assms(2) by (simp add: last_conv_nth)
    next
      case False
      then show ?thesis
        using sorted_wrt_nth_less[OF assms(1), of i "length past - 1"] i assms(2) by (simp add: last_conv_nth)
    qed
    then show ?thesis using assms(3) by (rule keys_kept_trans)
  qed
  then show ?thesis using assms(1) by (simp add: sorted_wrt_append)
qed

lemma history_step: "conc_step c c' \<Longrightarrow> history_ok c \<Longrightarrow> history_ok c'"
proof (induction rule: conc_step.induct)
  case (thread i c n th cd sched th' srv' w')
  have "keys_kept (sv_keys (cc_server c)) (sv_keys srv')"
    using thread_step_store[OF thread.hyps(3)] by (rule keys_kept_steps)
  then show ?case using thread.prems history_grows[of "cc_past c"] by (simp add: history_ok_def)
qed (auto simp: history_ok_def)

lemma history_kept:
  assumes "history_ok c" "i \<le> j" "j < length (cc_past c)"
  shows "keys_kept (cc_past c ! i) (cc_past c ! j)"
proof (cases "i = j")
  case False
  then show ?thesis using assms sorted_wrt_nth_less[of keys_kept "cc_past c" i j] by (simp add: history_ok_def)
qed simp

lemma revoked_not_valid:
  assumes "history_ok c" "m \<le> n" "sql_select_key (hashKey plain) (s_db (cc_past c ! m)) = Some row" "k_revoked row \<noteq> None"
  shows "\<not> valid_since (cc_past c) n plain k"
proof
  assume "valid_since (cc_past c) n plain k"
  then obtain j row' where j: "n \<le> j" "j < length (cc_past c)"
      "sql_select_key (hashKey plain) (s_db (cc_past c ! j)) = Some row'" "k_revoked row' = None"
    by (auto simp: valid_since_def)
  have "keys_kept (cc_past c ! m) (cc_past c ! j)" using assms(1,2) j(1,2) by (intro history_kept) auto
  then have "key_survives (cc_past c ! m) (cc_past c ! j)" by (simp add: keys_kept_def)
  then show False using assms(3,4) j(3,4) unfolding key_survives_def by fastforce
qed

section \<open>A thread alone is a run of the system\<close>

lemma runs_request: "runs cd sched x y \<Longrightarrow> th_req (fst y) = th_req (fst x)"
proof (induction rule: rtranclp_induct)
  case (step y z)
  have "th_req (fst z) = th_req (fst y)"
    using step.hyps(2) by (cases y; cases z) (auto elim!: own_step.cases dest: thread_step_frame(1))
  then show ?case using step.IH by simp
qed simp

lemma conc_runs:
  "runs cd sched (th, srv, w) (th', srv', w') \<Longrightarrow>
   \<exists>past' ops'. conc_step\<^sup>*\<^sup>* \<lparr>cc_threads = [(n, th)], cc_server = srv, cc_world = w, cc_past = past, cc_ops = ops\<rparr>
     \<lparr>cc_threads = [(n, th')], cc_server = srv', cc_world = w', cc_past = past', cc_ops = ops'\<rparr>"
proof (induction "(th', srv', w')" arbitrary: th' srv' w' rule: rtranclp_induct)
  case base
  then show ?case by blast
next
  case (step y)
  obtain th1 srv1 w1 where y: "y = (th1, srv1, w1)" by (cases y)
  obtain past1 ops1 where p: "conc_step\<^sup>*\<^sup>* \<lparr>cc_threads = [(n, th)], cc_server = srv, cc_world = w, cc_past = past, cc_ops = ops\<rparr>
      \<lparr>cc_threads = [(n, th1)], cc_server = srv1, cc_world = w1, cc_past = past1, cc_ops = ops1\<rparr>"
    using step.hyps(3)[OF y] by blast
  have "thread_step cd sched (th_pc th1) (th1, srv1, w1) = Some (th', srv', w')"
    using step.hyps(2) y by (auto elim: own_step.cases)
  then have "conc_step \<lparr>cc_threads = [(n, th1)], cc_server = srv1, cc_world = w1, cc_past = past1, cc_ops = ops1\<rparr>
      \<lparr>cc_threads = [(n, th')], cc_server = srv', cc_world = w', cc_past = past1 @ [sv_keys srv'], cc_ops = ops1 @ limiter_ops (th_pc th1) (th1, srv1, w1)\<rparr>"
    using thread[of 0 "\<lparr>cc_threads = [(n, th1)], cc_server = srv1, cc_world = w1, cc_past = past1, cc_ops = ops1\<rparr>" n th1] by simp
  then show ?case using p by (blast intro: rtranclp.rtrancl_into_rtrancl)
qed

section \<open>Every request under way can finish\<close>

abbreviation thread_at :: "conc \<Rightarrow> nat \<Rightarrow> hthread" where
  "thread_at c i \<equiv> snd (cc_threads c ! i)"

text \<open>The steps all requests under way have left, at most.\<close>

definition pending :: "conc \<Rightarrow> nat" where
  "pending c = sum_list (map (work \<circ> snd) (cc_threads c))"

definition all_answered :: "conc \<Rightarrow> bool" where
  "all_answered c \<longleftrightarrow> (\<forall>(n, th) \<in> set (cc_threads c). answered th)"

lemma sum_list_update_less:
  fixes f :: "'a \<Rightarrow> nat"
  assumes "i < length xs" "f x < f (xs ! i)"
  shows "sum_list (map f (xs[i := x])) < sum_list (map f xs)"
  using assms by (induction xs arbitrary: i) (auto split: nat.split)

text \<open>A step moves one thread forward and leaves the others as they are.\<close>

lemma conc_step_moves:
  assumes "conc_step c c'" "i < length (cc_threads c)"
  shows "i < length (cc_threads c') \<and> fst (cc_threads c' ! i) = fst (cc_threads c ! i) \<and>
     th_req (thread_at c' i) = th_req (thread_at c i) \<and> (thread_at c' i = thread_at c i \<or> work (thread_at c' i) < work (thread_at c i))"
  using assms
proof (induction rule: conc_step.induct)
  case (arrive c r)
  then show ?case by (simp add: nth_append)
next
  case (thread j c n th cd sched th' srv' w')
  then show ?case
    using thread_step_work[OF thread.hyps(3)] thread_step_frame(1)[OF thread.hyps(3)] by (cases "i = j") auto
qed

lemma thread_moves:
  assumes "i < length (cc_threads c)" "\<not> answered (thread_at c i)"
  shows "\<exists>c'. conc_step c c' \<and> length (cc_threads c') = length (cc_threads c) \<and> work (thread_at c' i) < work (thread_at c i) \<and>
     (\<forall>j < length (cc_threads c). j \<noteq> i \<longrightarrow> cc_threads c' ! j = cc_threads c ! j) \<and> pending c' < pending c"
proof -
  obtain n th where th: "cc_threads c ! i = (n, th)" by fastforce
  obtain sched th' srv' w' where st: "thread_step False sched (th_pc th) (th, cc_server c, cc_world c) = Some (th', srv', w')"
    using thread_step_total[of th False "cc_server c" "cc_world c"] assms(2) th by auto
  note less = thread_step_work[OF st]
  have sum: "sum_list (map (work \<circ> snd) ((cc_threads c)[i := (n, th')])) < sum_list (map (work \<circ> snd) (cc_threads c))"
    by (rule sum_list_update_less[OF assms(1)]) (simp add: th less)
  show ?thesis
    by (intro exI conjI, rule thread[OF assms(1) th st]) (use sum less assms(1) th in \<open>simp_all add: pending_def\<close>)
qed

lemma all_finish:
  "\<exists>c'. conc_step\<^sup>*\<^sup>* c c' \<and> all_answered c' \<and> length (cc_threads c') = length (cc_threads c)"
proof (induction "pending c" arbitrary: c rule: less_induct)
  case less
  show ?case
  proof (cases "all_answered c")
    case False
    then obtain i where "i < length (cc_threads c)" "\<not> answered (thread_at c i)"
      by (auto simp: all_answered_def in_set_conv_nth)
    from thread_moves[OF this] obtain c1 where c1: "conc_step c c1" "length (cc_threads c1) = length (cc_threads c)" "pending c1 < pending c"
      by blast
    from less[OF c1(3)] show ?thesis using c1 by (metis converse_rtranclp_into_rtranclp)
  qed blast
qed

section \<open>Properties\<close>

definition ex_conc :: conc where
  "ex_conc = \<lparr>cc_threads = [], cc_server = ex_server, cc_world = quiet_world, cc_past = [sv_keys ex_server], cc_ops = []\<rparr>"

lemma ex_served: "\<exists>d. serve False ex_run ex_request ex_server quiet_world = Some d \<and> sd_calls d = [ex_push]"
  using ex_handled by (auto simp: serve_def route_of_def on_method_def ex_request_def)

lemma ex_conc_runs: "\<exists>c th. conc_step\<^sup>*\<^sup>* ex_conc c \<and> cc_threads c = [(0, th)] \<and> th_req th = ex_request \<and> th_calls th = [ex_push]"
proof -
  obtain d where d: "serve False ex_run ex_request ex_server quiet_world = Some d" "sd_calls d = [ex_push]"
    using ex_served by blast
  obtain th where th: "runs False ex_run (new_thread ex_request, ex_server, quiet_world) (th, sd_server d, sd_world d)" "th_calls th = [ex_push]"
    using thread_alone[OF d(1)] d(2) by (auto simp: answers_def)
  have "conc_step ex_conc \<lparr>cc_threads = [(0, new_thread ex_request)], cc_server = ex_server, cc_world = quiet_world, cc_past = [sv_keys ex_server], cc_ops = []\<rparr>"
    using arrive[of ex_conc ex_request] by (simp add: ex_conc_def)
  moreover obtain past ops where "conc_step\<^sup>*\<^sup>* \<lparr>cc_threads = [(0, new_thread ex_request)], cc_server = ex_server, cc_world = quiet_world,
      cc_past = [sv_keys ex_server], cc_ops = []\<rparr> \<lparr>cc_threads = [(0, th)], cc_server = sd_server d, cc_world = sd_world d, cc_past = past, cc_ops = ops\<rparr>"
    using conc_runs[OF th(1)] by blast
  ultimately have "conc_step\<^sup>*\<^sup>* ex_conc \<lparr>cc_threads = [(0, th)], cc_server = sd_server d, cc_world = sd_world d, cc_past = past, cc_ops = ops\<rparr>"
    by (rule converse_rtranclp_into_rtranclp)
  moreover have "th_req th = ex_request" using runs_request[OF th(1)] by (simp add: new_thread_def)
  ultimately show ?thesis using th(2) by (intro exI conjI) auto
qed



text \<open>
  C15: whatever else is under way, a key is revoked only by a request that carries the configured
  admin token, and only such a request is answered with the list of keys; where no token is
  configured neither ever happens.
\<close>

theorem concurrent_admin_only:
  assumes "conc.reach c"
  shows "(conc_step c c' \<and> newly_revoked (sv_keys (cc_server c)) (sv_keys (cc_server c')) \<longrightarrow>
      (\<exists>(n, th) \<in> set (cc_threads c). (\<exists>i. th_pc th = AtRevoke i) \<and> is_admin (sv_cfg (cc_server c)) (th_req th))) \<and>
    ((n, th) \<in> set (cc_threads c) \<and> th_pc th = AtAnswer resp \<and> rs_body resp = BodyKeys ks \<longrightarrow>
      is_admin (sv_cfg (cc_server c)) (th_req th))"
proof (intro conjI impI)
  assume "conc_step c c' \<and> newly_revoked (sv_keys (cc_server c)) (sv_keys (cc_server c'))"
  then obtain m t i where t: "(m, t) \<in> set (cc_threads c)" "th_pc t = AtRevoke i" using conc_step_revokes by blast
  then have "is_admin (sv_cfg (cc_server c)) (th_req t)" using conc_reach_thread[OF assms t(1)] by (simp add: thread_ok_def)
  then show "\<exists>(n, th) \<in> set (cc_threads c). (\<exists>i. th_pc th = AtRevoke i) \<and> is_admin (sv_cfg (cc_server c)) (th_req th)"
    using t by blast
next
  assume "(n, th) \<in> set (cc_threads c) \<and> th_pc th = AtAnswer resp \<and> rs_body resp = BodyKeys ks"
  then show "is_admin (sv_cfg (cc_server c)) (th_req th)"
    using conc_reach_thread[OF assms, of n th] by (simp add: thread_ok_def lists_keys_def)
qed

lemma ex_admin_conc:
  "\<exists>c th resp ks. conc.reach c \<and> cc_threads c = [(0, th)] \<and> th_req th = admin_request \<and> th_pc th = AtAnswer resp \<and>
     rs_body resp = BodyKeys ks \<and> sv_cfg (cc_server c) = sv_cfg admin_server"
proof -
  let ?c = "\<lparr>cc_threads = [], cc_server = admin_server, cc_world = quiet_world, cc_past = [sv_keys admin_server], cc_ops = []\<rparr>"
  let ?c1 = "?c\<lparr>cc_threads := [(0, new_thread admin_request)]\<rparr>"
  obtain d ks where d: "serve False [] admin_request admin_server quiet_world = Some d" "rs_body (sd_resp d) = BodyKeys ks"
    using ex_admin_list by blast
  obtain th where th: "runs False [] (new_thread admin_request, admin_server, quiet_world) (th, sd_server d, sd_world d)"
      "th_pc th = AtAnswer (sd_resp d)"
    using thread_alone[OF d(1)] by (auto simp: answers_def)
  obtain past ops where p: "conc_step\<^sup>*\<^sup>* ?c1
      \<lparr>cc_threads = [(0, th)], cc_server = sd_server d, cc_world = sd_world d, cc_past = past, cc_ops = ops\<rparr>"
    using conc_runs[OF th(1), of 0 "[sv_keys admin_server]" "[]"] by auto
  have "conc.reach ?c" by (rule conc.reach_start) (simp add: conc_start_def)
  moreover have "conc_step ?c ?c1" using arrive[of ?c admin_request] by simp
  ultimately have "conc.reach ?c1" by (rule conc.reach_step)
  from conc.reach_steps[OF this p] show ?thesis
    using th d(2) runs_request[OF th(1)] serve_steps(2)[OF d(1)] by (intro exI conjI) (auto simp: new_thread_def)
qed

theorem concurrent_admin_only_witness: "is_admin (sv_cfg admin_server) admin_request"
proof -
  obtain c th resp ks where c: "conc.reach c" "cc_threads c = [(0, th)]" "th_req th = admin_request" "th_pc th = AtAnswer resp"
      "rs_body resp = BodyKeys ks" "sv_cfg (cc_server c) = sv_cfg admin_server"
    using ex_admin_conc by blast
  show ?thesis using concurrent_admin_only[OF c(1), of c 0 th resp ks] c by simp
qed



end
