(* ===== verification/Relay_Main.thy ===== *)
theory Relay_Main
  imports Concurrent
begin

text \<open>
  \<open>cmd/relay/main.go\<close>: the start of the process and its health probe. What the operating
  system and the libraries answer is a record (\<open>host\<close>): the environment, the arguments, the
  files, whether the directory of the database can be made, the database file, the answer
  of an HTTP GET. \<open>log.Fatalf\<close> ends the process: \<open>Fatal\<close>. What
  follows the start is in \<open>Lifecycle\<close>.
\<close>

record host =
  h_args :: "bytes list"
  h_env :: environ
  h_read_file :: "bytes \<Rightarrow> bytes option"
  h_credentials :: "bytes \<Rightarrow> bytes option"
  h_load_key :: "bytes \<Rightarrow> bool"
  h_mkdir_for :: "bytes \<Rightarrow> bool"
  h_dbfile :: "bytes \<Rightarrow> dbfile"
  h_get :: "bytes \<Rightarrow> int option"

datatype fatal = ReadFcmCredentials | FcmNew | ApnsNew | CreateDbDir | KeysStore

datatype process = Exited_with int | Fatal fatal | Serving (listen_addr: bytes) Server world

definition buildFCM :: "host \<Rightarrow> Config \<Rightarrow> world \<Rightarrow> (fatal + Sender) \<times> world" where
  "buildFCM h cfg w =
     (if FCMCredentialsFile cfg = [] then (Inr (SUnconfigured ''fcm''), log_print LogFcmUnset w)
      else case h_read_file h (FCMCredentialsFile cfg) of
             None \<Rightarrow> (Inl ReadFcmCredentials, w)
           | Some creds \<Rightarrow>
               (case fcm_New (h_credentials h creds) of
                  Inl _ \<Rightarrow> (Inl FcmNew, w)
                | Inr s \<Rightarrow> (Inr (SFcm s), log_print (LogFcmProject (ProjectID s)) w)))"

definition buildAPNs :: "host \<Rightarrow> Config \<Rightarrow> world \<Rightarrow> (fatal + Sender) \<times> world" where
  "buildAPNs h cfg w =
     (if APNsKeyPath cfg = [] \<or> APNsKeyID cfg = [] \<or> APNsTeamID cfg = [] \<or> APNsBundleID cfg = []
      then (Inr (SUnconfigured ''apns''), log_print LogApnsIncomplete w)
      else case apns_New (h_load_key h)
                  \<lparr>ac_KeyPath = APNsKeyPath cfg, ac_KeyID = APNsKeyID cfg, ac_TeamID = APNsTeamID cfg,
                   ac_BundleID = APNsBundleID cfg, ac_Production = APNsProduction cfg\<rparr> of
             None \<Rightarrow> (Inl ApnsNew, w)
           | Some s \<Rightarrow> (Inr (SApns s), log_print (LogApnsBundle (APNsBundleID cfg) (APNsProduction cfg)) w))"

definition health_url :: "environ \<Rightarrow> bytes" where
  "health_url env =
     (let port = (if env ''RELAY_PORT'' = [] then ''8090'' else env ''RELAY_PORT'')
      in ''http://127.0.0.1:'' @ port @ ''/healthz'')"

definition healthcheck :: "host \<Rightarrow> int" where
  "healthcheck h = (case h_get h (health_url (h_env h)) of
      None \<Rightarrow> 1
    | Some status \<Rightarrow> if status \<noteq> 200 then 1 else 0)"

definition relay_main :: "host \<Rightarrow> world \<Rightarrow> process" where
  "relay_main h w0 =
     (if 1 < length (h_args h) \<and> h_args h ! 1 = ''-healthcheck'' then Exited_with (healthcheck h)
      else let cfg = Load (h_env h) in
        case buildFCM h cfg w0 of
          (Inl e, _) \<Rightarrow> Fatal e
        | (Inr android, w1) \<Rightarrow>
            (case buildAPNs h cfg w1 of
               (Inl e, _) \<Rightarrow> Fatal e
             | (Inr ios, w2) \<Rightarrow>
                 if \<not> h_mkdir_for h (DBPath cfg) then Fatal CreateDbDir
                 else (case Open (h_dbfile h (DBPath cfg)) w2 of
                         (None, _, _) \<Rightarrow> Fatal KeysStore
                       | (Some store, _, w3) \<Rightarrow>
                           (case api_New cfg ios android store w3 of (srv, w4) \<Rightarrow>
                              let w5 = (if AdminToken cfg = [] then log_print LogAdminDisabled w4 else w4);
                                  addr = '':'' @ FormatInt (Port cfg)
                              in Serving addr srv (log_print (LogListening addr) w5)))))"

section \<open>Lemmas\<close>

lemma build_clock:
  "buildFCM h cfg w = (r, w') \<Longrightarrow> w_clock w' = w_clock w"
  "buildAPNs h cfg w = (r, w') \<Longrightarrow> w_clock w' = w_clock w"
  by (auto simp: buildFCM_def buildAPNs_def log_print_def split: if_splits option.splits sum.splits)

lemma relay_main_serving:
  assumes "relay_main h w = Serving addr srv w'"
  obtains store w3 ios android w4 where
    "api_New (Load (h_env h)) ios android store w3 = (srv, w4)"
    "addr = '':'' @ FormatInt (Port (Load (h_env h)))"
    "w_clock w3 = w_clock w" "w_clock w' = w_clock w4" "w_cpos w' = w_cpos w4"
  using assms unfolding relay_main_def Let_def
  by (auto simp: log_print_def dest!: build_clock Open_clock split: if_splits prod.splits sum.splits option.splits)

lemma Open_tables_ok:
  assumes "Open f w = (Some s, f', w')" "f_keys f = Some (ks, kq)"
    and "f_tokens f = TokensV2 ts tq \<or> f_tokens f = TokensV1 ts tq"
    and "tables_ok \<lparr>keys_tab = ks, keys_seq = kq, tokens_tab = ts, tokens_seq = tq\<rparr>"
  shows "tables_ok (s_db s)"
  using assms(3)
proof
  assume "f_tokens f = TokensV2 ts tq"
  from Open_current[OF this assms(2,1)] show ?thesis using assms(4) by simp
next
  assume "f_tokens f = TokensV1 ts tq"
  from Open_upgrade[OF this assms(2,1)] show ?thesis
    using assms(4) by (simp add: tables_ok_def comp_def)
qed

lemma api_New_limiters:
  assumes "api_New cfg ios android store w = (srv, w')" "clock_mono w"
    and "0 \<le> RegisterPerHour cfg" "0 \<le> SendPerMinute cfg" "0 \<le> CallSendPerMinute cfg"
    and "1 \<le> RegisterBurst cfg" "RegisterBurst cfg < 2 ^ 53" "1 \<le> SendBurst cfg" "SendBurst cfg < 2 ^ 53"
    and "1 \<le> CallSendBurst cfg" "CallSendBurst cfg < 2 ^ 53"
  shows "lim_now (nat (RegisterBurst cfg)) (sv_registerLim srv) w' \<and> lim_now (nat (SendBurst cfg)) (sv_sendLim srv) w'
    \<and> lim_now (nat (CallSendBurst cfg)) (sv_callLim srv) w'"
proof -
  have w': "w_clock w' = w_clock w" "w_cpos w' = Suc (Suc (Suc (w_cpos w)))"
    using assms(1) by (auto simp: api_New_def time_now_def)
  have n: "lim_now (nat b) (New_Limiter pm b (w_clock w i)) w'"
    if "0 \<le> pm" "1 \<le> b" "b < 2 ^ 53" "i \<le> w_cpos w'" for pm b i
    unfolding lim_now_def w'(1)
    using lim_good_mono[OF New_Limiter_good[OF that(1-3)]] assms(2) that(4) by (simp add: clock_mono_def)
  have f: "0 \<le> fl (of_int i)" "0 \<le> fdiv (fl (of_int i)) 60" if "0 \<le> i" for i
    using that by (simp_all add: fl_nonneg fdiv_def)
  have srv: "sv_registerLim srv = New_Limiter (fdiv (fl (of_int (RegisterPerHour cfg))) 60) (RegisterBurst cfg) (w_clock w (w_cpos w))"
    "sv_sendLim srv = New_Limiter (fl (of_int (SendPerMinute cfg))) (SendBurst cfg) (w_clock w (Suc (w_cpos w)))"
    "sv_callLim srv = New_Limiter (fl (of_int (CallSendPerMinute cfg))) (CallSendBurst cfg) (w_clock w (Suc (Suc (w_cpos w))))"
    using assms(1) by (auto simp: api_New_def time_now_def)
  show ?thesis unfolding srv using assms f w'(2) by (intro conjI n) auto
qed

definition file_ok :: "dbfile \<Rightarrow> bool" where
  "file_ok f \<longleftrightarrow> f = \<lparr>f_keys = None, f_tokens = NoTokens\<rparr> \<or>
     (\<exists>ks kq ts tq. f_keys f = Some (ks, kq) \<and> (f_tokens f = TokensV2 ts tq \<or> f_tokens f = TokensV1 ts tq) \<and>
        tables_ok \<lparr>keys_tab = ks, keys_seq = kq, tokens_tab = ts, tokens_seq = tq\<rparr>)"

lemma Open_file_ok:
  assumes "Open f w = (Some s, f', w')" "file_ok f"
  shows "tables_ok (s_db s)"
  using assms(2) unfolding file_ok_def
proof
  assume "f = \<lparr>f_keys = None, f_tokens = NoTokens\<rparr>"
  then have "s_db s = \<lparr>keys_tab = [], keys_seq = 0, tokens_tab = [], tokens_seq = 0\<rparr>"
    using Open_fresh[OF _ _ assms(1)] by simp
  then show ?thesis by (simp add: tables_ok_def)
qed (use Open_tables_ok[OF assms(1)] in blast)

lemma relay_main_store:
  assumes "relay_main h w = Serving addr srv w'"
  obtains w2 f w3 where "Open (h_dbfile h (DBPath (Load (h_env h)))) w2 = (Some (sv_keys srv), f, w3)"
  using assms unfolding relay_main_def Let_def
  by (auto simp: api_New_def time_now_def split: if_splits prod.splits sum.splits option.splits)

text \<open>
  Whenever the relay serves, it listens on the port of its configuration; and with rates that
  are not negative and bursts that are positive its three limiters start within their
  bounds, each with the whole burst for every key.
\<close>

lemma start_limiters_sound:
  assumes "relay_main h w = Serving addr srv w'" and "cfg = Load (h_env h)"
    and "clock_mono w"
    and "0 \<le> RegisterPerHour cfg" "0 \<le> SendPerMinute cfg" "0 \<le> CallSendPerMinute cfg"
    and "1 \<le> RegisterBurst cfg" "RegisterBurst cfg < 2 ^ 53" "1 \<le> SendBurst cfg" "SendBurst cfg < 2 ^ 53"
    and "1 \<le> CallSendBurst cfg" "CallSendBurst cfg < 2 ^ 53"
  shows "addr = '':'' @ FormatInt (Port cfg) \<and> lim_now (nat (RegisterBurst cfg)) (sv_registerLim srv) w' \<and>
     lim_now (nat (SendBurst cfg)) (sv_sendLim srv) w' \<and> lim_now (nat (CallSendBurst cfg)) (sv_callLim srv) w'"
  using assms(1)
proof (rule relay_main_serving)
  fix store w3 ios android w4
  assume new: "api_New (Load (h_env h)) ios android store w3 = (srv, w4)" and addr: "addr = '':'' @ FormatInt (Port (Load (h_env h)))"
    and clk: "w_clock w3 = w_clock w" "w_clock w' = w_clock w4" "w_cpos w' = w_cpos w4"
  have "clock_mono w3" using assms(3) clk(1) by (simp add: clock_mono_def)
  from api_New_limiters[OF new this] show ?thesis
    using assms(2,4-) addr clk(2,3) by (simp add: lim_now_def)
qed

section \<open>Properties\<close>

text \<open>
  Without FCM credentials and with incomplete APNs credentials the relay still starts, as long as
  the directory of the database can be made and the driver works: it listens on the
  configured port with the stub of each platform, over well-formed tables.
\<close>

lemma starts_without_credentials:
  assumes "length (h_args h) \<le> 1" and "cfg = Load (h_env h)" and "FCMCredentialsFile cfg = []" and "APNsKeyID cfg = []"
    and "h_mkdir_for h (DBPath cfg)" and "\<And>i. w_db w i = DbOk"
    and "h_dbfile h (DBPath cfg) = \<lparr>f_keys = None, f_tokens = NoTokens\<rparr>"
  shows "\<exists>srv w'. relay_main h w = Serving ('':'' @ FormatInt (Port cfg)) srv w' \<and> sv_cfg srv = cfg \<and>
     sv_android srv = SUnconfigured ''fcm'' \<and> sv_ios srv = SUnconfigured ''apns'' \<and> tables_ok (s_db (sv_keys srv))"
  using assms
  by (simp add: relay_main_def buildFCM_def buildAPNs_def Open_def migrate_def sql_create_def sql_add_last_seen_def
      api_New_def world_defs Let_def tables_ok_def)

definition ex_host :: host where
  "ex_host = \<lparr>h_args = [''relay''], h_env = (\<lambda>_. []), h_read_file = (\<lambda>_. None), h_credentials = (\<lambda>_. None),
     h_load_key = (\<lambda>_. False), h_mkdir_for = (\<lambda>_. True), h_dbfile = (\<lambda>_. \<lparr>f_keys = None, f_tokens = NoTokens\<rparr>),
     h_get = (\<lambda>_. None)\<rparr>"



end
