(* ===== verification/Lifecycle.thy ===== *)
theory Lifecycle
  imports Relay_Main
begin

text \<open>
  The life of the process (\<open>main\<close> of \<open>cmd/relay/main.go\<close> after start-up): it handles requests
  until the listener fails or a signal arrives, then lets the requests under way finish for ten
  seconds at most, closes the store and exits. It may also be killed at any moment, and be
  started again on the database it left.

  A start reads the database file as the last process left it: a transaction is one step of
  its thread, so what a process leaves behind is what its last step left.
\<close>

datatype phase = Running | Draining gotime | Closing | Down int

record relay =
  rl_phase :: phase
  rl_conc :: conc

fun alive :: "phase \<Rightarrow> bool" where
  "alive (Down _) = False"
| "alive _ = True"

text \<open>The file of a database with the current schema.\<close>

definition db_file :: "tables \<Rightarrow> dbfile" where
  "db_file d = \<lparr>f_keys = Some (keys_tab d, keys_seq d), f_tokens = TokensV2 (tokens_tab d) (tokens_seq d)\<rparr>"

text \<open>\<open>sql.DB.Close\<close>: from then on every statement fails and does nothing.\<close>

definition Close :: "world \<Rightarrow> world" where
  "Close w = w\<lparr>w_db := \<lambda>_. DbErr False\<rparr>"

text \<open>A server that has just started, with the history of its store so far.\<close>

definition started :: "Server \<Rightarrow> world \<Rightarrow> Store list \<Rightarrow> conc" where
  "started srv w past = \<lparr>cc_threads = [], cc_server = srv, cc_world = w, cc_past = past @ [sv_keys srv], cc_ops = []\<rparr>"

definition shutdown_grace :: int where
  "shutdown_grace = 10 * second_ns"

text \<open>A signal: the log line, and the deadline of \<open>Shutdown\<close>.\<close>

definition begin_shutdown :: "world \<Rightarrow> gotime \<times> world" where
  "begin_shutdown w = (case time_now (log_print LogShuttingDown w) of (now, w1) \<Rightarrow> (time_add now shutdown_grace, w1))"

inductive relay_step :: "relay \<Rightarrow> relay \<Rightarrow> bool" where
  handles: "alive (rl_phase r) \<Longrightarrow> conc_step (rl_conc r) c \<Longrightarrow> relay_step r (r\<lparr>rl_conc := c\<rparr>)"
| listen_fails: "rl_phase r = Running \<Longrightarrow>
    relay_step r \<lparr>rl_phase = Down 1, rl_conc = (rl_conc r)\<lparr>cc_world := log_print LogListen (cc_world (rl_conc r))\<rparr>\<rparr>"
| signalled: "rl_phase r = Running \<Longrightarrow> begin_shutdown (cc_world (rl_conc r)) = (deadline, w) \<Longrightarrow>
    relay_step r \<lparr>rl_phase = Draining deadline, rl_conc = (rl_conc r)\<lparr>cc_world := w\<rparr>\<rparr>"
| drained: "rl_phase r = Draining deadline \<Longrightarrow> all_answered (rl_conc r) \<Longrightarrow>
    relay_step r \<lparr>rl_phase = Closing, rl_conc = (rl_conc r)\<lparr>cc_world := Close (cc_world (rl_conc r))\<rparr>\<rparr>"
| cut_off: "rl_phase r = Draining deadline \<Longrightarrow> time_now (cc_world (rl_conc r)) = (now, w) \<Longrightarrow> t_mono deadline \<le> t_mono now \<Longrightarrow>
    relay_step r \<lparr>rl_phase = Closing, rl_conc = (rl_conc r)\<lparr>cc_world := Close w\<rparr>\<rparr>"
| exits: "rl_phase r = Closing \<Longrightarrow> relay_step r (r\<lparr>rl_phase := Down 0\<rparr>)"
| killed: "alive (rl_phase r) \<Longrightarrow> relay_step r (r\<lparr>rl_phase := Down code\<rparr>)"
| restarts: "rl_phase r = Down code \<Longrightarrow>
    h_dbfile h (DBPath (Load (h_env h))) = db_file (s_db (sv_keys (cc_server (rl_conc r)))) \<Longrightarrow>
    relay_main h w = Serving addr srv w' \<Longrightarrow>
    relay_step r \<lparr>rl_phase = Running, rl_conc = started srv w' (cc_past (rl_conc r))\<rparr>"

definition life_start :: "relay \<Rightarrow> bool" where
  "life_start r \<longleftrightarrow> (\<exists>h w addr srv w'. relay_main h w = Serving addr srv w' \<and> file_ok (h_dbfile h (DBPath (Load (h_env h)))) \<and>
     r = \<lparr>rl_phase = Running, rl_conc = started srv w' []\<rparr>)"

interpretation life: step_system life_start relay_step .

section \<open>A restart finds the store as it was\<close>

lemma started_tables_ok:
  assumes "relay_main h w = Serving addr srv w'" and "file_ok (h_dbfile h (DBPath (Load (h_env h))))"
  shows "tables_ok (s_db (sv_keys srv))"
  using assms(1) by (rule relay_main_store) (rule Open_file_ok[OF _ assms(2)])

lemma restart_same:
  assumes "relay_main h w = Serving addr srv w'" "h_dbfile h (DBPath (Load (h_env h))) = db_file d"
  shows "s_db (sv_keys srv) = d"
  using assms(1)
proof (rule relay_main_store)
  fix w2 f w3 assume "Open (h_dbfile h (DBPath (Load (h_env h)))) w2 = (Some (sv_keys srv), f, w3)"
  then show ?thesis using Open_current[of "db_file d" "tokens_tab d" "tokens_seq d" "keys_tab d" "keys_seq d"] assms(2)
    by (simp add: db_file_def)
qed

section \<open>What holds over the whole life\<close>

definition life_inv :: "relay \<Rightarrow> bool" where
  "life_inv r \<longleftrightarrow> conc_inv (rl_conc r) \<and> history_ok (rl_conc r) \<and> (\<forall>s \<in> set (cc_past (rl_conc r)). tables_ok (s_db s)) \<and>
     (rl_phase r = Closing \<longrightarrow> w_db (cc_world (rl_conc r)) = (\<lambda>_. DbErr False))"

lemma world_frame [simp]:
  "conc_inv (c\<lparr>cc_world := w\<rparr>) = conc_inv c" "history_ok (c\<lparr>cc_world := w\<rparr>) = history_ok c"
  by (simp_all add: conc_inv_def history_ok_def)

lemma started_conc_inv: "conc_inv (started srv w past)"
  by (simp add: conc_inv_def started_def)

lemma started_history:
  assumes "past = [] \<or> sorted_wrt keys_kept past \<and> keys_kept (last past) (sv_keys srv)"
  shows "history_ok (started srv w past)"
  using assms history_grows[of past "sv_keys srv"] by (cases "past = []") (auto simp: history_ok_def started_def)

lemma history_now: "history_ok c \<Longrightarrow> sv_keys (cc_server c) \<in> set (cc_past c)"
  by (metis history_ok_def last_in_set)

lemma conc_step_tables:
  assumes "conc_step c c'" "\<forall>s \<in> set (cc_past c). tables_ok (s_db s)" "history_ok c"
  shows "\<forall>s \<in> set (cc_past c'). tables_ok (s_db s)"
  using assms(1)
proof cases
  case (thread i n th cd sched th' srv' w')
  have "tables_ok (s_db (sv_keys srv'))"
    using tables_ok_steps[OF thread_step_store[OF thread(4)]] assms(2) history_now[OF assms(3)] by blast
  then show ?thesis using thread(1) assms(2) by simp
qed (use assms(2) in simp)

lemma conc_step_onward: "conc_step c c' \<Longrightarrow> onward (cc_world c) (cc_world c')"
  by (induction rule: conc_step.induct) (auto dest: thread_step_onward)

lemma life_inv_step: "relay_step r r' \<Longrightarrow> life_inv r \<Longrightarrow> life_inv r'"
proof (induction rule: relay_step.induct)
  case (handles r c)
  then show ?case
    using conc_inv_step[OF handles.hyps(2)] history_step[OF handles.hyps(2)] conc_step_onward[OF handles.hyps(2)]
      conc_step_tables[OF handles.hyps(2)]
    by (simp add: life_inv_def onward_def)
next
  case (restarts r code h w addr srv w')
  let ?c = "rl_conc r"
  have db: "s_db (sv_keys srv) = s_db (sv_keys (cc_server ?c))" using restart_same[OF restarts.hyps(3,2)] .
  have "keys_kept (last (cc_past ?c)) (sv_keys srv)" "sorted_wrt keys_kept (cc_past ?c)"
    using restarts.prems db keys_kept_same by (simp_all add: life_inv_def history_ok_def)
  then have "history_ok (started srv w' (cc_past ?c))" by (intro started_history) simp
  moreover have "tables_ok (s_db (sv_keys srv))" using restarts.prems db history_now[of ?c] by (simp add: life_inv_def)
  ultimately show ?case using restarts.prems started_conc_inv by (simp add: life_inv_def) (simp add: started_def)
qed (auto simp: life_inv_def Close_def)

lemma life_reach_inv: "life.reach r \<Longrightarrow> life_inv r"
proof (rule life.reach_invariant[where I = life_inv])
  fix r assume "life_start r"
  then show "life_inv r"
    using started_conc_inv started_history[of "[]"] started_tables_ok
    by (auto simp: life_start_def life_inv_def) (simp add: started_def)
qed (auto intro: life_inv_step)

lemma life_thread:
  "life.reach r \<Longrightarrow> (n, th) \<in> set (cc_threads (rl_conc r)) \<Longrightarrow> thread_ok (cc_server (rl_conc r)) (cc_past (rl_conc r)) n th"
  using life_reach_inv[of r] by (auto simp: life_inv_def conc_inv_def)

lemma life_arrival: "life.reach r \<Longrightarrow> (n, th) \<in> set (cc_threads (rl_conc r)) \<Longrightarrow> n < length (cc_past (rl_conc r))"
  using life_reach_inv[of r] by (auto simp: life_inv_def conc_inv_def)

lemma life_tables: "life.reach r \<Longrightarrow> tables_ok (s_db (sv_keys (cc_server (rl_conc r))))"
  using life_reach_inv[of r] history_now by (auto simp: life_inv_def)

section \<open>A revoked key\<close>

lemma past_grows: "relay_step\<^sup>*\<^sup>* r r' \<Longrightarrow> \<exists>new. cc_past (rl_conc r') = cc_past (rl_conc r) @ new"
proof (induction rule: rtranclp_induct)
  case (step y z)
  have "\<exists>new. cc_past (rl_conc z) = cc_past (rl_conc y) @ new"
    using step.hyps(2) by (auto simp: started_def elim!: relay_step.cases conc_step.cases)
  then show ?case using step.IH by auto
qed simp

lemma same_key:
  assumes "tables_ok d" "row \<in> set (keys_tab d)" "row' \<in> set (keys_tab d)" "k_id row = k_id row'"
  shows "row = row'"
proof -
  have "distinct (map k_id (keys_tab d))"
    using assms(1) by (simp add: tables_ok_def strict_sorted_iff)
  then show ?thesis using assms(2-4) by (auto simp: distinct_map dest: inj_onD)
qed

lemma revoked_silent:
  assumes "life.reach r" "(n, th) \<in> set (cc_threads (rl_conc r))"
    "sql_select_key (hashKey (bearerToken (th_req th))) (s_db (cc_past (rl_conc r) ! n)) = Some row" "k_revoked row \<noteq> None"
  shows "th_calls th = [] \<and> th_pc th \<noteq> AtAnswer (writeJSON 200 (BodyResults rs))"
proof -
  have "history_ok (rl_conc r)" using life_reach_inv[OF assms(1)] by (simp add: life_inv_def)
  note no = revoked_not_valid[OF this order_refl assms(3,4)]
  have ok: "thread_ok (cc_server (rl_conc r)) (cc_past (rl_conc r)) n th" using life_thread[OF assms(1,2)] .
  then have "th_calls th = []" using thread_ok_calls_valid no by blast
  moreover have "th_pc th \<noteq> AtAnswer (writeJSON 200 (BodyResults rs))" using ok no by (auto simp: thread_ok_def)
  ultimately show ?thesis by blast
qed

lemma confirmed_revocation:
  assumes "life.reach r" "(n0, th0) \<in> set (cc_threads (rl_conc r))" "th_pc th0 = AtAnswer resp" "rs_status resp = 204"
    and "asks_revoke (sv_cfg (cc_server (rl_conc r))) (th_req th0) i" "relay_step\<^sup>*\<^sup>* r r'" "length (cc_past (rl_conc r)) \<le> Suc n"
    and "n < length (cc_past (rl_conc r'))" "row \<in> set (keys_tab (s_db (cc_past (rl_conc r') ! n)))" "k_id row = i"
  shows "k_revoked row \<noteq> None"
proof -
  have r': "life_inv r'" using life_reach_inv[OF life.reach_steps[OF assms(1,6)]] .
  obtain j where j: "j < length (cc_past (rl_conc r))" "revoked_in (cc_past (rl_conc r) ! j) i"
    using life_thread[OF assms(1,2)] assms(3-5) by (auto simp: thread_ok_def asks_revoke_def)
  have "revoked_in (cc_past (rl_conc r') ! j) i" using past_grows[OF assms(6)] j by (auto simp: nth_append)
  moreover have "keys_kept (cc_past (rl_conc r') ! j) (cc_past (rl_conc r') ! n)"
    using r' history_kept[of "rl_conc r'" j n] j(1) assms(7,8) by (simp add: life_inv_def)
  ultimately obtain row1 where "row1 \<in> set (keys_tab (s_db (cc_past (rl_conc r') ! n)))" "k_id row1 = i" "k_revoked row1 \<noteq> None"
    by (auto simp: keys_kept_def revoked_in_def)
  moreover have "tables_ok (s_db (cc_past (rl_conc r') ! n))" using r' assms(8) by (simp add: life_inv_def)
  ultimately show ?thesis using same_key assms(9,10) by metis
qed

section \<open>Shutting down\<close>

lemma handles_many:
  assumes "conc_step\<^sup>*\<^sup>* (rl_conc r) c" "alive (rl_phase r)"
  shows "relay_step\<^sup>*\<^sup>* r (r\<lparr>rl_conc := c\<rparr>)"
  using assms(1)
proof (induction rule: rtranclp_induct)
  case (step y z)
  have "relay_step (r\<lparr>rl_conc := y\<rparr>) (r\<lparr>rl_conc := z\<rparr>)"
    using handles[of "r\<lparr>rl_conc := y\<rparr>" z] step.hyps(2) assms(2) by simp
  then show ?case using step.IH by (rule rtranclp.rtrancl_into_rtrancl[rotated])
qed simp

lemma drain_finishes:
  assumes "rl_phase r = Draining deadline"
  shows "\<exists>r'. relay_step\<^sup>*\<^sup>* r r' \<and> rl_phase r' = Down 0 \<and> all_answered (rl_conc r') \<and>
     length (cc_threads (rl_conc r')) = length (cc_threads (rl_conc r))"
proof -
  obtain c where c: "conc_step\<^sup>*\<^sup>* (rl_conc r) c" "all_answered c" "length (cc_threads c) = length (cc_threads (rl_conc r))"
    using all_finish by blast
  have run: "relay_step\<^sup>*\<^sup>* r (r\<lparr>rl_conc := c\<rparr>)" using handles_many[OF c(1)] assms by simp
  let ?r1 = "\<lparr>rl_phase = Closing, rl_conc = c\<lparr>cc_world := Close (cc_world c)\<rparr>\<rparr>"
  have "relay_step (r\<lparr>rl_conc := c\<rparr>) ?r1" using drained[of "r\<lparr>rl_conc := c\<rparr>" deadline] assms c(2) by simp
  moreover have "relay_step ?r1 (?r1\<lparr>rl_phase := Down 0\<rparr>)" by (rule exits) simp
  ultimately have "relay_step\<^sup>*\<^sup>* r (?r1\<lparr>rl_phase := Down 0\<rparr>)" using run by (meson rtranclp.rtrancl_into_rtrancl)
  then show ?thesis using c(2,3) by (intro exI[of _ "?r1\<lparr>rl_phase := Down 0\<rparr>"]) (simp add: all_answered_def)
qed

lemma closing_after:
  assumes "relay_step r r'" "rl_phase r = Draining deadline" "rl_phase r' = Closing"
  shows "all_answered (rl_conc r) \<or> t_mono deadline \<le> t_mono (w_clock (cc_world (rl_conc r)) (w_cpos (cc_world (rl_conc r))))"
  using assms by (auto simp: time_now_def elim!: relay_step.cases)

text \<open>A closed store is not written to.\<close>

lemma closed_ops:
  assumes "w_db w = (\<lambda>_. DbErr False)"
  shows "Issue lab mx s w = (r, s', w') \<Longrightarrow> s_db s' = s_db s"
    "Revoke i s w = (e, s', w') \<Longrightarrow> s_db s' = s_db s"
    "verify_stamp k s w = (k', s', w') \<Longrightarrow> s_db s' = s_db s"
    "bind_tx kid pf t s w = (b, s', w') \<Longrightarrow> s_db s' = s_db s"
    "prune_gate ret s w = (due, s', w') \<Longrightarrow> s_db s' = s_db s"
    "prune_delete ret s w = (s', w') \<Longrightarrow> s_db s' = s_db s"
  using assms
  by (auto simp: world_defs Let_def write_if_def Issue_def Revoke_def verify_stamp_def bind_tx_def prune_gate_def prune_delete_def
      split: prod.splits option.splits if_splits)

lemma closed_step:
  assumes "thread_step cd sched pc (th, srv, w) = Some (th', srv', w')" "w_db w = (\<lambda>_. DbErr False)"
  shows "s_db (sv_keys srv') = s_db (sv_keys srv)"
proof (cases pc)
  case (AtMessage k ms)
  then show ?thesis using assms by (cases ms) (auto simp: Let_def split: if_splits prod.splits option.splits)
next
  case (AtRefund k "is")
  then show ?thesis using assms by (cases "is") (auto split: prod.splits)
qed (use assms in \<open>auto simp: Let_def dest: closed_ops[OF assms(2)] split: if_splits prod.splits sum.splits option.splits\<close>)

lemma registrations_bounded:
  assumes "relay_step r r'" "alive (rl_phase r)" "0 < MaxRegistrations (sv_cfg (cc_server (rl_conc r)))"
  shows "sql_count_keys (s_db (sv_keys (cc_server (rl_conc r'))))
     \<le> max (sql_count_keys (s_db (sv_keys (cc_server (rl_conc r))))) (MaxRegistrations (sv_cfg (cc_server (rl_conc r))))"
  using assms count_ceiling conc_step_store by (auto elim!: relay_step.cases)

lemma closing_writes_nothing:
  assumes "life.reach r" "rl_phase r = Closing" "relay_step r r'"
  shows "s_db (sv_keys (cc_server (rl_conc r'))) = s_db (sv_keys (cc_server (rl_conc r)))"
proof -
  have w: "w_db (cc_world (rl_conc r)) = (\<lambda>_. DbErr False)" using life_reach_inv[OF assms(1)] assms(2) by (simp add: life_inv_def)
  have step: "s_db (sv_keys (cc_server c')) = s_db (sv_keys (cc_server c))"
    if "conc_step c c'" "w_db (cc_world c) = (\<lambda>_. DbErr False)" for c c'
    using that by (induction rule: conc_step.induct) (auto dest: closed_step)
  show ?thesis using assms(3,2) w step by (auto elim!: relay_step.cases)
qed

section \<open>Properties\<close>

definition key_host :: "key_row list \<Rightarrow> host" where
  "key_host rows = ex_host\<lparr>h_env := (\<lambda>k. if k \<in> {''RELAY_APNS_KEY_PATH'', ''RELAY_APNS_KEY_ID'', ''RELAY_APNS_TEAM_ID'', ''RELAY_APNS_BUNDLE_ID'',
         ''RELAY_ADMIN_TOKEN''}
       then ''app'' else []),
     h_load_key := (\<lambda>_. True), h_dbfile := (\<lambda>_. \<lparr>f_keys = Some (rows, 1), f_tokens = TokensV2 [] 0\<rparr>)\<rparr>"

definition key_cfg :: Config where
  "key_cfg = Load (h_env (key_host []))"

lemma key_cfg_sel:
  "Load (h_env (key_host rows)) = key_cfg"
  "FCMCredentialsFile key_cfg = []" "APNsKeyPath key_cfg = ''app''" "APNsKeyID key_cfg = ''app''" "APNsTeamID key_cfg = ''app''"
  "AdminToken key_cfg = ''app''" "APNsBundleID key_cfg = ''app''" "APNsProduction key_cfg" "RegisterPerHour key_cfg = 5" "RegisterBurst key_cfg = 3"
  "SendPerMinute key_cfg = 120" "SendBurst key_cfg = 60" "CallSendPerMinute key_cfg = 10" "CallSendBurst key_cfg = 5"
  "MaxMessages key_cfg = 500" "SendConcurrency key_cfg = 8" "SendTimeoutSeconds key_cfg = 20" "TokenRetentionDays key_cfg = 90"
  by (simp_all add: key_cfg_def key_host_def ex_host_def Load_def getenv_def getint_def getbool_def)

lemma key_host_sel:
  "h_args (key_host rows) = [''relay'']" "h_load_key (key_host rows) p" "h_mkdir_for (key_host rows) p"
  "h_dbfile (key_host rows) p = \<lparr>f_keys = Some (rows, 1), f_tokens = TokensV2 [] 0\<rparr>"
  by (simp_all add: key_host_def ex_host_def)

definition key_server :: "key_row list \<Rightarrow> Server" where
  "key_server rows = \<lparr>sv_cfg = key_cfg, sv_ios = SApns ex_apns, sv_android = SUnconfigured ''fcm'',
     sv_keys = ex_keys\<lparr>s_db := empty_tables\<lparr>keys_tab := rows, keys_seq := 1\<rparr>\<rparr>,
     sv_registerLim = New_Limiter (fdiv 5 60) 3 (at_s 1), sv_sendLim = New_Limiter 120 60 (at_s 2), sv_callLim = New_Limiter 10 5 (at_s 3)\<rparr>"

definition live_world :: "world \<Rightarrow> bool" where
  "live_world w \<longleftrightarrow> w_clock w = w_clock quiet_world \<and> w_cpos w = 4 \<and> w_db w = (\<lambda>_. DbOk)"

lemma key_host_serves:
  "\<exists>addr w'. relay_main (key_host rows) quiet_world = Serving addr (key_server rows) w' \<and> live_world w'"
  by (simp add: relay_main_def buildFCM_def buildAPNs_def apns_New_def Open_def migrate_def sql_create_def sql_add_last_seen_def
      api_New_def world_defs Let_def key_cfg_sel key_host_sel quiet_world_def live_world_def
      key_server_def ex_keys_def ex_apns_def empty_tables_def at_s_def)

lemma key_host_file_ok: "tables_ok \<lparr>keys_tab = rows, keys_seq = 1, tokens_tab = [], tokens_seq = 0\<rparr> \<Longrightarrow> file_ok (h_dbfile (key_host rows) p)"
  by (simp add: file_ok_def key_host_sel)

lemma key_server_sends:
  assumes "live_world w"
  shows "\<exists>d. serve False ex_run ex_request (key_server [ex_key_row]) w = Some d \<and> sd_calls d = [ex_push]"
proof -
  let ?srv = "key_server [ex_key_row]"
  let ?k = "ex_keys\<lparr>s_db := empty_tables\<lparr>keys_tab := [ex_key_row\<lparr>k_used := Some 4\<rparr>], keys_seq := 1\<rparr>\<rparr>"
  let ?w = "w\<lparr>w_dpos := Suc (Suc (w_dpos w)), w_cpos := 5\<rparr>"
  let ?l = "snd (Allow (FormatInt 1) (w_clock w 5) (New_Limiter 120 60 (at_s 2)))"
  have w: "w_clock w i = at_s (int i)" "w_cpos w = 4" "w_db w i = DbOk" for i
    using assms by (simp_all add: live_world_def quiet_world_def at_s_def)
  have v: "Verify ''key'' (ex_keys\<lparr>s_db := empty_tables\<lparr>keys_tab := [ex_key_row], keys_seq := 1\<rparr>\<rparr>) w
      = (Inr \<lparr>ID = 1, Label = ''lab'', CreatedAt = 0, LastUsedAt = Some 4, RevokedAt = None\<rparr>, ?k, ?w)"
    by (simp add: Verify_def ex_keys_def ex_key_row_def sql_select_key_def sql_stamp_used_def empty_tables_def
        w world_defs time_unix_def at_s_def)
  have "handleSend False ex_run ex_request ?srv w
      = send_batch False ex_run 1 ex_batch (?srv\<lparr>sv_keys := ?k, sv_sendLim := ?l\<rparr>) (?w\<lparr>w_cpos := 6\<rparr>)"
    by (simp add: handleSend_def ex_bearer v ask_fresh ex_decode ex_batch_def key_server_def key_cfg_sel)
  moreover have "\<exists>d. send_batch False ex_run 1 ex_batch (?srv\<lparr>sv_keys := ?k, sv_sendLim := ?l\<rparr>) (?w\<lparr>w_cpos := 6\<rparr>) = Some d
      \<and> sd_calls d = [ex_push]"
    by (simp add: key_server_def key_cfg_sel ex_push_def w at_s_def send_eval)
  moreover have "route_of (sv_cfg ?srv) ''POST'' [''v1'', ''send''] = RSend" by (simp add: route_of_def on_method_def)
  ultimately show ?thesis by (simp add: serve_def ex_request_def)
qed

lemma key_life:
  assumes "tables_ok \<lparr>keys_tab = rows, keys_seq = 1, tokens_tab = [], tokens_seq = 0\<rparr>"
  obtains w where "life_start \<lparr>rl_phase = Running, rl_conc = started (key_server rows) w []\<rparr>" "live_world w"
  using key_host_serves[of rows] key_host_file_ok[OF assms] unfolding life_start_def by metis

lemma ex_rows_ok: "tables_ok \<lparr>keys_tab = [ex_key_row\<lparr>k_revoked := x\<rparr>], keys_seq = 1, tokens_tab = [], tokens_seq = 0\<rparr>"
  by (simp add: tables_ok_def ex_key_row_def)

text \<open>
  C5: whatever requests run at once, wherever the driver fails, and however often the process is
  stopped, killed and started again on the database it left, the tables stay well-formed, no
  key is ever lost or comes back from its revocation, no step takes the number of
  registrations beyond the ceiling then configured, and nothing is written once the store has
  been closed.
\<close>

theorem process_store_sound:
  assumes "life.reach r"
  shows "tables_ok (s_db (sv_keys (cc_server (rl_conc r)))) \<and>
     (i \<le> j \<and> j < length (cc_past (rl_conc r)) \<longrightarrow> keys_kept (cc_past (rl_conc r) ! i) (cc_past (rl_conc r) ! j)) \<and>
     (relay_step r r' \<and> alive (rl_phase r) \<and> 0 < MaxRegistrations (sv_cfg (cc_server (rl_conc r))) \<longrightarrow>
        sql_count_keys (s_db (sv_keys (cc_server (rl_conc r'))))
          \<le> max (sql_count_keys (s_db (sv_keys (cc_server (rl_conc r))))) (MaxRegistrations (sv_cfg (cc_server (rl_conc r))))) \<and>
     (relay_step r r' \<and> rl_phase r = Closing \<longrightarrow>
        s_db (sv_keys (cc_server (rl_conc r'))) = s_db (sv_keys (cc_server (rl_conc r))))"
proof -
  have inv: "life_inv r" using assms by (rule life_reach_inv)
  have "history_ok (rl_conc r)" using inv by (simp add: life_inv_def)
  then show ?thesis
    using life_tables[OF assms] history_kept registrations_bounded closing_writes_nothing[OF assms] by blast
qed

theorem process_store_sound_witness:
  "\<exists>r r'. life.reach r \<and> relay_step r r' \<and> rl_phase r' = Down 9 \<and> tables_ok (s_db (sv_keys (cc_server (rl_conc r'))))"
proof -
  obtain w where w: "life_start \<lparr>rl_phase = Running, rl_conc = started (key_server [ex_key_row\<lparr>k_revoked := None\<rparr>]) w []\<rparr>"
    using key_life[OF ex_rows_ok] by blast
  let ?r = "\<lparr>rl_phase = Running, rl_conc = started (key_server [ex_key_row\<lparr>k_revoked := None\<rparr>]) w []\<rparr>"
  have r: "life.reach ?r" using w by (rule life.reach_start)
  have k: "relay_step ?r (?r\<lparr>rl_phase := Down 9\<rparr>)" by (rule killed) simp
  show ?thesis
    using process_store_sound[OF life.reach_step[OF r k]] r k by (intro exI[of _ ?r] exI[of _ "?r\<lparr>rl_phase := Down 9\<rparr>"]) simp
qed



end
