(* ===== verification/Budgets.thy ===== *)
theory Budgets
  imports Lifecycle
begin

text \<open>
  The budgets of a key in the running system: how often its send requests get past the send
  limiter, and how many of its calls are handed to a provider, whatever runs at once. The
  calls of a limiter made by all threads form one run of it (\<open>Rate_Limit\<close>); the bound of such a
  run becomes one for the threads by counting, thread by thread, what each spends, what it
  gives back and what it pushes.
\<close>

section \<open>A limiter in the system is one run of its calls\<close>

definition ops_on :: "limiter_name \<Rightarrow> (limiter_name \<times> lim_op) list \<Rightarrow> lim_op list" where
  "ops_on nm ops = map snd (filter (\<lambda>(x, _). x = nm) ops)"

fun lim_of :: "limiter_name \<Rightarrow> Server \<Rightarrow> Limiter" where
  "lim_of RegisterLim srv = sv_registerLim srv"
| "lim_of SendLim srv = sv_sendLim srv"
| "lim_of CallLim srv = sv_callLim srv"

definition t_now :: "world \<Rightarrow> int" where
  "t_now w = t_mono (w_clock w (w_cpos w))"

lemma ops_on_simps [simp]:
  "ops_on nm [] = []" "ops_on nm ((x, y) # ops) = (if x = nm then y # ops_on nm ops else ops_on nm ops)"
  "ops_on nm (ops @ ops') = ops_on nm ops @ ops_on nm ops'"
  by (simp_all add: ops_on_def)

lemma lim_run_append: "snd (lim_run (xs @ ys) l) = snd (lim_run ys (snd (lim_run xs l)))"
  by (induction xs arbitrary: l) (simp_all add: case_prod_beta)

lemma admitted_append: "admitted k (xs @ ys) l = admitted k xs l + admitted k ys (snd (lim_run xs l))"
  by (induction xs arbitrary: l) (simp_all split: prod.split)

lemma timed_earlier: "timed u ys v \<Longrightarrow> t \<le> u \<Longrightarrow> timed t ys v"
  by (induction u ys v arbitrary: t rule: timed.induct) auto

lemma timed_append: "timed t xs u \<Longrightarrow> timed u ys v \<Longrightarrow> timed t (xs @ ys) v"
  by (induction t xs u rule: timed.induct) (auto intro: timed_earlier)

lemma onward_now: "onward w w' \<Longrightarrow> clock_mono w \<Longrightarrow> t_now w \<le> t_now w' \<and> clock_mono w'"
  unfolding onward_def t_now_def using later_reading later_clock by blast

lemma ask_op:
  assumes "ask key l w = (ok, l', w')" "clock_mono w"
  shows "Allow key (fst (time_now w)) l = (ok, l')" "timed (t_now w) [DoAllow key (fst (time_now w))] (t_now w')"
  using ask_world[OF assms(1)] assms(2) by (auto simp: t_now_def time_now_def clock_mono_def)

lemma call_gate_ops:
  assumes "asks_call m" "ask (FormatInt keyID) (sv_callLim srv) w = (ok, l, w1)"
    and "thread_step cd sched (AtMessage keyID (m # ms)) (th, srv, w) = Some (th', srv', w')"
  shows "srv' = srv\<lparr>sv_callLim := l\<rparr>" "w' = w1"
    "ok \<Longrightarrow> \<exists>pf. th' = goto (AtBind keyID pf \<lparr>m_Token = sm_Token m, m_Kind = KindCall, m_Payload = sm_Payload m\<rparr> ms) th"
    "\<not> ok \<Longrightarrow> th' = goto (AtMessage keyID ms) (note_result (sm_Token m) StatusError th)"
  using assms by (auto simp: asks_call_def not_less)

lemma no_call_ops:
  assumes "\<not> asks_call m" "thread_step cd sched (AtMessage keyID (m # ms)) (th, srv, w) = Some (th', srv', w')"
  shows "srv' = srv" "w' = w"
    "th' = goto (AtMessage keyID ms) th \<or> th' = goto (AtMessage keyID ms) (note_result (sm_Token m) StatusError th) \<or>
     (\<exists>pf kind. kind \<noteq> KindCall \<and> th' = goto (AtBind keyID pf \<lparr>m_Token = sm_Token m, m_Kind = kind, m_Payload = sm_Payload m\<rparr> ms) th)"
  using assms by (auto simp: asks_call_def Let_def split: if_splits option.splits prod.splits)

lemma thread_step_metered:
  assumes st: "thread_step cd sched pc (th, srv, w) = Some (th', srv', w')" and clk: "clock_mono w"
  shows "lim_of nm srv' = snd (lim_run (ops_on nm (limiter_ops pc (th, srv, w))) (lim_of nm srv)) \<and>
     timed (t_now w) (ops_on nm (limiter_ops pc (th, srv, w))) (t_now w')"
proof -
  have le: "t_now w \<le> t_now w'" using onward_now[OF thread_step_onward[OF st] clk] by simp
  show ?thesis
  proof (cases pc)
    case AtRegister
    then show ?thesis using st le clk by (cases nm) (auto dest: ask_op split: prod.splits)
  next
    case (AtLimit k)
    then show ?thesis using st le clk by (cases nm) (auto dest: ask_op split: prod.splits)
  next
    case (AtMessage k ms)
    show ?thesis
    proof (cases ms)
      case (Cons m ms')
      show ?thesis
      proof (cases "asks_call m")
        case True
        obtain ok l w1 where a: "ask (FormatInt k) (sv_callLim srv) w = (ok, l, w1)" by (metis prod_cases3)
        then show ?thesis
          using call_gate_ops(1,2)[OF True a st[unfolded AtMessage Cons]] le ask_op[OF a clk] True AtMessage Cons by (cases nm) auto
      next
        case False
        then show ?thesis using no_call_ops(1,2)[OF False st[unfolded AtMessage Cons]] le False AtMessage Cons by simp
      qed
    qed (use st le AtMessage in auto)
  next
    case (AtRefund k "is")
    then show ?thesis using st le by (cases "is"; cases nm) (auto split: prod.splits if_splits)
  qed (use st le in \<open>cases nm; auto simp: Let_def split: if_splits prod.splits sum.splits option.splits\<close>)+
qed

definition metered :: "conc \<Rightarrow> conc \<Rightarrow> bool" where
  "metered c0 c \<longleftrightarrow> clock_mono (cc_world c) \<and>
     (\<forall>nm. lim_of nm (cc_server c) = snd (lim_run (ops_on nm (cc_ops c)) (lim_of nm (cc_server c0))) \<and>
        timed (t_now (cc_world c0)) (ops_on nm (cc_ops c)) (t_now (cc_world c)))"

lemma metered_start: "conc_start c \<Longrightarrow> clock_mono (cc_world c) \<Longrightarrow> metered c c"
  by (simp add: metered_def conc_start_def)

lemma metered_step: "conc_step c c' \<Longrightarrow> metered c0 c \<Longrightarrow> metered c0 c'"
proof (induction rule: conc_step.induct)
  case (thread i c n th cd sched th' srv' w')
  have clk: "clock_mono (cc_world c)" using thread.prems by (simp add: metered_def)
  show ?case
    using thread.prems thread_step_metered[OF thread.hyps(3) clk] onward_now[OF thread_step_onward[OF thread.hyps(3)] clk]
    by (auto simp: metered_def lim_run_append intro: timed_append)
qed (simp add: metered_def)

section \<open>What a thread spends, gives back and pushes\<close>

fun pc_key :: "handler_pc \<Rightarrow> int option" where
  "pc_key (AtMessage k _) = Some k"
| "pc_key (AtBind k _ _ _) = Some k"
| "pc_key (AtPrune k _ _ _ _) = Some k"
| "pc_key (AtDelete k _ _ _ _) = Some k"
| "pc_key (AtPool k) = Some k"
| "pc_key (AtRefund k _) = Some k"
| "pc_key _ = None"

fun unlimited :: "handler_pc \<Rightarrow> bool" where
  "unlimited (AtAnswer _) = False"
| "unlimited pc = (pc_key pc = None)"

definition paid_ok :: "hthread \<Rightarrow> bool" where
  "paid_ok th \<longleftrightarrow> (\<forall>k. pc_key (th_pc th) = Some k \<longrightarrow> th_key th = Some k) \<and>
     (unlimited (th_pc th) \<longrightarrow> th_items th = [] \<and> th_key th = None) \<and>
     (\<forall>k is. th_pc th = AtRefund k is \<longrightarrow> (\<exists>before. th_items th = before @ is))"

text \<open>A call that has passed the limiter and is not queued yet.\<close>

fun in_flight :: "handler_pc \<Rightarrow> nat" where
  "in_flight (AtBind _ _ msg _) = of_bool (m_Kind msg = KindCall)"
| "in_flight (AtPrune _ _ msg _ _) = of_bool (m_Kind msg = KindCall)"
| "in_flight (AtDelete _ _ msg _ _) = of_bool (m_Kind msg = KindCall)"
| "in_flight _ = 0"

fun given_back :: "handler_pc \<Rightarrow> dispatchItem list \<Rightarrow> Result list \<Rightarrow> nat" where
  "given_back (AtRefund _ is) items rs = unattempted_calls items rs - unattempted_calls is rs"
| "given_back (AtAnswer _) items rs = unattempted_calls items rs"
| "given_back _ items rs = 0"

definition spent :: "int \<Rightarrow> hthread \<Rightarrow> nat" where
  "spent k th = (if th_key th = Some k
     then length (filter (\<lambda>i. m_Kind (di_msg i) = KindCall) (th_items th)) + in_flight (th_pc th) else 0)"

definition refunded :: "int \<Rightarrow> hthread \<Rightarrow> nat" where
  "refunded k th = (if th_key th = Some k then given_back (th_pc th) (th_items th) (th_results th) else 0)"

text \<open>The calls a request of the key handed to a sender: the pool has run and reports an outcome.\<close>

definition calls_pushed :: "int \<Rightarrow> hthread \<Rightarrow> nat" where
  "calls_pushed k th = (if th_key th = Some k \<and> pushed (th_pc th)
     then length (filter (\<lambda>i. m_Kind (di_msg i) = KindCall \<and> r_Status (th_results th ! di_resultIdx i) \<noteq> StatusNotAttempted)
       (th_items th)) else 0)"

definition let_through :: "int \<Rightarrow> hthread \<Rightarrow> nat" where
  "let_through k th = of_bool (th_key th = Some k)"

lemma filter_split: "length (filter P xs) = length (filter (\<lambda>x. P x \<and> Q x) xs) + length (filter (\<lambda>x. P x \<and> \<not> Q x) xs)"
  by (induction xs) auto

lemma calls_balance:
  assumes "paid_ok th"
  shows "calls_pushed k th + refunded k th \<le> spent k th"
proof -
  have "unattempted_calls (th_items th) (th_results th) + length (filter (\<lambda>i. m_Kind (di_msg i) = KindCall \<and>
      r_Status (th_results th ! di_resultIdx i) \<noteq> StatusNotAttempted) (th_items th))
    = length (filter (\<lambda>i. m_Kind (di_msg i) = KindCall) (th_items th))"
    unfolding unattempted_calls_def
    by (rule filter_split[where P = "\<lambda>i. m_Kind (di_msg i) = KindCall"
          and Q = "\<lambda>i. r_Status (th_results th ! di_resultIdx i) = StatusNotAttempted", symmetric])
  then show ?thesis by (cases "th_pc th") (auto simp: calls_pushed_def refunded_def spent_def)
qed

lemma unattempted_append: "unattempted_calls (xs @ ys) rs = unattempted_calls xs rs + unattempted_calls ys rs"
  by (simp add: unattempted_calls_def)

lemma unattempted_Cons:
  "unattempted_calls (i # is) rs = of_bool (m_Kind (di_msg i) = KindCall \<and> r_Status (rs ! di_resultIdx i) = StatusNotAttempted)
     + unattempted_calls is rs"
  by (simp add: unattempted_calls_def)

lemma routed_unlimited: "pc_key (routed cfg r) = None" "in_flight (routed cfg r) = 0" "given_back (routed cfg r) [] rs = 0"
  "routed cfg r \<noteq> AtRefund k is"
  by (auto simp: routed_def Let_def unattempted_calls_def split: route.split option.split)

lemma register_unlimited: "pc_key (register_body r) = None" "in_flight (register_body r) = 0" "given_back (register_body r) [] rs = 0"
  "register_body r \<noteq> AtRefund k is"
  by (auto simp: register_body_def unattempted_calls_def split: decoded.split)

lemma after_bind_pay:
  "th_key (after_bind srv k pf msg ow ms th) = th_key th" "th_pc (after_bind srv k pf msg ow ms th) = AtMessage k ms"
  "length (filter (\<lambda>i. m_Kind (di_msg i) = KindCall) (th_items (after_bind srv k pf msg ow ms th)))
     \<le> length (filter (\<lambda>i. m_Kind (di_msg i) = KindCall) (th_items th)) + of_bool (m_Kind msg = KindCall)"
  by (simp_all add: after_bind_def)

lemma thread_step_paid:
  assumes "thread_step cd sched (th_pc th) (th, srv, w) = Some (th', srv', w')" "paid_ok th"
  shows "paid_ok th'"
proof (cases "th_pc th")
  case (AtMessage k ms)
  then show ?thesis using assms
    by (cases ms) (auto simp: paid_ok_def Let_def split: if_splits prod.splits option.splits)
next
  case (AtRefund k "is")
  then show ?thesis using assms by (cases "is") (auto simp: paid_ok_def split: prod.splits)
qed (use assms routed_unlimited(1,4) register_unlimited(1,4)
    in \<open>auto simp: paid_ok_def Let_def after_bind_pay split: if_splits prod.splits sum.splits option.splits decoded.splits\<close>)

text \<open>What a step costs is what the limiter admits; what it gives back is a \<open>Return\<close> of its key.\<close>

lemma thread_step_spent:
  assumes st: "thread_step cd sched (th_pc th) (th, srv, w) = Some (th', srv', w')" and ok: "paid_ok th"
  shows "spent k th' \<le> spent k th + admitted (FormatInt k) (ops_on CallLim (limiter_ops (th_pc th) (th, srv, w))) (sv_callLim srv)"
proof (cases "th_pc th")
  case AtRoute
  then show ?thesis using assms routed_unlimited by (auto simp: spent_def paid_ok_def)
next
  case AtRegister
  then show ?thesis using assms register_unlimited by (auto simp: spent_def paid_ok_def split: prod.splits)
next
  case (AtMessage kid ms)
  show ?thesis
  proof (cases ms)
    case (Cons m ms')
    show ?thesis
    proof (cases "asks_call m")
      case True
      obtain okc l w1 where a: "ask (FormatInt kid) (sv_callLim srv) w = (okc, l, w1)" by (metis prod_cases3)
      have key: "th_key th = Some kid" using ok AtMessage by (simp add: paid_ok_def)
      have al: "Allow (FormatInt kid) (fst (time_now w)) (sv_callLim srv) = (okc, l)" using ask_world[OF a] by (simp add: time_now_def)
      show ?thesis
        using call_gate_ops(3,4)[OF True a st[unfolded AtMessage Cons]] True AtMessage Cons key al
        by (cases okc) (auto simp: spent_def)
    next
      case False
      then show ?thesis using no_call_ops(3)[OF False st[unfolded AtMessage Cons]] AtMessage Cons by (auto simp: spent_def)
    qed
  qed (use st AtMessage in \<open>auto simp: spent_def\<close>)
next
  case (AtPrune kid pf msg ow ms)
  then show ?thesis using st after_bind_pay[of srv kid pf msg ow ms th] by (auto simp: spent_def split: prod.splits if_splits)
next
  case (AtDelete kid pf msg ow ms)
  then show ?thesis using st after_bind_pay[of srv kid pf msg ow ms th] by (auto simp: spent_def split: prod.splits)
next
  case (AtRefund kid "is")
  then show ?thesis using st by (cases "is") (auto simp: spent_def split: prod.splits)
qed (use assms in \<open>auto simp: spent_def paid_ok_def Let_def split: if_splits prod.splits sum.splits option.splits decoded.splits\<close>)

lemma thread_step_refunded:
  assumes st: "thread_step cd sched (th_pc th) (th, srv, w) = Some (th', srv', w')" and ok: "paid_ok th"
  shows "count_list (ops_on CallLim (limiter_ops (th_pc th) (th, srv, w))) (DoReturn (FormatInt k)) + refunded k th = refunded k th'"
proof (cases "th_pc th")
  case AtRoute
  then show ?thesis using assms routed_unlimited by (auto simp: refunded_def paid_ok_def)
next
  case AtRegister
  then show ?thesis using assms register_unlimited by (auto simp: refunded_def paid_ok_def split: prod.splits)
next
  case (AtMessage kid ms)
  show ?thesis
  proof (cases ms)
    case (Cons m ms')
    show ?thesis
    proof (cases "asks_call m")
      case True
      obtain okc l w1 where a: "ask (FormatInt kid) (sv_callLim srv) w = (okc, l, w1)" by (metis prod_cases3)
      show ?thesis
        using call_gate_ops(3,4)[OF True a st[unfolded AtMessage Cons]] True AtMessage Cons by (cases okc) (auto simp: refunded_def)
    next
      case False
      then show ?thesis using no_call_ops(3)[OF False st[unfolded AtMessage Cons]] AtMessage Cons by (auto simp: refunded_def)
    qed
  qed (use st AtMessage in \<open>auto simp: refunded_def\<close>)
next
  case (AtPrune kid pf msg ow ms)
  then show ?thesis using st after_bind_pay(2)[of srv kid pf msg ow ms th] by (auto simp: refunded_def split: prod.splits if_splits)
next
  case (AtDelete kid pf msg ow ms)
  then show ?thesis using st after_bind_pay(2)[of srv kid pf msg ow ms th] by (auto simp: refunded_def split: prod.splits)
next
  case (AtRefund kid "is")
  then obtain before where before: "th_items th = before @ is" and key: "th_key th = Some kid" using ok by (auto simp: paid_ok_def)
  show ?thesis
  proof (cases "is")
    case (Cons i is')
    then show ?thesis using st AtRefund before key FormatInt_inj[of kid k]
      by (auto simp: refunded_def unattempted_append unattempted_Cons)
  qed (use st AtRefund in \<open>auto simp: refunded_def unattempted_calls_def split: prod.splits\<close>)
qed (use assms in \<open>auto simp: refunded_def paid_ok_def unattempted_calls_def Let_def
    split: if_splits prod.splits sum.splits option.splits decoded.splits\<close>)

lemma thread_step_let_through:
  assumes st: "thread_step cd sched (th_pc th) (th, srv, w) = Some (th', srv', w')"
  shows "let_through k th' \<le> let_through k th + admitted (FormatInt k) (ops_on SendLim (limiter_ops (th_pc th) (th, srv, w))) (sv_sendLim srv)"
proof (cases "th_pc th")
  case (AtLimit key)
  obtain ok l w1 where a: "ask (FormatInt (ID key)) (sv_sendLim srv) w = (ok, l, w1)" by (metis prod_cases3)
  have "Allow (FormatInt (ID key)) (fst (time_now w)) (sv_sendLim srv) = (ok, l)" using ask_world[OF a] by (simp add: time_now_def)
  then show ?thesis using st a AtLimit by (auto simp: let_through_def split: if_splits)
next
  case (AtMessage kid ms)
  then show ?thesis using st
    by (cases ms) (auto simp: let_through_def Let_def split: if_splits prod.splits option.splits)
next
  case (AtRefund kid "is")
  then show ?thesis using st by (cases "is") (auto simp: let_through_def split: prod.splits)
qed (use st in \<open>auto simp: let_through_def after_bind_pay Let_def split: if_splits prod.splits sum.splits option.splits\<close>)

section \<open>The accounts of a key\<close>

definition total :: "(hthread \<Rightarrow> nat) \<Rightarrow> conc \<Rightarrow> nat" where
  "total f c = sum_list (map (f \<circ> snd) (cc_threads c))"

lemma sum_list_replace:
  fixes f :: "'a \<Rightarrow> nat"
  assumes "i < length xs"
  shows "sum_list (map f (xs[i := x])) + f (xs ! i) = sum_list (map f xs) + f x"
  using assms by (induction xs arbitrary: i) (auto split: nat.split)

lemma total_replace:
  assumes "i < length (cc_threads c)" "cc_threads c ! i = (n, th)" "cc_threads c' = (cc_threads c)[i := (n, th')]"
  shows "total f c' + f th = total f c + f th'"
  using sum_list_replace[OF assms(1), of "f \<circ> snd" "(n, th')"] assms(2,3) by (simp add: total_def)

lemma total_mono: "(\<And>n th. (n, th) \<in> set (cc_threads c) \<Longrightarrow> f th \<le> g th) \<Longrightarrow> total f c \<le> total g c"
  unfolding total_def by (rule sum_list_mono) auto

definition accounts :: "int \<Rightarrow> conc \<Rightarrow> conc \<Rightarrow> bool" where
  "accounts k c0 c \<longleftrightarrow> metered c0 c \<and> (\<forall>(n, th) \<in> set (cc_threads c). paid_ok th) \<and>
     total (let_through k) c \<le> admitted (FormatInt k) (ops_on SendLim (cc_ops c)) (sv_sendLim (cc_server c0)) \<and>
     total (spent k) c \<le> admitted (FormatInt k) (ops_on CallLim (cc_ops c)) (sv_callLim (cc_server c0)) \<and>
     count_list (ops_on CallLim (cc_ops c)) (DoReturn (FormatInt k)) = total (refunded k) c"

lemma count_list_append: "count_list (xs @ ys) x = count_list xs x + count_list ys x"
  by (induction xs) auto

lemma accounts_step: "conc_step c c' \<Longrightarrow> accounts k c0 c \<Longrightarrow> accounts k c0 c'"
proof (induction rule: conc_step.induct)
  case (arrive c r)
  have "let_through k (new_thread r) = 0" "spent k (new_thread r) = 0" "refunded k (new_thread r) = 0" "paid_ok (new_thread r)"
    by (simp_all add: new_thread_def let_through_def spent_def refunded_def paid_ok_def)
  then show ?case using arrive metered_step[OF conc_step.arrive[of c r]] by (auto simp: accounts_def total_def)
next
  case (thread i c n th cd sched th' srv' w')
  let ?c = "c\<lparr>cc_threads := (cc_threads c)[i := (n, th')], cc_server := srv', cc_world := w', cc_past := cc_past c @ [sv_keys srv'],
     cc_ops := cc_ops c @ limiter_ops (th_pc th) (th, cc_server c, cc_world c)\<rparr>"
  have m: "metered c0 ?c" using metered_step[OF conc_step.thread[OF thread.hyps]] thread.prems by (simp add: accounts_def)
  have ok: "paid_ok th" using thread.prems nth_mem[OF thread.hyps(1)] thread.hyps(2) by (auto simp: accounts_def)
  have lims: "sv_sendLim (cc_server c) = snd (lim_run (ops_on SendLim (cc_ops c)) (sv_sendLim (cc_server c0)))"
      "sv_callLim (cc_server c) = snd (lim_run (ops_on CallLim (cc_ops c)) (sv_callLim (cc_server c0)))"
    using thread.prems unfolding accounts_def metered_def by (metis lim_of.simps(2), metis lim_of.simps(3))
  have tot: "total f ?c + f th = total f c + f th'" for f
    by (rule total_replace[OF thread.hyps(1,2)]) simp
  have paid: "\<forall>(n, th) \<in> set (cc_threads ?c). paid_ok th"
    using thread.prems thread_step_paid[OF thread.hyps(3) ok]
    by (auto simp: accounts_def dest!: set_update_subset_insert[THEN subsetD])
  show ?case
    unfolding accounts_def
    using m paid thread.prems tot[of "let_through k"] tot[of "spent k"] tot[of "refunded k"]
      thread_step_let_through[OF thread.hyps(3), of k] thread_step_spent[OF thread.hyps(3) ok, of k]
      thread_step_refunded[OF thread.hyps(3) ok, of k]
    by (simp add: accounts_def admitted_append count_list_append lims)
qed

lemma accounts_steps:
  assumes "conc_step\<^sup>*\<^sup>* c0 c" "conc_start c0" "clock_mono (cc_world c0)"
  shows "accounts k c0 c"
  using assms(1)
proof (induction rule: rtranclp_induct)
  case base
  then show ?case using metered_start[OF assms(2,3)] assms(2) by (simp add: accounts_def conc_start_def total_def)
qed (rule accounts_step)

text \<open>From the run of a limiter to the threads.\<close>

lemma run_bounds:
  assumes "conc_step\<^sup>*\<^sup>* c0 c" "conc_start c0" "clock_mono (cc_world c0)" "lim_now B (lim_of nm (cc_server c0)) (cc_world c0)"
    and "of_nat B \<le> 600 * l_rate (lim_of nm (cc_server c0))"
  shows "of_nat (admitted key (ops_on nm (cc_ops c)) (lim_of nm (cc_server c0)))
     \<le> of_nat B + earn (lim_of nm (cc_server c0)) (t_now (cc_world c) - t_now (cc_world c0))
       + of_nat (count_list (ops_on nm (cc_ops c)) (DoReturn key)) + of_nat (length (ops_on nm (cc_ops c))) * (fl_slack * of_nat B)"
proof -
  let ?l = "lim_of nm (cc_server c0)"
  have l: "lim_ok (t_now (cc_world c0)) ?l" "l_burst ?l = of_nat B"
    using assms(4) by (simp_all add: lim_now_def lim_good_def whole_burst_def t_now_def)
  have "timed (t_now (cc_world c0)) (ops_on nm (cc_ops c)) (t_now (cc_world c))"
    using accounts_steps[OF assms(1-3), of 0] by (simp add: accounts_def metered_def)
  from lim_run_bound[OF l(1) this, of key] show ?thesis
    using credit_le_burst[of ?l key "t_now (cc_world c0)"] l(2) assms(5) by simp
qed

lemma send_accounts:
  assumes "conc_step\<^sup>*\<^sup>* c0 c" "conc_start c0" "clock_mono (cc_world c0)"
  shows "total (let_through k) c \<le> admitted (FormatInt k) (ops_on SendLim (cc_ops c)) (sv_sendLim (cc_server c0))"
  using accounts_steps[OF assms] by (simp add: accounts_def)

lemma call_accounts:
  assumes "conc_step\<^sup>*\<^sup>* c0 c" "conc_start c0" "clock_mono (cc_world c0)"
  shows "total (calls_pushed k) c + count_list (ops_on CallLim (cc_ops c)) (DoReturn (FormatInt k))
     \<le> admitted (FormatInt k) (ops_on CallLim (cc_ops c)) (sv_callLim (cc_server c0))"
proof -
  have a: "accounts k c0 c" using accounts_steps[OF assms] .
  have "total (calls_pushed k) c + total (refunded k) c = total (\<lambda>th. calls_pushed k th + refunded k th) c"
    by (simp add: total_def sum_list_addf comp_def)
  also have "\<dots> \<le> total (spent k) c" using a calls_balance by (intro total_mono) (auto simp: accounts_def)
  finally show ?thesis using a by (simp add: accounts_def)
qed

lemma no_returns: "count_list (ops_on SendLim (cc_ops c)) (DoReturn key) = 0" if "conc.reach c"
proof -
  have step: "count_list (ops_on SendLim (limiter_ops pc x)) (DoReturn key) = 0" for pc x
    by (cases "(pc, x)" rule: limiter_ops.cases) auto
  show ?thesis
    using that
  proof (rule conc.reach_invariant[where I = "\<lambda>c. count_list (ops_on SendLim (cc_ops c)) (DoReturn key) = 0"])
    fix c c' assume "count_list (ops_on SendLim (cc_ops c)) (DoReturn key) = 0" "conc_step c c'"
    then show "count_list (ops_on SendLim (cc_ops c')) (DoReturn key) = 0"
      by (auto simp: count_list_append step elim!: conc_step.cases)
  qed (simp add: conc_start_def)
qed

section \<open>Properties\<close>


lemma ex_lims:
  "lim_now 60 (sv_sendLim (cc_server ex_conc)) (cc_world ex_conc)" "lim_now 5 (sv_callLim (cc_server ex_conc)) (cc_world ex_conc)"
  "l_rate (sv_sendLim (cc_server ex_conc)) = 2" "1 / 8 \<le> l_rate (sv_callLim (cc_server ex_conc))"
  "conc_start ex_conc" "clock_mono (cc_world ex_conc)"
proof -
  have "(1 / 6 :: rat) * (1 - fl_eps) \<le> fl (1 / 6)" by (rule fl_lower) simp
  then show "1 / 8 \<le> l_rate (sv_callLim (cc_server ex_conc))"
    by (simp add: ex_conc_def ex_server_def New_Limiter_def fdiv_def fl_eps_def)
qed (use New_Limiter_good[of 120 60 "w_clock quiet_world 0"] New_Limiter_good[of 10 5 "w_clock quiet_world 0"] clock_mono_quiet
  in \<open>simp_all add: lim_now_def ex_conc_def ex_server_def conc_start_def New_Limiter_def fdiv_def quiet_world_def\<close>)




end
