(* ===== verification/Ledger.thy ===== *)
theory Ledger
  imports Budgets
begin

text \<open>
  What the relay promises about keys and tokens, as an abstract machine: a ledger of the issued
  keys, each revoked or not, and of the key each token is bound to. The whole process, with its
  handlers interleaved, its driver failing and its restarts, implements it.
\<close>

record ledger =
  lg_revoked :: "int \<rightharpoonup> bool"
  lg_owner :: registry

text \<open>
  A key is issued under a new number, or revoked for good; a free token is bound to an issued
  key; bindings may be forgotten, but never handed over.
\<close>

inductive ledger_step :: "ledger \<Rightarrow> ledger \<Rightarrow> bool" where
  issue: "lg_revoked g i = None \<Longrightarrow> ledger_step g (g\<lparr>lg_revoked := (lg_revoked g)(i \<mapsto> False)\<rparr>)"
| revoke: "lg_revoked g i = Some False \<Longrightarrow> ledger_step g (g\<lparr>lg_revoked := (lg_revoked g)(i \<mapsto> True)\<rparr>)"
| claim: "lg_owner g token = None \<Longrightarrow> lg_revoked g i \<noteq> None \<Longrightarrow> ledger_step g (g\<lparr>lg_owner := (lg_owner g)(token \<mapsto> i)\<rparr>)"
| forget: "m \<subseteq>\<^sub>m lg_owner g \<Longrightarrow> ledger_step g (g\<lparr>lg_owner := m\<rparr>)"

inductive_cases ledger_stepE: "ledger_step g g'"

definition bound_to_issued :: "ledger \<Rightarrow> bool" where
  "bound_to_issued g \<longleftrightarrow> ran (lg_owner g) \<subseteq> dom (lg_revoked g)"

lemma bound_to_issued_step: "bound_to_issued g \<Longrightarrow> ledger_step g g' \<Longrightarrow> bound_to_issued g'"
  by (erule ledger_stepE) (auto simp: bound_to_issued_def ran_def dom_def map_le_def subset_iff split: if_splits, metis option.distinct(1))

lemma revoked_stays: "lg_revoked g i = Some True \<Longrightarrow> ledger_step g g' \<Longrightarrow> lg_revoked g' i = Some True"
  by (erule ledger_stepE) auto

section \<open>The tables as a ledger\<close>

definition ledger_of :: "tables \<Rightarrow> ledger" where
  "ledger_of d = \<lparr>lg_revoked = (\<lambda>i. map_option (\<lambda>r. k_revoked r \<noteq> None) (find (\<lambda>r. k_id r = i) (keys_tab d))),
     lg_owner = (\<lambda>(p, t). sql_owner p t d)\<rparr>"

lemma ledger_same: "keys_tab d' = keys_tab d \<Longrightarrow> (\<And>p t. sql_owner p t d' = sql_owner p t d) \<Longrightarrow> ledger_of d' = ledger_of d"
  by (simp add: ledger_of_def)

lemma ledger_insert_key:
  assumes "sql_insert_key h lab c d = Some d'" "tables_ok d"
  shows "ledger_step (ledger_of d) (ledger_of d')"
proof -
  have new: "find (\<lambda>r. k_id r = keys_seq d + 1) (keys_tab d) = None"
    using assms(2) by (force simp: tables_ok_def find_None_iff)
  have d': "d' = d\<lparr>keys_tab := keys_tab d @ [\<lparr>k_id = keys_seq d + 1, k_hash = h, k_label = lab, k_created = c, k_used = None, k_revoked = None\<rparr>],
      keys_seq := keys_seq d + 1\<rparr>"
    using assms(1) by (simp add: sql_insert_key_def split: if_splits)
  have "ledger_of d' = (ledger_of d)\<lparr>lg_revoked := (lg_revoked (ledger_of d))(keys_seq d + 1 \<mapsto> False)\<rparr>"
    using new by (auto simp: ledger_of_def d' fun_eq_iff find_append sql_owner_def split: option.split)
  then show ?thesis using issue[of "ledger_of d" "keys_seq d + 1"] new by (simp add: ledger_of_def)
qed

lemma ledger_stamp: "ledger_of (sql_stamp_used u i d) = ledger_of d"
  by (simp add: ledger_of_def sql_stamp_used_def find_map_keeps option.map_comp comp_def sql_owner_def if_distrib cong: if_cong)

lemma ledger_revoke: "ledger_step\<^sup>*\<^sup>* (ledger_of d) (ledger_of (snd (sql_revoke u i d)))"
proof -
  let ?g = "ledger_of d" and ?g' = "ledger_of (snd (sql_revoke u i d))"
  have f: "lg_revoked ?g' j = (if j = i then map_option (\<lambda>_. True) (lg_revoked ?g j) else lg_revoked ?g j)" for j
  proof -
    let ?f = "\<lambda>r. if revocable i r then r\<lparr>k_revoked := Some u\<rparr> else r"
    have "find (\<lambda>r. k_id r = j) (map ?f (keys_tab d)) = map_option ?f (find (\<lambda>r. k_id r = j) (keys_tab d))"
      by (rule find_map_keeps) simp
    then have r: "lg_revoked ?g' j = map_option (\<lambda>r. k_revoked (?f r) \<noteq> None) (find (\<lambda>r. k_id r = j) (keys_tab d))"
      by (simp add: ledger_of_def sql_revoke_def option.map_comp comp_def)
    show ?thesis
    proof (cases "find (\<lambda>r. k_id r = j) (keys_tab d)")
      case (Some row)
      then have "k_id row = j" using find_SomeD by fast
      then show ?thesis using Some unfolding r by (cases "j = i") (simp_all add: ledger_of_def revocable_def)
    qed (unfold r, cases "j = i", simp_all add: ledger_of_def)
  qed
  have o: "lg_owner ?g' = lg_owner ?g" by (simp add: ledger_of_def)
  show ?thesis
  proof (cases "lg_revoked ?g i = Some False")
    case True
    then have "lg_revoked ?g' = (lg_revoked ?g)(i \<mapsto> True)" by (intro ext) (simp add: f)
    then have "?g' = ?g\<lparr>lg_revoked := (lg_revoked ?g)(i \<mapsto> True)\<rparr>" using o by simp
    then show ?thesis using revoke[OF True] by auto
  next
    case False
    have "lg_revoked ?g' j = lg_revoked ?g j" for j using f[of j] False by (cases "lg_revoked ?g i") auto
    then have "lg_revoked ?g' = lg_revoked ?g" by (rule ext)
    then have "?g' = ?g" using o by (rule ledger.equality) simp
    then show ?thesis by simp
  qed
qed

lemma ledger_insert_token:
  assumes "sql_insert_token p t k now d = Some d'" "sql_owner p t d = None" "row \<in> set (keys_tab d)" "k_id row = k"
  shows "ledger_step (ledger_of d) (ledger_of d')"
proof -
  have "keys_tab d' = keys_tab d" using assms(1) by (auto simp: sql_insert_token_def split: if_splits)
  then have "ledger_of d' = (ledger_of d)\<lparr>lg_owner := (lg_owner (ledger_of d))((p, t) \<mapsto> k)\<rparr>"
    using owner_insert_token[OF assms(1)] by (auto simp: ledger_of_def fun_eq_iff)
  moreover have "lg_revoked (ledger_of d) k \<noteq> None" using assms(3,4) by (auto simp: ledger_of_def find_None_iff)
  ultimately show ?thesis using claim[of "ledger_of d" "(p, t)" k] assms(2) by (simp add: ledger_of_def)
qed

lemma ledger_delete:
  assumes "tables_ok d"
  shows "ledger_step (ledger_of d) (ledger_of (sql_delete_stale c d))"
proof -
  have "sql_owner p t (sql_delete_stale c d) = Some k \<Longrightarrow> sql_owner p t d = Some k" for p t k
    using owner_delete[of d p t c] assms by (auto simp: sql_owner_def tables_ok_def split: option.splits if_splits)
  then have "(\<lambda>(p, t). sql_owner p t (sql_delete_stale c d)) \<subseteq>\<^sub>m lg_owner (ledger_of d)"
    by (auto simp: map_le_def ledger_of_def dom_def)
  from forget[OF this] show ?thesis by (simp add: ledger_of_def sql_delete_stale_def)
qed

section \<open>The process implements the ledger\<close>

lemma ledger_thread:
  assumes st: "thread_step cd sched pc (th, srv, w) = Some (th', srv', w')" and ok: "tables_ok (s_db (sv_keys srv))"
    and key: "\<And>k pf msg ms. pc = AtBind k pf msg ms \<Longrightarrow> \<exists>row \<in> set (keys_tab (s_db (sv_keys srv))). k_id row = k"
  shows "ledger_step\<^sup>*\<^sup>* (ledger_of (s_db (sv_keys srv))) (ledger_of (s_db (sv_keys srv')))"
proof (cases pc)
  case (AtIssue lab)
  obtain x where "Issue lab (MaxRegistrations (sv_cfg srv)) (sv_keys srv) w = (x, sv_keys srv', snd (snd (Issue lab (MaxRegistrations (sv_cfg srv)) (sv_keys srv) w)))"
    using st AtIssue by (auto split: prod.splits sum.splits if_splits)
  from Issue_effect[OF this] show ?thesis using ledger_insert_key[OF _ ok] by (auto intro: r_into_rtranclp[of ledger_step])
next
  case (AtRevoke i)
  obtain x where "Revoke i (sv_keys srv) w = (x, sv_keys srv', snd (snd (Revoke i (sv_keys srv) w)))"
    using st AtRevoke by (auto split: prod.splits option.splits if_splits)
  from Revoke_effect[OF this] show ?thesis using ledger_revoke by auto
next
  case (AtStamp k)
  have "s_db (sv_keys srv') = s_db (sv_keys srv) \<or> (\<exists>u. s_db (sv_keys srv') = sql_stamp_used u (ID k) (s_db (sv_keys srv)))"
    using st AtStamp by (auto simp: verify_stamp_def Let_def write_if_def split: prod.splits db_out.splits if_splits)
  then show ?thesis using ledger_stamp by auto
next
  case (AtBind k pf msg ms)
  let ?p = "platform_str pf" and ?t = "m_Token msg"
  obtain row where row: "row \<in> set (keys_tab (s_db (sv_keys srv)))" "k_id row = k" using key[OF AtBind] by blast
  have b: "\<exists>x w2. bind_tx k ?p ?t (sv_keys srv) w = (x, sv_keys srv', w2)" using st AtBind by (auto split: prod.splits sum.splits)
  consider "sv_keys srv' = sv_keys srv"
    | now where "sql_owner ?p ?t (s_db (sv_keys srv)) = None" "sql_insert_token ?p ?t k now (s_db (sv_keys srv)) = Some (s_db (sv_keys srv'))"
    | now where "s_db (sv_keys srv') = sql_touch_token now ?p ?t (s_db (sv_keys srv))"
    using b bind_tx_effect by fastforce
  then show ?thesis
  proof cases
    case 2
    show ?thesis using ledger_insert_token[OF 2(2,1) row] by (rule r_into_rtranclp[of ledger_step])
  next
    case (3 now)
    have "ledger_of (s_db (sv_keys srv')) = ledger_of (s_db (sv_keys srv))"
      unfolding 3 by (rule ledger_same, simp add: sql_touch_token_def, rule owner_touch)
    then show ?thesis by simp
  qed simp
next
  case (AtDelete k pf msg ow ms)
  have "s_db (sv_keys srv') = s_db (sv_keys srv) \<or> (\<exists>c. s_db (sv_keys srv') = sql_delete_stale c (s_db (sv_keys srv)))"
    using st AtDelete by (auto simp: prune_delete_def Let_def write_if_def split: prod.splits db_out.splits if_splits)
  then show ?thesis using ledger_delete[OF ok] by (auto intro: r_into_rtranclp[of ledger_step])
next
  case (AtPrune k pf msg ow ms)
  have "s_db (sv_keys srv') = s_db (sv_keys srv)"
    using st AtPrune by (auto simp: prune_gate_def split: prod.splits if_splits)
  then show ?thesis by simp
next
  case (AtMessage k ms)
  have "sv_keys srv' = sv_keys srv" using st AtMessage by (cases ms) (auto simp: Let_def split: if_splits prod.splits option.splits)
  then show ?thesis by simp
next
  case (AtRefund k "is")
  have "sv_keys srv' = sv_keys srv" using st AtRefund by (cases "is") (auto split: prod.splits)
  then show ?thesis by simp
qed (use st in \<open>auto simp: Let_def split: if_splits prod.splits sum.splits option.splits\<close>)

text \<open>A thread binds tokens for a key that is still in the table.\<close>

lemma valid_key_there:
  assumes "history_ok c" "valid_since (cc_past c) n plain k"
  shows "\<exists>row \<in> set (keys_tab (s_db (sv_keys (cc_server c)))). k_id row = k"
proof -
  obtain j row where j: "j < length (cc_past c)" "sql_select_key (hashKey plain) (s_db (cc_past c ! j)) = Some row" "k_id row = k"
    using assms(2) by (auto simp: valid_since_def)
  have "keys_kept (cc_past c ! j) (cc_past c ! (length (cc_past c) - 1))" using history_kept[OF assms(1), of j] j(1) by simp
  moreover have "cc_past c ! (length (cc_past c) - 1) = sv_keys (cc_server c)" using assms(1) by (metis history_ok_def last_conv_nth)
  ultimately obtain row' where "sql_select_key (hashKey plain) (s_db (sv_keys (cc_server c))) = Some row'" "k_id row' = k"
    using j(2,3) by (fastforce simp: keys_kept_def key_survives_def)
  then show ?thesis using find_SomeD by (fastforce simp: sql_select_key_def)
qed

definition ledger_at :: "relay \<Rightarrow> ledger" where
  "ledger_at r = ledger_of (s_db (sv_keys (cc_server (rl_conc r))))"

lemma ledger_conc:
  assumes "conc_step c c'" "conc_inv c" "history_ok c" "tables_ok (s_db (sv_keys (cc_server c)))"
  shows "ledger_step\<^sup>*\<^sup>* (ledger_of (s_db (sv_keys (cc_server c)))) (ledger_of (s_db (sv_keys (cc_server c'))))"
  using assms(1)
proof cases
  case (thread i n th cd sched th' srv' w')
  have ok: "thread_ok (cc_server c) (cc_past c) n th"
    using assms(2) nth_mem[OF thread(2)] thread(3) by (auto simp: conc_inv_def)
  have "\<exists>row \<in> set (keys_tab (s_db (sv_keys (cc_server c)))). k_id row = k" if "th_pc th = AtBind k pf msg ms" for k pf msg ms
    using ok that valid_key_there[OF assms(3)] by (auto simp: thread_ok_def)
  from ledger_thread[OF thread(4) assms(4) this] show ?thesis using thread(1) by simp
qed simp

lemma life_ledger: "life_inv r \<Longrightarrow> relay_step r r' \<Longrightarrow> ledger_step\<^sup>*\<^sup>* (ledger_at r) (ledger_at r')"
proof -
  assume inv: "life_inv r" and step: "relay_step r r'"
  have ok: "tables_ok (s_db (sv_keys (cc_server (rl_conc r))))" using inv history_now by (auto simp: life_inv_def)
  show ?thesis
    using step
  proof cases
    case (handles c)
    then show ?thesis using ledger_conc[OF handles(3) _ _ ok] inv by (simp add: ledger_at_def life_inv_def)
  next
    case (restarts code h w addr srv w')
    then show ?thesis using restart_same[OF restarts(4,3)] by (simp add: ledger_at_def started_def)
  qed (simp_all add: ledger_at_def)
qed

interpretation promise: simulation ledger_step relay_step ledger_at life_inv
  by unfold_locales (rule life_inv_step life_ledger; assumption)+

section \<open>Properties\<close>



end
