(* ===== verification/Spec2Isabelle.thy ===== *)
theory Spec2Isabelle
  imports Ledger
begin

text \<open>
  A verification library of the slim-m push relay (Go, under \<open>src/\<close>): a service that lets
  self-hosted servers wake mobile devices through APNs and FCM without seeing what it
  forwards.

  \<^bold>\<open>The program.\<close> \<open>cmd/relay\<close> loads the configuration (\<open>internal/config\<close>), builds the two
  provider clients (\<open>internal/apns\<close>, \<open>internal/fcm\<close>, or the stub of \<open>internal/push\<close>), opens the
  SQLite store (\<open>internal/keys\<close>) and serves HTTP (\<open>internal/api\<close>): registration hands out a
  key, \<open>/v1/send\<close> pushes a batch of messages on behalf of a key, and an admin surface lists
  and revokes keys. Three limiters (\<open>internal/ratelimit\<close>) bound registrations per address,
  sends per key and calls per key. A device token belongs to the key that first sends to it.

  \<^bold>\<open>The theories\<close>, each beside the code it models:

  \<^item> \<open>Relay_Prelude\<close>: int64 wrap-around, durations and times, the surroundings of the process
    as a record of oracles (\<open>world\<close>: clock, SQL driver, entropy, log), list lemmas, and the
    locales \<open>step_system\<close> of transition systems and \<open>simulation\<close> of one by another. Quantifying over a world quantifies over every
    clock, every pattern of driver failures and every random key.
  \<^item> \<open>Go_Float\<close>, \<open>Go_Strings\<close>, \<open>Go_Utf8\<close>, \<open>Go_Json\<close>, \<open>Sha256\<close>: what the code uses of Go's
    standard library: \<open>float64\<close> rounding, \<open>strconv\<close>, \<open>strings\<close>, \<open>net.SplitHostPort\<close>, \<open>hex\<close>,
    \<open>base64\<close>, \<open>crypto/sha256\<close>, and \<open>encoding/json\<close> byte by byte: the scanner as a machine over a
    stack of brackets, string escapes and UTF-8, storing into structs and slices, and writing.
    Reading back what was written is shown to return it, with ill-formed bytes replaced.
  \<^item> \<open>Rate_Limit\<close> (\<open>internal/ratelimit/ratelimit.go\<close>): \<open>New_Limiter\<close>, \<open>Allow\<close>, \<open>Return\<close>,
    \<open>evictIdle\<close>; the bucket invariant, the rate bound, the guaranteed burst.
  \<^item> \<open>Key_Store\<close> (\<open>internal/keys/keys.go\<close>): the tables, one function per SQL statement,
    \<open>Open\<close>, \<open>migrate\<close>, \<open>Issue\<close>, \<open>Verify\<close>, \<open>List_keys\<close>, \<open>Revoke\<close>, \<open>BindToken\<close>,
    \<open>maybePruneStaleTokens\<close>; the interleavings of their atomic steps, the registry of token
    owners as an abstract specification, and its refinement.
  \<^item> \<open>Push_Vocab\<close>, \<open>Apns\<close>, \<open>Fcm\<close>, \<open>Senders\<close> (\<open>internal/push\<close>, \<open>apns\<close>, \<open>fcm\<close>): the
    vocabulary, what each client builds and how it classifies the provider's answers, and the
    contract of \<open>push.Sender\<close> as a locale with an interpretation per implementation.
  \<^item> \<open>Dispatch\<close> (\<open>dispatch\<close> of \<open>internal/api/send.go\<close>): the worker pool as a state machine whose
    runs are lists of events, one list per interleaving of feed, workers and deadline.
  \<^item> \<open>Config\<close> (\<open>internal/config/config.go\<close>): \<open>Load\<close> and its getters.
  \<^item> \<open>Api_Core\<close>, \<open>Api_Decode\<close>, \<open>Api_Send\<close>, \<open>Api_Router\<close>, \<open>Api_Text\<close> (\<open>internal/api\<close>): the server,
    the helpers, the decoding of request bodies, the handlers, the routing and the text of
    responses; a handler maps a request, the server and the world to a response, the new
    server, the calls made to providers and the new world.
  \<^item> \<open>Payload_Blind\<close>: a relational proof that payloads are never inspected.
  \<^item> \<open>Service\<close>: sequences of requests as a transition system.
  \<^item> \<open>Handler_Thread\<close>: one request as a thread of the critical sections of its handler, from the
    router on; run alone it is \<open>serve\<close>, it never stalls and ends within a bounded number of steps.
  \<^item> \<open>Concurrent\<close>: any number of such threads interleaved on one server, with the history of the
    store; what a thread has checked was true at some moment since its request arrived.
  \<^item> \<open>Relay_Main\<close> (\<open>cmd/relay/main.go\<close>): start-up and health probe.
  \<^item> \<open>Lifecycle\<close> (\<open>main\<close> after start-up): handling, a failing listener, signal, \<open>Shutdown\<close> with its
    deadline, \<open>Close\<close>, exit, and a kill at any moment with a restart on the same database.
  \<^item> \<open>Budgets\<close>: the limiters in the running system: the accounts of a key over all threads.
  \<^item> \<open>Ledger\<close>: the abstract specification of keys and bindings, and that the process implements it.

  \<^bold>\<open>What is shown.\<close> The limiters keep to their budgets up to float64 rounding; the store stays
  well-formed and a token keeps its first owner under every interleaving and driver failure;
  the pool fills every slot, never exceeds its concurrency, terminates and never deadlocks;
  a send request pushes only for tokens no other key holds, answers every message once, logs
  no content, refunds calls it did not attempt; revocation is final; the admin surface needs
  its token; the relay starts without provider credentials. Ownership of tokens, revocation, the
  admin guard and the soundness of the store are shown for requests that run at once, and
  across shutdowns, kills and restarts of the process, which implements an abstract ledger of
  issued keys and bound tokens; every request under way can always be
  answered, and a shutdown waits for it up to its deadline; the calls and send requests of a
  key keep to its budgets whatever runs at once. Between the text of
  a request and the text of a response or of a post to FCM, tokens and payloads are unchanged,
  and an error document of FCM leads to its documented verdict. Some properties state behaviour
  that falls short of the intent: idle buckets are dropped with their debt
  (\<open>limiter_idle_reset\<close>), an interrupted upgrade forgets when tokens were last used
  (\<open>interrupted_upgrade_forgets\<close>), large retentions overflow (\<open>retention_overflow\<close>), and the
  health probe reads the port differently from the server (\<open>health_probe_port\<close>).

  \<^bold>\<open>Bounds and fuel.\<close> No definition takes fuel. The pool is total on a given schedule;
  \<open>dispatch_terminates\<close> bounds the length of every run and completes every partial run, and
  \<open>requests_always_finish\<close> bounds the steps of every request and completes every request under
  way. The budgets carry the explicit rounding term \<open>fl_slack\<close>, \<open>2 ^ -50\<close> of the burst per call.

  \<^bold>\<open>Parameters.\<close> Provider answers and the OAuth token race are arguments, so the theorems hold
  for every behaviour of them; so are the host's files, environment and HTTP client at
  start-up, and how a time is printed in the local zone. The SQL engine is not code of this
  repository: the statements are modelled by what SQL says of them, and the driver's failures
  are an oracle. A restart reads what the last process had committed, as SQLite documents; the
  rule \<open>restarts\<close> of \<open>relay_step\<close> says so.

  \<^bold>\<open>Not modelled.\<close> The timeouts of the HTTP server and the connections below a request, so a
  request may still arrive while the process drains; \<open>ServeMux\<close>'s redirects of unclean paths; the
  text of driver errors in the log; what the APNs library makes of a notification; the values
  of the JSON types the relay never decodes into, numbers and booleans, beyond their syntax.
\<close>

section \<open>The whole process\<close>

text \<open>
  C1: from the start on a new or well-formed database, with any number of requests
  of any kind under way at once, their critical sections interleaved in any order, across
  shutdowns, kills and restarts: whatever a request hands to a provider is the push of one of
  its messages, payload and token untouched, to the provider of the message's platform; and
  since the request arrived there was a moment at which its bearer key was valid and a moment
  at which the store had the token bound to that key.
\<close>

theorem process_pushes_only_for_owner:
  assumes "life.reach r" and "(n, th) \<in> set (cc_threads (rl_conc r))" and "x \<in> set (th_calls th)" and "past = cc_past (rl_conc r)"
  shows "\<exists>k row i j req m pf kind. n \<le> i \<and> i < length past \<and> n \<le> j \<and> j < length past \<and>
     sql_select_key (hashKey (bearerToken (th_req th))) (s_db (past ! i)) = Some row \<and> k_revoked row = None \<and> k_id row = k \<and>
     owner_of (past ! j) (platform_str pf) (sm_Token m) = Some k \<and>
     decode_sendReq (th_req th) = Decoded req \<and> m \<in> set (Messages req) \<and> length (sm_Payload m) \<le> maxPayloadBytes \<and>
     parsePlatform (sm_Platform m) = Some pf \<and> parseKind (sm_Kind m) = Some kind \<and>
     call_of (sender_for (cc_server (rl_conc r)) pf) \<lparr>m_Token = sm_Token m, m_Kind = kind, m_Payload = sm_Payload m\<rparr> x"
  unfolding assms(4) using life_thread[OF assms(1,2)] assms(3) by (rule thread_ok_call)

lemma ex_life_pushes:
  "\<exists>r th. life.reach r \<and> cc_threads (rl_conc r) = [(0, th)] \<and> th_req th = ex_request \<and> th_calls th = [ex_push]"
proof -
  obtain w where w: "life_start \<lparr>rl_phase = Running, rl_conc = started (key_server [ex_key_row]) w []\<rparr>" "live_world w"
    using key_life[OF ex_rows_ok[of None]] by (auto simp: ex_key_row_def)
  let ?c = "started (key_server [ex_key_row]) w []"
  let ?r = "\<lparr>rl_phase = Running, rl_conc = ?c\<rparr>"
  let ?c1 = "?c\<lparr>cc_threads := [(0, new_thread ex_request)]\<rparr>"
  obtain d where d: "serve False ex_run ex_request (key_server [ex_key_row]) w = Some d" "sd_calls d = [ex_push]"
    using key_server_sends[OF w(2)] by blast
  obtain th where th: "runs False ex_run (new_thread ex_request, key_server [ex_key_row], w) (th, sd_server d, sd_world d)" "th_calls th = [ex_push]"
    using thread_alone[OF d(1)] d(2) by (auto simp: answers_def)
  have "conc_step ?c ?c1" using arrive[of ?c ex_request] by (simp add: started_def)
  moreover obtain past ops where "conc_step\<^sup>*\<^sup>* ?c1
      \<lparr>cc_threads = [(0, th)], cc_server = sd_server d, cc_world = sd_world d, cc_past = past, cc_ops = ops\<rparr>"
    using conc_runs[OF th(1), of 0 "[sv_keys (key_server [ex_key_row])]" "[]"] by (auto simp: started_def)
  ultimately have "conc_step\<^sup>*\<^sup>* ?c \<lparr>cc_threads = [(0, th)], cc_server = sd_server d, cc_world = sd_world d, cc_past = past, cc_ops = ops\<rparr>"
    by (rule converse_rtranclp_into_rtranclp)
  from life.reach_steps[OF life.reach_start[OF w(1)] handles_many[of ?r, simplified, OF this]]
  show ?thesis using th(2) runs_request[OF th(1)] by (intro exI conjI) (auto simp: new_thread_def)
qed

theorem process_pushes_only_for_owner_witness:
  "\<exists>r th k j m pf. life.reach r \<and> cc_threads (rl_conc r) = [(0, th)] \<and> ex_push \<in> set (th_calls th) \<and>
     m \<in> set ex_batch \<and> owner_of (cc_past (rl_conc r) ! j) (platform_str pf) (sm_Token m) = Some k"
proof -
  obtain r th where r: "life.reach r" "cc_threads (rl_conc r) = [(0, th)]" "th_req th = ex_request" "th_calls th = [ex_push]"
    using ex_life_pushes by blast
  have "(0, th) \<in> set (cc_threads (rl_conc r))" "ex_push \<in> set (th_calls th)" using r by simp_all
  from process_pushes_only_for_owner[OF r(1) this refl] r ex_decode(2) show ?thesis
    by (metis (no_types, lifting) decoded.inject list.set_intros(1) sendReq.select_convs(1))
qed

text \<open>
  C3: once a request to revoke a key has been answered with 204, no request with
  that key that arrives afterwards pushes anything or is answered with results, whatever else
  is under way and however often the process is stopped, killed and started again.
\<close>

theorem confirmed_revocation_is_final:
  assumes "life.reach r" and "(n0, th0) \<in> set (cc_threads (rl_conc r))" and "th_pc th0 = AtAnswer resp" and "rs_status resp = 204"
    and "asks_revoke (sv_cfg (cc_server (rl_conc r))) (th_req th0) i" and "relay_step\<^sup>*\<^sup>* r r'"
    and "(n, th) \<in> set (cc_threads (rl_conc r'))" and "length (cc_past (rl_conc r)) \<le> Suc n"
    and "sql_select_key (hashKey (bearerToken (th_req th))) (s_db (cc_past (rl_conc r') ! n)) = Some row" and "k_id row = i"
  shows "th_calls th = [] \<and> th_pc th \<noteq> AtAnswer (writeJSON 200 (BodyResults rs))"
proof -
  have r': "life.reach r'" using life.reach_steps[OF assms(1,6)] .
  have "row \<in> set (keys_tab (s_db (cc_past (rl_conc r') ! n)))"
    using assms(9) by (auto simp: sql_select_key_def find_Some_iff)
  from confirmed_revocation[OF assms(1-6,8) life_arrival[OF r' assms(7)] this assms(10)]
  show ?thesis by (rule revoked_silent[OF r' assms(7,9)])
qed

definition revoke_request :: Request where
  "revoke_request = ex_request\<lparr>rq_path := [''admin'', ''keys'', FormatInt 1, ''revoke''], rq_headers := [(''Authorization'', ''Bearer app'')]\<rparr>"

lemma revoke_routed:
  "route_of key_cfg (rq_method revoke_request) (rq_path revoke_request) = RRevoke (FormatInt 1)"
  "asks_revoke key_cfg revoke_request 1" "bearerToken revoke_request = ''app''"
proof -
  show r: "route_of key_cfg (rq_method revoke_request) (rq_path revoke_request) = RRevoke (FormatInt 1)"
    by (simp add: revoke_request_def ex_request_def route_of_def on_method_def key_cfg_sel)
  have "in_int64 1" by (simp add: in_int64_def min_int64_def max_int64_def)
  then show "asks_revoke key_cfg revoke_request 1" using r ParseInt_FormatInt by (auto simp: asks_revoke_def)
  show "bearerToken revoke_request = ''app''"
    by (rule bearerToken_key) (simp_all add: revoke_request_def header_get_def visible_def)
qed

lemma revoke_served:
  assumes "live_world w"
  shows "\<exists>d u. serve False [] revoke_request (key_server [ex_key_row]) w = Some d \<and> rs_status (sd_resp d) = 204 \<and>
     keys_tab (s_db (sv_keys (sd_server d))) = [ex_key_row\<lparr>k_revoked := Some u\<rparr>]"
proof -
  have "in_int64 1" by (simp add: in_int64_def min_int64_def max_int64_def)
  then have "ParseInt (FormatInt 1) = Some 1" by (rule ParseInt_FormatInt)
  then show ?thesis using assms
    by (simp add: serve_def revoke_routed key_server_def key_cfg_sel requireAdmin_def handleAdminRevokeKey_def Revoke_def sql_revoke_def
        revocable_def ex_keys_def ex_key_row_def empty_tables_def live_world_def world_defs answer_with_def)
qed

lemma ex_revoked:
  "\<exists>r th resp u. life.reach r \<and> rl_phase r = Running \<and> cc_threads (rl_conc r) = [(0, th)] \<and> th_pc th = AtAnswer resp \<and>
     rs_status resp = 204 \<and> asks_revoke (sv_cfg (cc_server (rl_conc r))) (th_req th) 1 \<and>
     keys_tab (s_db (sv_keys (cc_server (rl_conc r)))) = [ex_key_row\<lparr>k_revoked := Some u\<rparr>]"
proof -
  obtain w where w: "life_start \<lparr>rl_phase = Running, rl_conc = started (key_server [ex_key_row]) w []\<rparr>" "live_world w"
    using key_life[OF ex_rows_ok[of None]] by (auto simp: ex_key_row_def)
  let ?c = "started (key_server [ex_key_row]) w []"
  let ?c1 = "?c\<lparr>cc_threads := [(0, new_thread revoke_request)]\<rparr>"
  obtain d u where d: "serve False [] revoke_request (key_server [ex_key_row]) w = Some d" "rs_status (sd_resp d) = 204"
      "keys_tab (s_db (sv_keys (sd_server d))) = [ex_key_row\<lparr>k_revoked := Some u\<rparr>]"
    using revoke_served[OF w(2)] by blast
  obtain th where th: "runs False [] (new_thread revoke_request, key_server [ex_key_row], w) (th, sd_server d, sd_world d)"
      "th_pc th = AtAnswer (sd_resp d)"
    using thread_alone[OF d(1)] by (auto simp: answers_def)
  obtain past ops where "conc_step\<^sup>*\<^sup>* ?c1
      \<lparr>cc_threads = [(0, th)], cc_server = sd_server d, cc_world = sd_world d, cc_past = past, cc_ops = ops\<rparr>"
    using conc_runs[OF th(1), of 0 "[sv_keys (key_server [ex_key_row])]" "[]"] by (auto simp: started_def)
  moreover have "conc_step ?c ?c1" using arrive[of ?c revoke_request] by (simp add: started_def)
  ultimately have "conc_step\<^sup>*\<^sup>* ?c \<lparr>cc_threads = [(0, th)], cc_server = sd_server d, cc_world = sd_world d, cc_past = past, cc_ops = ops\<rparr>"
    by (rule converse_rtranclp_into_rtranclp[rotated])
  from life.reach_steps[OF life.reach_start[OF w(1)] handles_many[of "\<lparr>rl_phase = Running, rl_conc = ?c\<rparr>", simplified, OF this]]
  show ?thesis
    using th d runs_request[OF th(1)] serve_steps(2)[OF d(1)] revoke_routed(2)
    by (intro exI conjI) (auto simp: new_thread_def key_server_def)
qed

theorem confirmed_revocation_is_final_witness:
  "\<exists>r th. life.reach r \<and> (\<exists>n. (n, th) \<in> set (cc_threads (rl_conc r))) \<and> th_req th = ex_request \<and> th_calls th = []"
proof -
  obtain r th0 resp u where r: "life.reach r" "rl_phase r = Running" "cc_threads (rl_conc r) = [(0, th0)]" "th_pc th0 = AtAnswer resp"
      "rs_status resp = 204" "asks_revoke (sv_cfg (cc_server (rl_conc r))) (th_req th0) 1"
      "keys_tab (s_db (sv_keys (cc_server (rl_conc r)))) = [ex_key_row\<lparr>k_revoked := Some u\<rparr>]"
    using ex_revoked by blast
  let ?n = "length (cc_past (rl_conc r)) - 1"
  let ?c = "(rl_conc r)\<lparr>cc_threads := cc_threads (rl_conc r) @ [(?n, new_thread ex_request)]\<rparr>"
  let ?r = "r\<lparr>rl_conc := ?c\<rparr>"
  have s: "relay_step r ?r" using handles[of r ?c] arrive[of "rl_conc r" ex_request] r(2) by simp
  have "history_ok (rl_conc r)" using life_reach_inv[OF r(1)] by (simp add: life_inv_def)
  then have "cc_past (rl_conc r) ! ?n = sv_keys (cc_server (rl_conc r))" by (metis history_ok_def last_conv_nth)
  then have row: "sql_select_key (hashKey (bearerToken (th_req (new_thread ex_request)))) (s_db (cc_past (rl_conc ?r) ! ?n))
      = Some (ex_key_row\<lparr>k_revoked := Some u\<rparr>)"
    using r(7) by (simp add: sql_select_key_def new_thread_def ex_bearer ex_key_row_def)
  have "th_calls (new_thread ex_request) = []"
    using confirmed_revocation_is_final[OF r(1) _ r(4-6) r_into_rtranclp[of relay_step, OF s] _ _ row, of 0] r(3) by (simp add: ex_key_row_def)
  then show ?thesis using life.reach_step[OF r(1) s] by (intro exI[of _ ?r] exI[of _ "new_thread ex_request"]) (auto simp: new_thread_def)
qed

end
